(* ===== verification/Prelude.thy ===== *)
theory Prelude
  imports Main "HOL-Library.Word"
begin

text \<open>
  Shared vocabulary of the development: the machine integers of the kernel, panics as
  values, checked slice access, counted loops with early failure, and the lemmas about
  them that the components' proofs rest on.

  The kernel is built with \<^verbatim>\<open>cargo build --release\<close> (makefile): integer arithmetic wraps
  around, while slice indexing, \<open>assert!\<close>, \<open>unwrap\<close> and \<open>expect\<close> still panic. So integers
  are words of their width and every panic is an \<open>Inl\<close> branch.
\<close>

unbundle bit_operations_syntax

type_synonym u8 = "8 word"
type_synonym u16 = "16 word"
type_synonym u32 = "32 word"
type_synonym u64 = "64 word"
type_synonym usize = "64 word"

text \<open>
  Why a computation stopped. \<open>AddrInvalid\<close> is a panic inside the address constructors of
  the \<^verbatim>\<open>x86_64\<close> crate. \<open>Undefined\<close> is not a panic: it marks unsafe code that reads
  uninitialised memory or follows a pointer to no object, which the proofs rule out.
\<close>

datatype panic =
    OutOfBounds
  | AssertFailed
  | UnwrapFailed
  | ExpectFailed string
  | AddrInvalid
  | Panicked string
  | Undefined

type_synonym 'a res = "panic + 'a"

named_theorems res_iff \<open>when a composed computation returns\<close>
named_theorems word_nat \<open>reading words as natural numbers\<close>

section \<open>Sequencing of computations that may panic\<close>

fun bind_res :: "'e + 'a \<Rightarrow> ('a \<Rightarrow> 'e + 'b) \<Rightarrow> 'e + 'b" where
  "bind_res (Inl e) f = Inl e"
| "bind_res (Inr x) f = f x"

definition expect_some :: "panic \<Rightarrow> 'a option \<Rightarrow> 'a res" where
  "expect_some p m = (case m of None \<Rightarrow> Inl p | Some x \<Rightarrow> Inr x)"

definition assert_res :: "bool \<Rightarrow> unit res" where
  "assert_res b = (if b then Inr () else Inl AssertFailed)"

fun for_res :: "('i \<Rightarrow> 's \<Rightarrow> 'e + 's) \<Rightarrow> 'i list \<Rightarrow> 's \<Rightarrow> 'e + 's" where
  "for_res f [] s = Inr s"
| "for_res f (i # is) s = bind_res (f i s) (for_res f is)"

text \<open>The indices a Rust range \<open>a..b\<close> over \<open>usize\<close> yields.\<close>

definition range_usize :: "usize \<Rightarrow> usize \<Rightarrow> usize list" where
  "range_usize a b = map word_of_nat [unat a ..< unat b]"

definition slice_get :: "'a list \<Rightarrow> usize \<Rightarrow> 'a res" where
  "slice_get xs i = (if unat i < length xs then Inr (xs ! unat i) else Inl OutOfBounds)"

definition slice_set :: "'a list \<Rightarrow> usize \<Rightarrow> 'a \<Rightarrow> 'a list res" where
  "slice_set xs i v = (if unat i < length xs then Inr (xs[unat i := v]) else Inl OutOfBounds)"

text \<open>Rust's \<open>usize::div_ceil\<close>, which does not overflow.\<close>

definition div_ceil :: "usize \<Rightarrow> usize \<Rightarrow> usize" where
  "div_ceil a b = (if a mod b = 0 then a div b else a div b + 1)"

lemma bind_res_Inr [res_iff]:
  "bind_res m f = Inr y \<longleftrightarrow> (\<exists>x. m = Inr x \<and> f x = Inr y)"
  by (cases m) auto

lemma bind_res_Inl [res_iff]:
  "bind_res m f = Inl e \<longleftrightarrow> m = Inl e \<or> (\<exists>x. m = Inr x \<and> f x = Inl e)"
  by (cases m) auto

lemma bind_res_assoc: "bind_res (bind_res m f) g = bind_res m (\<lambda>x. bind_res (f x) g)"
  by (cases m) auto

lemma expect_some_simps [simp]:
  "expect_some p None = Inl p" "expect_some p (Some x) = Inr x"
  by (simp_all add: expect_some_def)

lemma expect_some_Inr [res_iff]: "expect_some p m = Inr x \<longleftrightarrow> m = Some x"
  by (cases m) auto

lemma assert_res_Inr [res_iff]: "assert_res b = Inr u \<longleftrightarrow> b"
  by (simp add: assert_res_def)

lemma assert_res_simps [simp]: "assert_res True = Inr ()" "assert_res False = Inl AssertFailed"
  by (simp_all add: assert_res_def)

lemma for_res_append: "for_res f (xs @ ys) s = bind_res (for_res f xs s) (for_res f ys)"
proof (induction xs arbitrary: s)
  case (Cons x xs)
  then show ?case by (cases "f x s") simp_all
qed simp

text \<open>A counted loop that keeps an invariant at every step returns and keeps it.\<close>

lemma for_res_inv:
  assumes "P 0 s"
    and "\<And>k s. k < length xs \<Longrightarrow> P k s \<Longrightarrow> \<exists>s'. f (xs ! k) s = Inr s' \<and> P (Suc k) s'"
  shows "\<exists>s'. for_res f xs s = Inr s' \<and> P (length xs) s'"
  using assms
proof (induction xs arbitrary: s P)
  case Nil
  then show ?case by simp
next
  case (Cons x xs)
  obtain s1 where s1: "f x s = Inr s1" "P (Suc 0) s1"
    using Cons.prems(2)[of 0 s] Cons.prems(1) by auto
  have "\<exists>s'. for_res f xs s1 = Inr s' \<and> P (Suc (length xs)) s'"
  proof (rule Cons.IH[of "\<lambda>k. P (Suc k)"])
    show "P (Suc 0) s1" by fact
  next
    fix k t assume "k < length xs" "P (Suc k) t"
    then show "\<exists>s'. f (xs ! k) t = Inr s' \<and> P (Suc (Suc k)) s'"
      using Cons.prems(2)[of "Suc k" t] by auto
  qed
  with s1(1) show ?case by simp
qed

section \<open>Checked access\<close>

lemma slice_get_Inr [res_iff]:
  "slice_get xs i = Inr x \<longleftrightarrow> unat i < length xs \<and> xs ! unat i = x"
  by (auto simp: slice_get_def)

lemma slice_set_Inr [res_iff]:
  "slice_set xs i v = Inr ys \<longleftrightarrow> unat i < length xs \<and> ys = xs[unat i := v]"
  by (auto simp: slice_set_def)

lemma slice_get_ok [simp]: "unat i < length xs \<Longrightarrow> slice_get xs i = Inr (xs ! unat i)"
  by (simp add: slice_get_def)

lemma slice_set_ok [simp]: "unat i < length xs \<Longrightarrow> slice_set xs i v = Inr (xs[unat i := v])"
  by (simp add: slice_set_def)

lemma slice_get_fail [simp]: "\<not> unat i < length xs \<Longrightarrow> slice_get xs i = Inl OutOfBounds"
  by (simp add: slice_get_def)

lemma length_range_usize [simp]: "length (range_usize a b) = unat b - unat a"
  by (simp add: range_usize_def)

section \<open>Words read as natural numbers\<close>

lemma u64_bound: "unat (x :: 64 word) < 18446744073709551616"
  using unsigned_less[of x, where ?'a = nat] by simp

lemma unat_of_nat_u64 [word_nat]:
  "n < 18446744073709551616 \<Longrightarrow> unat (word_of_nat n :: 64 word) = n"
  by (simp add: unat_of_nat take_bit_eq_mod)

lemma unat_add_u64 [word_nat]:
  "unat a + unat b < 18446744073709551616 \<Longrightarrow> unat (a + b :: 64 word) = unat a + unat b"
  by (simp add: unat_word_ariths)

lemma unat_mult_u64 [word_nat]:
  "unat a * unat b < 18446744073709551616 \<Longrightarrow> unat (a * b :: 64 word) = unat a * unat b"
  by (simp add: unat_word_ariths)

lemma unat_sub_u64 [word_nat]: "unat b \<le> unat a \<Longrightarrow> unat (a - b :: 64 word) = unat a - unat b"
  by (simp add: unat_sub word_le_nat_alt)

lemma nth_range_usize:
  "k < unat b - unat a \<Longrightarrow> range_usize a b ! k = word_of_nat (unat a + k)"
  by (simp add: range_usize_def)

lemma unat_nth_range_usize [simp]:
  "k < unat b - unat a \<Longrightarrow> unat (range_usize a b ! k) = unat a + k"
  using u64_bound[of b] by (simp add: nth_range_usize unat_of_nat_u64 del: of_nat_add)

lemma unat_ucast_u32 [word_nat]: "unat (ucast (c :: u32) :: usize) = unat c"
  using unsigned_less[of c, where ?'a = nat]
  by (simp add: unsigned_ucast_eq take_bit_nat_eq_self_iff)

lemma unat_eqI: "unat a = unat b \<Longrightarrow> a = b"
  by (rule word_unat_eq_iff[THEN iffD2])

lemma div_ceil_nat:
  fixes a b :: nat
  assumes "0 < b"
  shows "(a + b - 1) div b = (if a mod b = 0 then a div b else a div b + 1)"
proof -
  define q r where "q = a div b" and "r = a mod b"
  have a: "a = q * b + r" and r: "r < b" using assms by (auto simp: q_def r_def)
  show ?thesis
  proof (cases "r = 0")
    case True
    have "a + b - 1 = q * b + (b - 1)" using a True assms by simp
    also have "\<dots> div b = q" using assms by (simp only: div_mult_self3) simp
    finally show ?thesis using True by (simp add: q_def r_def)
  next
    case False
    have "a + b - 1 = (q + 1) * b + (r - 1)" using a False by simp
    also have "\<dots> div b = q + 1" using r assms by (simp only: div_mult_self3) simp
    finally show ?thesis using False by (simp add: q_def r_def)
  qed
qed

lemma unat_div_ceil:
  assumes "0 < unat b"
  shows "unat (div_ceil a b) = (unat a + unat b - 1) div unat b"
proof (cases "unat a mod unat b = 0")
  case True
  then have "a mod b = 0" by (metis unat_mod unat_eq_zero)
  with True assms show ?thesis by (subst div_ceil_nat) (simp_all add: div_ceil_def unat_div)
next
  case False
  then have nz: "a mod b \<noteq> 0" by (metis unat_mod unat_eq_zero)
  have "2 \<le> unat b" using False assms by (cases "unat b = 1") auto
  then have "unat a div unat b < 18446744073709551615"
    using u64_bound[of a] div_le_mono2[of 2 "unat b" "unat a"] by linarith
  with nz False assms show ?thesis
    by (subst div_ceil_nat) (simp_all add: div_ceil_def unat_div word_nat)
qed

lemma unat_sum_list_u64:
  fixes f :: "'a \<Rightarrow> 64 word"
  shows "sum_list (map (\<lambda>x. unat (f x)) xs) < 18446744073709551616 \<Longrightarrow>
    unat (sum_list (map f xs)) = sum_list (map (\<lambda>x. unat (f x)) xs)"
  by (induction xs) (auto simp: word_nat)

lemma sum_list_take_le: "sum_list (take i xs) \<le> sum_list (xs :: nat list)"
  by (metis append_take_drop_id le_add1 sum_list_append)

end
