(* ===== verification/Util.thy ===== *)
theory Util
  imports Prelude
begin

text \<open>
  The random numbers of the scheduler (src/src/util.rs): the time stamp counter, read as two
  32-bit halves, scrambled by one round of xorshift.
\<close>

definition read_tsc :: "u32 \<Rightarrow> u32 \<Rightarrow> u64" where
  "read_tsc high low = push_bit 32 (ucast high) OR ucast low"

definition random_u64 :: "u64 \<Rightarrow> u64" where
  "random_u64 tsc =
     (let x = tsc;
          x = x XOR drop_bit 13 x;
          x = x XOR push_bit 7 x;
          x = x XOR drop_bit 17 x
      in x)"

section \<open>Each xorshift step can be undone\<close>

lemma xor_cancel_right:
  fixes x y f g :: "'a::len word"
  assumes "x XOR f = y XOR g"
  shows "x XOR y = f XOR g"
proof (rule bit_word_eqI)
  fix n
  have "bit (x XOR f) n \<longleftrightarrow> bit (y XOR g) n" using assms by simp
  then show "bit (x XOR y) n \<longleftrightarrow> bit (f XOR g) n" by (auto simp: bit_xor_iff)
qed

lemma xor_zero_eq:
  fixes x y :: "'a::len word"
  assumes "x XOR y = 0"
  shows "x = y"
proof (rule bit_word_eqI)
  fix n
  have "\<not> bit (x XOR y) n" using assms by simp
  then show "bit x n \<longleftrightarrow> bit y n" by (simp add: bit_xor_iff)
qed

lemma drop_bit_fixpoint:
  fixes d :: "'a::len word"
  assumes "0 < k" "d = drop_bit k d"
  shows "d = 0"
proof (rule ccontr)
  assume "d \<noteq> 0"
  then obtain n where n: "bit d n" by (metis bit_eqI bit_0_eq bot_apply bot_bool_def)
  have "bit d (n + k * m)" for m
  proof (induction m)
    case (Suc m)
    then have "bit (drop_bit k d) (n + k * m)" using assms(2) by simp
    then show ?case by (simp add: bit_drop_bit_eq algebra_simps)
  qed (use n in simp)
  from this[of "LENGTH('a)"] have "n + k * LENGTH('a) < LENGTH('a)" by (rule bit_imp_le_length)
  with assms(1) show False by (cases k) auto
qed

lemma push_bit_fixpoint:
  fixes d :: "'a::len word"
  assumes "0 < k" "d = push_bit k d"
  shows "d = 0"
proof (rule ccontr)
  assume "d \<noteq> 0"
  then obtain n where "bit d n" by (metis bit_eqI bit_0_eq bot_apply bot_bool_def)
  then show False
  proof (induction n rule: less_induct)
    case (less n)
    then have "bit (push_bit k d) n" using assms(2) by simp
    then have "k \<le> n" "bit d (n - k)" by (auto simp: bit_push_bit_iff)
    with less.IH[of "n - k"] assms(1) show False by simp
  qed
qed

lemma inj_xorshift_right: "0 < k \<Longrightarrow> inj (\<lambda>x :: 'a::len word. x XOR drop_bit k x)"
proof (rule injI)
  fix x y :: "'a word" assume "0 < k" "x XOR drop_bit k x = y XOR drop_bit k y"
  then have "x XOR y = drop_bit k (x XOR y)" using xor_cancel_right by (metis drop_bit_xor)
  with \<open>0 < k\<close> have "x XOR y = 0" by (rule drop_bit_fixpoint)
  then show "x = y" by (rule xor_zero_eq)
qed

lemma inj_xorshift_left: "0 < k \<Longrightarrow> inj (\<lambda>x :: 'a::len word. x XOR push_bit k x)"
proof (rule injI)
  fix x y :: "'a word" assume "0 < k" "x XOR push_bit k x = y XOR push_bit k y"
  then have "x XOR y = push_bit k (x XOR y)" using xor_cancel_right by (metis push_bit_xor)
  with \<open>0 < k\<close> have "x XOR y = 0" by (rule push_bit_fixpoint)
  then show "x = y" by (rule xor_zero_eq)
qed

lemma inj_random_u64: "inj random_u64"
proof -
  have "random_u64 = (\<lambda>x. x XOR drop_bit 17 x) \<circ> (\<lambda>x. x XOR push_bit 7 x) \<circ> (\<lambda>x. x XOR drop_bit 13 x)"
    by (simp add: fun_eq_iff random_u64_def)
  moreover have "inj \<dots>"
    by (intro inj_compose inj_xorshift_left inj_xorshift_right) simp_all
  ultimately show ?thesis by simp
qed

lemma inj_read_tsc: "read_tsc h l = read_tsc h' l' \<longleftrightarrow> h = h' \<and> l = l'"
proof
  assume eq: "read_tsc h l = read_tsc h' l'"
  have lo: "bit (read_tsc h l) n \<longleftrightarrow> bit l n" if "n < 32" for n h l
    using that by (auto simp: read_tsc_def bit_or_iff bit_push_bit_iff bit_ucast_iff)
  have hi: "bit (read_tsc h l) (32 + n) \<longleftrightarrow> bit h n" if "n < 32" for n h l
    using that by (auto simp: read_tsc_def bit_or_iff bit_push_bit_iff bit_ucast_iff dest: bit_imp_le_length)
  show "h = h' \<and> l = l'"
  proof
    show "h = h'"
    proof (rule bit_word_eqI)
      fix n assume "n < LENGTH(32)"
      then show "bit h n \<longleftrightarrow> bit h' n" using hi[of n h l] hi[of n h' l'] eq by simp
    qed
    show "l = l'"
    proof (rule bit_word_eqI)
      fix n assume "n < LENGTH(32)"
      then show "bit l n \<longleftrightarrow> bit l' n" using lo[of n h l] lo[of n h' l'] eq by simp
    qed
  qed
qed simp

text \<open>
  C38. The generator loses no entropy: \<open>random_u64\<close> is a bijection on 64-bit words, and
  different readings of the two halves of the time stamp counter give different numbers.
\<close>

theorem random_u64_bijective:
  "bij random_u64 \<and> inj (\<lambda>(high, low). random_u64 (read_tsc high low))"
proof
  show "bij random_u64"
    using inj_random_u64 by (simp add: bij_def finite_UNIV_inj_surj)
  show "inj (\<lambda>(high, low). random_u64 (read_tsc high low))"
    by (rule injI) (auto dest: injD[OF inj_random_u64] simp: inj_read_tsc)
qed

end
