(* ===== verification/Frame.thy ===== *)
theory Frame
  imports Prelude
begin

text \<open>
  Physical frames (src/src/memory/frame.rs): \<open>Frame\<close>, \<open>FrameRange\<close>, the allocation errors,
  and the \<open>FrameAllocator\<close> trait. The trait is the interface every other part of the kernel
  allocates through, so its contract is the locale \<open>frame_allocator\<close>; the default methods
  \<open>alloc_one\<close> and \<open>dealloc_one\<close> take the implementor's \<open>alloc\<close> and \<open>dealloc\<close> as arguments.

  Addresses come from the \<^verbatim>\<open>x86_64\<close> crate. Its operations are the fields of the record
  \<open>x86_crate\<close>, an argument of every definition that uses them (\<open>None\<close>: the call panics);
  \<open>x86_ok\<close> says what its documentation promises of them. A \<open>PhysAddr\<close> or \<open>VirtAddr\<close> is the
  \<open>u64\<close> it wraps.
\<close>

section \<open>The address types of the x86-64 crate\<close>

record x86_crate =
  phys_new :: "u64 \<Rightarrow> u64 option"
  phys_add :: "u64 \<Rightarrow> u64 \<Rightarrow> u64 option"
  phys_is_aligned :: "u64 \<Rightarrow> u64 \<Rightarrow> bool"
  virt_new :: "u64 \<Rightarrow> u64 option"
  selector_new :: "u16 \<Rightarrow> u16 \<Rightarrow> u16"
  pte_addr :: "u64 \<Rightarrow> u64"
  pte_present :: "u64 \<Rightarrow> bool"
  pte_set_addr :: "u64 \<Rightarrow> u64 \<Rightarrow> u64 option"

text \<open>
  The fields are \<open>PhysAddr::new\<close>, addition of an offset to a \<open>PhysAddr\<close>, \<open>is_aligned\<close>,
  \<open>VirtAddr::new\<close>, the bits of \<open>SegmentSelector::new\<close>, and of a page table entry its \<open>addr\<close>,
  whether its flags contain \<open>PRESENT\<close>, and the entry \<open>set_addr\<close> makes from an address and
  flags (\<open>PRESENT\<close> is 1, \<open>WRITABLE\<close> is 2).
\<close>

definition canonical :: "u64 \<Rightarrow> bool" where
  "canonical a \<longleftrightarrow> unat a < 2 ^ 47 \<or> 2 ^ 64 - 2 ^ 47 \<le> unat a"

definition x86_ok :: "x86_crate \<Rightarrow> bool" where
  "x86_ok X \<longleftrightarrow>
     phys_new X = (\<lambda>a. if unat a < 2 ^ 52 then Some a else None) \<and>
     phys_add X = (\<lambda>a n. if unat a + unat n < 2 ^ 52 then Some (a + n) else None) \<and>
     (\<forall>a. phys_is_aligned X a 4096 \<longleftrightarrow> unat a mod 4096 = 0) \<and>
     virt_new X = (\<lambda>a. if canonical a then Some a else None) \<and>
     selector_new X = (\<lambda>index rpl. push_bit 3 index OR rpl) \<and>
     pte_addr X = (\<lambda>e. e AND 0x000ffffffffff000) \<and> pte_present X = (\<lambda>e. bit e 0) \<and>
     (\<forall>a. unat a mod 4096 = 0 \<and> unat a < 2 ^ 52 \<longrightarrow> pte_set_addr X a 3 = Some (a OR 3))"

text \<open>Functions with the documented behaviour, for closed instances.\<close>

definition x86_doc :: x86_crate where
  "x86_doc = \<lparr>
     phys_new = (\<lambda>a. if unat a < 2 ^ 52 then Some a else None),
     phys_add = (\<lambda>a n. if unat a + unat n < 2 ^ 52 then Some (a + n) else None),
     phys_is_aligned = (\<lambda>a n. unat a mod unat n = 0),
     virt_new = (\<lambda>a. if canonical a then Some a else None),
     selector_new = (\<lambda>index rpl. push_bit 3 index OR rpl),
     pte_addr = (\<lambda>e. e AND 0x000ffffffffff000),
     pte_present = (\<lambda>e. bit e 0),
     pte_set_addr = (\<lambda>a f. if unat a mod 4096 = 0 then Some (a OR f) else None)\<rparr>"

section \<open>Frames and ranges of frames\<close>

definition FRAME_SIZE :: usize where
  "FRAME_SIZE = 4096"

datatype frame = Frame (frame_addr: u64)

definition frame_new :: "x86_crate \<Rightarrow> u64 \<Rightarrow> frame res" where
  "frame_new X addr =
     bind_res (assert_res (phys_is_aligned X addr FRAME_SIZE)) (\<lambda>_. Inr (Frame addr))"

record frame_range =
  fr_start :: u64
  fr_count :: usize

definition frame_range_new :: "x86_crate \<Rightarrow> u64 \<Rightarrow> usize \<Rightarrow> frame_range res" where
  "frame_range_new X start count =
     bind_res (assert_res (phys_is_aligned X start FRAME_SIZE))
       (\<lambda>_. Inr \<lparr>fr_start = start, fr_count = count\<rparr>)"

definition start_addr :: "frame_range \<Rightarrow> u64" where
  "start_addr r = fr_start r"

definition end_addr :: "x86_crate \<Rightarrow> frame_range \<Rightarrow> u64 res" where
  "end_addr X r = expect_some AddrInvalid (phys_add X (fr_start r) (fr_count r * FRAME_SIZE))"

datatype frame_alloc_error = OutOfMemory | NotInitialized

type_synonym 's alloc_fn = "'s \<Rightarrow> usize \<Rightarrow> ((frame_alloc_error + frame_range) \<times> 's) res"
type_synonym 's dealloc_fn = "'s \<Rightarrow> frame_range \<Rightarrow> 's res"

definition alloc_one ::
  "x86_crate \<Rightarrow> 's alloc_fn \<Rightarrow> 's \<Rightarrow> ((frame_alloc_error + frame) \<times> 's) res" where
  "alloc_one X alloc s =
     bind_res (alloc s 1) (\<lambda>(r, s').
       case r of
         Inl e \<Rightarrow> Inr (Inl e, s')
       | Inr rg \<Rightarrow> bind_res (frame_new X (start_addr rg)) (\<lambda>f. Inr (Inr f, s')))"

definition dealloc_one :: "x86_crate \<Rightarrow> 's dealloc_fn \<Rightarrow> 's \<Rightarrow> frame \<Rightarrow> 's res" where
  "dealloc_one X dealloc s f =
     bind_res (frame_range_new X (frame_addr f) 1) (dealloc s)"

text \<open>The addresses of the frames a range covers.\<close>

definition frames_of :: "frame_range \<Rightarrow> nat set" where
  "frames_of r = (\<lambda>i. unat (fr_start r) + 4096 * i) ` {..<unat (fr_count r)}"

text \<open>
  A client that allocates ranges and gives back ranges it holds: the requests it makes and
  the ranges that are live after them.
\<close>

datatype request = Alloc usize | Free nat

fun serve ::
  "'s alloc_fn \<Rightarrow> 's dealloc_fn \<Rightarrow> request list \<Rightarrow> 's \<Rightarrow> frame_range list
     \<Rightarrow> ('s \<times> frame_range list) res" where
  "serve alloc dealloc [] s live = Inr (s, live)"
| "serve alloc dealloc (Alloc n # qs) s live =
     bind_res (alloc s n) (\<lambda>(r, s').
       serve alloc dealloc qs s' (case r of Inl _ \<Rightarrow> live | Inr rg \<Rightarrow> rg # live))"
| "serve alloc dealloc (Free i # qs) s live =
     (if i < length live
      then bind_res (dealloc s (live ! i)) (\<lambda>s'.
             serve alloc dealloc qs s' (take i live @ drop (Suc i) live))
      else serve alloc dealloc qs s live)"

definition disjoint_ranges :: "frame_range list \<Rightarrow> bool" where
  "disjoint_ranges rs \<longleftrightarrow>
     (\<forall>i < length rs. \<forall>j < length rs. i \<noteq> j \<longrightarrow> frames_of (rs ! i) \<inter> frames_of (rs ! j) = {})"

section \<open>Basic facts\<close>

lemma x86_ok_simps:
  assumes "x86_ok X"
  shows "phys_new X a = (if unat a < 2 ^ 52 then Some a else None)"
    and "phys_add X a n = (if unat a + unat n < 2 ^ 52 then Some (a + n) else None)"
    and "phys_is_aligned X a FRAME_SIZE \<longleftrightarrow> unat a mod 4096 = 0"
    and "virt_new X a = (if canonical a then Some a else None)"
    and "selector_new X index rpl = push_bit 3 index OR rpl"
    and "unat a mod 4096 = 0 \<Longrightarrow> unat a < 2 ^ 52 \<Longrightarrow> pte_set_addr X a 3 = Some (a OR 3)"
    and "pte_addr X e = e AND 0x000ffffffffff000" and "pte_present X e \<longleftrightarrow> bit e 0"
  using assms by (auto simp: x86_ok_def FRAME_SIZE_def)

lemma frame_bits:
  fixes a :: u64
  assumes "unat a mod 4096 = 0" "unat a < 2 ^ 52"
  shows "bit a n \<Longrightarrow> 12 \<le> n \<and> n < 52"
proof -
  assume b: "bit a n"
  have "take_bit 12 a = 0"
    using assms(1) by (simp add: word_unat_eq_iff take_bit_eq_mod unat_mod)
  moreover have "take_bit 52 a = a"
    using assms(2) by (simp add: word_unat_eq_iff take_bit_eq_mod unat_mod)
  ultimately show ?thesis
    using b by (metis bit_take_bit_iff bit_0_eq bot_apply bot_bool_def not_less)
qed

text \<open>A page table entry made for a frame: its address field is the frame, it is present and no large page.\<close>

lemma pte_bits:
  fixes a :: u64
  assumes a: "unat a mod 4096 = 0" "unat a < 2 ^ 52"
  shows "(a OR 3) AND 0x000ffffffffff000 = a" "bit (a OR 3) 0" "\<not> bit (a OR 3) 7"
proof -
  have m: "(0x000ffffffffff000 :: u64) = push_bit 12 (mask 40)" by (simp add: mask_eq_exp_minus_1)
  have t: "(3 :: u64) = mask 2" by (simp add: mask_eq_exp_minus_1)
  show "(a OR 3) AND 0x000ffffffffff000 = a"
    unfolding m t
  proof (rule bit_word_eqI)
    fix n assume "n < LENGTH(64)"
    moreover have "bit a n \<Longrightarrow> 12 \<le> n \<and> n - 12 < 40" using frame_bits[OF a, of n] by linarith
    ultimately show "bit ((a OR mask 2) AND push_bit 12 (mask 40)) n \<longleftrightarrow> bit a n"
      by (auto simp: bit_and_iff bit_or_iff bit_push_bit_iff bit_mask_iff)
  qed
  show "bit (a OR 3) 0" by (simp add: bit_or_iff)
  show "\<not> bit (a OR 3) 7" unfolding t using frame_bits[OF a, of 7] by (auto simp: bit_or_iff bit_mask_iff)
qed

lemma x86_ok_doc [simp]: "x86_ok x86_doc"
  by (simp add: x86_ok_def x86_doc_def)

lemma frame_new_Inr [res_iff]:
  "frame_new X a = Inr f \<longleftrightarrow> phys_is_aligned X a FRAME_SIZE \<and> f = Frame a"
  by (auto simp: frame_new_def res_iff)

lemma frame_range_new_Inr [res_iff]:
  "frame_range_new X a n = Inr r \<longleftrightarrow>
     phys_is_aligned X a FRAME_SIZE \<and> r = \<lparr>fr_start = a, fr_count = n\<rparr>"
  by (auto simp: frame_range_new_def res_iff)

lemma finite_frames_of [simp]: "finite (frames_of r)"
  by (simp add: frames_of_def)

lemma card_frames_of: "card (frames_of r) = unat (fr_count r)"
  unfolding frames_of_def by (subst card_image) (auto simp: inj_on_def)

lemma frames_of_one: "fr_count r = 1 \<Longrightarrow> frames_of r = {unat (fr_start r)}"
  by (auto simp: frames_of_def)

lemma disjoint_ranges_Nil [simp]: "disjoint_ranges []"
  by (simp add: disjoint_ranges_def)

text \<open>
  Disjointness seen from the front of the list, which is how the client grows it.
\<close>

lemma disjoint_ranges_Cons:
  "disjoint_ranges (r # rs) \<longleftrightarrow>
     disjoint_ranges rs \<and> (\<forall>q \<in> set rs. frames_of r \<inter> frames_of q = {})"
  (is "?L \<longleftrightarrow> ?R")
proof
  assume L: ?L
  have "disjoint_ranges rs"
    unfolding disjoint_ranges_def
  proof (intro allI impI)
    fix i j assume "i < length rs" "j < length rs" "i \<noteq> j"
    then show "frames_of (rs ! i) \<inter> frames_of (rs ! j) = {}"
      using L[unfolded disjoint_ranges_def, rule_format, of "Suc i" "Suc j"] by simp
  qed
  moreover have "\<forall>q \<in> set rs. frames_of r \<inter> frames_of q = {}"
  proof
    fix q assume "q \<in> set rs"
    then obtain j where "j < length rs" "rs ! j = q" by (auto simp: in_set_conv_nth)
    then show "frames_of r \<inter> frames_of q = {}"
      using L[unfolded disjoint_ranges_def, rule_format, of 0 "Suc j"] by simp
  qed
  ultimately show ?R ..
next
  assume R: ?R
  show ?L
    unfolding disjoint_ranges_def
  proof (intro allI impI)
    fix i j assume "i < length (r # rs)" "j < length (r # rs)" "i \<noteq> j"
    then show "frames_of ((r # rs) ! i) \<inter> frames_of ((r # rs) ! j) = {}"
      using R by (cases i; cases j) (auto simp: disjoint_ranges_def Int_commute)
  qed
qed

lemma disjoint_ranges_append:
  "disjoint_ranges (xs @ ys) \<longleftrightarrow>
     disjoint_ranges xs \<and> disjoint_ranges ys \<and>
     (\<forall>x \<in> set xs. \<forall>y \<in> set ys. frames_of x \<inter> frames_of y = {})"
  by (induction xs) (auto simp: disjoint_ranges_Cons)

lemma disjoint_ranges_remove:
  assumes "disjoint_ranges live" "i < length live"
  shows "disjoint_ranges (take i live @ drop (Suc i) live)"
    and "\<forall>q \<in> set (take i live @ drop (Suc i) live). frames_of (live ! i) \<inter> frames_of q = {}"
proof -
  have split: "live = take i live @ live ! i # drop (Suc i) live"
    using assms(2) by (simp add: id_take_nth_drop)
  have d: "disjoint_ranges (take i live @ live ! i # drop (Suc i) live)"
    using assms(1) split by simp
  show "disjoint_ranges (take i live @ drop (Suc i) live)"
    using d by (auto simp: disjoint_ranges_append disjoint_ranges_Cons)
  show "\<forall>q \<in> set (take i live @ drop (Suc i) live). frames_of (live ! i) \<inter> frames_of q = {}"
    using d by (auto simp: disjoint_ranges_append disjoint_ranges_Cons Int_commute)
qed

section \<open>The contract of a frame allocator\<close>

text \<open>
  \<open>free s\<close> is the set of free frames, \<open>holds s r\<close> says that \<open>r\<close> lies in one region of the
  allocator. The laws: allocation returns; what it hands out was free, is aligned and
  nonempty and is exactly what it takes from the free set; a failed allocation changes
  nothing, and a single frame is refused only when none is left; giving a held range back
  returns exactly its frames; the regions never change.
\<close>

locale frame_allocator =
  fixes alloc :: "'s alloc_fn"
    and dealloc :: "'s dealloc_fn"
    and free :: "'s \<Rightarrow> nat set"
    and holds :: "'s \<Rightarrow> frame_range \<Rightarrow> bool"
    and invar :: "'s \<Rightarrow> bool"
  assumes alloc_returns: "invar s \<Longrightarrow> \<exists>r s'. alloc s n = Inr (r, s')"
    and alloc_ok: "invar s \<Longrightarrow> alloc s n = Inr (Inr rg, s') \<Longrightarrow>
      invar s' \<and> fr_count rg = n \<and> n \<noteq> 0 \<and> unat (fr_start rg) mod 4096 = 0 \<and>
      frames_of rg \<subseteq> free s \<and> free s' = free s - frames_of rg \<and> holds s' rg"
    and alloc_err: "invar s \<Longrightarrow> alloc s n = Inr (Inl e, s') \<Longrightarrow> s' = s"
    and alloc_one_err: "invar s \<Longrightarrow> alloc s 1 = Inr (Inl e, s') \<Longrightarrow> free s = {}"
    and dealloc_ok: "invar s \<Longrightarrow> holds s rg \<Longrightarrow>
      \<exists>s'. dealloc s rg = Inr s' \<and> invar s' \<and> free s' = free s \<union> frames_of rg"
    and holds_alloc: "invar s \<Longrightarrow> alloc s n = Inr (r, s') \<Longrightarrow> holds s' = holds s"
    and holds_dealloc: "invar s \<Longrightarrow> dealloc s rg = Inr s' \<Longrightarrow> holds s' = holds s"
begin

lemma alloc_cases:
  assumes "invar s"
  obtains (err) e where "alloc s n = Inr (Inl e, s)"
    | (ok) rg s' where "alloc s n = Inr (Inr rg, s')" "invar s'" "fr_count rg = n" "n \<noteq> 0"
        "unat (fr_start rg) mod 4096 = 0" "frames_of rg \<subseteq> free s"
        "free s' = free s - frames_of rg" "holds s rg" "holds s' = holds s"
proof -
  from alloc_returns[OF assms] obtain r s' where a: "alloc s n = Inr (r, s')" by blast
  show thesis
  proof (cases r)
    case (Inl e)
    with a alloc_err[OF assms] err show thesis by auto
  next
    case (Inr rg)
    with a have a': "alloc s n = Inr (Inr rg, s')" by simp
    show thesis
      using ok[OF a'] alloc_ok[OF assms a'] holds_alloc[OF assms a] by auto
  qed
qed

lemma alloc_one_spec:
  assumes "invar s" "x86_ok X"
  shows "(\<exists>e. alloc_one X alloc s = Inr (Inl e, s) \<and> free s = {}) \<or>
    (\<exists>a s'. alloc_one X alloc s = Inr (Inr (Frame a), s') \<and> invar s' \<and> unat a mod 4096 = 0 \<and>
       unat a \<in> free s \<and> free s' = free s - {unat a} \<and>
       holds s' \<lparr>fr_start = a, fr_count = 1\<rparr> \<and> holds s' = holds s)"
  using assms(1)
proof (cases rule: alloc_cases[where n = 1])
  case (err e)
  then show ?thesis
    using alloc_one_err[OF assms(1)] by (auto simp: alloc_one_def)
next
  case (ok rg s')
  have fn: "frame_new X (fr_start rg) = Inr (Frame (fr_start rg))"
    using ok assms(2) by (simp add: res_iff x86_ok_simps)
  have rg: "rg = \<lparr>fr_start = fr_start rg, fr_count = 1\<rparr>" using ok by simp
  show ?thesis
  proof (rule disjI2, rule exI[of _ "fr_start rg"], rule exI[of _ s'], intro conjI)
    show "alloc_one X alloc s = Inr (Inr (Frame (fr_start rg)), s')"
      using ok fn by (simp add: alloc_one_def start_addr_def)
    show "holds s' \<lparr>fr_start = fr_start rg, fr_count = 1\<rparr>" using ok rg by metis
  qed (use ok frames_of_one[of rg] in auto)
qed

lemma dealloc_one_spec:
  assumes "invar s" "x86_ok X" "unat a mod 4096 = 0" "holds s \<lparr>fr_start = a, fr_count = 1\<rparr>"
  shows "\<exists>s'. dealloc_one X dealloc s (Frame a) = Inr s' \<and> invar s' \<and> free s' = insert (unat a) (free s)"
proof -
  have "frame_range_new X a 1 = Inr \<lparr>fr_start = a, fr_count = 1\<rparr>"
    using assms by (simp add: res_iff x86_ok_simps)
  with dealloc_ok[OF assms(1,4)] show ?thesis
    by (auto simp: dealloc_one_def frames_of_one)
qed

text \<open>
  The ledger of a client that started with the free frames \<open>F\<close>: it holds what it has, its
  ranges are disjoint, none of its frames is free, and together with the free frames they
  are \<open>F\<close> again.
\<close>

definition ledger :: "nat set \<Rightarrow> 's \<Rightarrow> frame_range list \<Rightarrow> bool" where
  "ledger F s live \<longleftrightarrow> invar s \<and> disjoint_ranges live \<and>
     (\<forall>r \<in> set live. holds s r \<and> frames_of r \<inter> free s = {}) \<and>
     free s \<union> \<Union> (frames_of ` set live) = F"

lemma ledger_alloc:
  assumes "ledger F s live" "alloc s n = Inr (Inr rg, s')"
  shows "ledger F s' (rg # live)"
proof -
  have inv: "invar s" using assms(1) by (simp add: ledger_def)
  note ok = alloc_ok[OF inv assms(2)] holds_alloc[OF inv assms(2)]
  have "free s' \<union> \<Union> (frames_of ` set (rg # live)) = F"
    using ok assms(1) by (auto simp: ledger_def)
  then show ?thesis
    using ok assms(1) by (auto simp: ledger_def disjoint_ranges_Cons)
qed

lemma ledger_dealloc:
  assumes "ledger F s live" "i < length live"
  shows "\<exists>s'. dealloc s (live ! i) = Inr s' \<and> ledger F s' (take i live @ drop (Suc i) live)"
proof -
  let ?rest = "take i live @ drop (Suc i) live"
  have inv: "invar s" and h: "holds s (live ! i)" and d: "disjoint_ranges live"
    using assms by (auto simp: ledger_def)
  obtain s' where s': "dealloc s (live ! i) = Inr s'" "invar s'"
      "free s' = free s \<union> frames_of (live ! i)"
    using dealloc_ok[OF inv h] by blast
  have "set (take i live @ live ! i # drop (Suc i) live) = set live"
    using assms(2) by (metis id_take_nth_drop)
  then have live: "set live = insert (live ! i) (set ?rest)" by auto
  have "\<forall>r \<in> set ?rest. holds s' r \<and> frames_of r \<inter> free s' = {}"
  proof
    fix r assume r: "r \<in> set ?rest"
    then have "holds s r" "frames_of r \<inter> free s = {}"
      using assms(1) live unfolding ledger_def by auto
    moreover have "frames_of (live ! i) \<inter> frames_of r = {}"
      using disjoint_ranges_remove(2)[OF d assms(2)] r by blast
    ultimately show "holds s' r \<and> frames_of r \<inter> free s' = {}"
      using s'(3) holds_dealloc[OF inv s'(1)] by auto
  qed
  moreover have "free s' \<union> \<Union> (frames_of ` set ?rest) = F"
    using s'(3) assms(1) unfolding ledger_def live by blast
  ultimately have "ledger F s' ?rest"
    using s'(2) disjoint_ranges_remove(1)[OF d assms(2)] by (simp add: ledger_def)
  with s'(1) show ?thesis by blast
qed

lemma serve_ledger:
  "ledger F s live \<Longrightarrow> \<exists>s' live'. serve alloc dealloc qs s live = Inr (s', live') \<and> ledger F s' live'"
proof (induction alloc \<equiv> alloc dealloc \<equiv> dealloc qs s live rule: serve.induct)
  case (1 s live)
  then show ?case by simp
next
  case (2 n qs s live)
  have "invar s" using "2.prems" by (simp add: ledger_def)
  then show ?case
  proof (cases rule: alloc_cases[where n = n])
    case (err e)
    show ?thesis using "2.hyps"[of s "Inl e"] "2.prems" err by simp
  next
    case (ok rg s')
    show ?thesis
      using "2.hyps"[of s' "Inr rg"] ledger_alloc[OF "2.prems" ok(1)] ok(1) by simp
  qed
next
  case (3 i qs s live)
  show ?case
  proof (cases "i < length live")
    case True
    then obtain s' where s': "dealloc s (live ! i) = Inr s'"
        "ledger F s' (take i live @ drop (Suc i) live)"
      using ledger_dealloc[OF "3.prems"] by blast
    show ?thesis using "3.hyps"(1)[OF True, of s'] s' True by simp
  next
    case False
    with "3.hyps"(2)[OF False] "3.prems" show ?thesis by simp
  qed
qed

end

end
