(* ===== verification/Bitmap.thy ===== *)
theory Bitmap
  imports Frame
begin

text \<open>
  The bitmap of a memory region and the region's own operations
  (src/src/memory/bitmap.rs, \<open>BitmapView\<close> and \<open>MemoryRegion\<close>). A set bit is a used frame.
  The scan for consecutive free frames is compared with a direct first-fit specification.
\<close>

section \<open>BitmapView\<close>

record bitmap_view =
  bv_size :: usize
  bv_data :: "u8 list"

definition bitmap_new :: "usize \<Rightarrow> u8 list \<Rightarrow> bitmap_view" where
  "bitmap_new sz data = \<lparr>bv_size = sz, bv_data = data\<rparr>"

definition bitmap_set :: "bitmap_view \<Rightarrow> usize \<Rightarrow> bitmap_view res" where
  "bitmap_set v index =
     bind_res (slice_get (bv_data v) (index div 8)) (\<lambda>b.
     bind_res (slice_set (bv_data v) (index div 8) (b OR push_bit (unat (index mod 8)) 1)) (\<lambda>d.
     Inr (v\<lparr>bv_data := d\<rparr>)))"

definition bitmap_clear :: "bitmap_view \<Rightarrow> usize \<Rightarrow> bitmap_view res" where
  "bitmap_clear v index =
     bind_res (slice_get (bv_data v) (index div 8)) (\<lambda>b.
     bind_res (slice_set (bv_data v) (index div 8) (b AND NOT (push_bit (unat (index mod 8)) 1))) (\<lambda>d.
     Inr (v\<lparr>bv_data := d\<rparr>)))"

definition bitmap_is_set :: "bitmap_view \<Rightarrow> usize \<Rightarrow> bool res" where
  "bitmap_is_set v index =
     bind_res (slice_get (bv_data v) (index div 8)) (\<lambda>b.
     Inr (b AND push_bit (unat (index mod 8)) 1 \<noteq> 0))"

section \<open>MemoryRegion\<close>

record memory_region =
  mr_start :: u64
  mr_end :: u64
  mr_bitmap :: bitmap_view

definition region_new :: "x86_crate \<Rightarrow> u64 \<Rightarrow> u64 \<Rightarrow> u8 list \<Rightarrow> memory_region res" where
  "region_new X start len data =
     (let count = len div FRAME_SIZE in
      bind_res (expect_some AddrInvalid (phys_new X start)) (\<lambda>s.
      bind_res (expect_some AddrInvalid (phys_new X (start + len))) (\<lambda>e.
      Inr \<lparr>mr_start = s, mr_end = e, mr_bitmap = bitmap_new count data\<rparr>)))"

text \<open>
  The loop of \<open>MemoryRegion::alloc\<close>: the indices still to visit, \<open>consecutive_free\<close> and
  \<open>start_index\<close>. It stops at the first run of \<open>count\<close> free bits.
\<close>

fun region_scan ::
  "bitmap_view \<Rightarrow> usize \<Rightarrow> usize list \<Rightarrow> usize \<Rightarrow> usize \<Rightarrow> usize option res" where
  "region_scan v count [] consecutive_free start_index = Inr None"
| "region_scan v count (i # is) consecutive_free start_index =
     bind_res (bitmap_is_set v i) (\<lambda>used.
       if \<not> used then
         (let start_index' = (if consecutive_free = 0 then i else start_index);
              consecutive_free' = consecutive_free + 1
          in if consecutive_free' = count then Inr (Some start_index')
             else region_scan v count is consecutive_free' start_index')
       else region_scan v count is 0 start_index)"

definition set_range :: "usize \<Rightarrow> usize \<Rightarrow> bitmap_view \<Rightarrow> bitmap_view res" where
  "set_range start_index count = for_res (\<lambda>j v. bitmap_set v j) (range_usize start_index (start_index + count))"

definition clear_range :: "usize \<Rightarrow> usize \<Rightarrow> bitmap_view \<Rightarrow> bitmap_view res" where
  "clear_range start_index count = for_res (\<lambda>j v. bitmap_clear v j) (range_usize start_index (start_index + count))"

definition region_alloc ::
  "x86_crate \<Rightarrow> memory_region \<Rightarrow> usize \<Rightarrow> (frame_range option \<times> memory_region) res" where
  "region_alloc X r count =
     bind_res (region_scan (mr_bitmap r) count (range_usize 0 (bv_size (mr_bitmap r))) 0 0) (\<lambda>found.
       case found of
         None \<Rightarrow> Inr (None, r)
       | Some start_index \<Rightarrow>
           bind_res (set_range start_index count (mr_bitmap r)) (\<lambda>v.
           bind_res (expect_some AddrInvalid (phys_add X (mr_start r) (start_index * FRAME_SIZE))) (\<lambda>addr.
           bind_res (frame_range_new X addr count) (\<lambda>fr.
           Inr (Some fr, r\<lparr>mr_bitmap := v\<rparr>)))))"

definition region_dealloc :: "memory_region \<Rightarrow> frame_range \<Rightarrow> memory_region res" where
  "region_dealloc r frames =
     (let offset = fr_start frames - mr_start r;
          start_index = offset div FRAME_SIZE
      in bind_res (clear_range start_index (fr_count frames) (mr_bitmap r)) (\<lambda>v.
         Inr (r\<lparr>mr_bitmap := v\<rparr>)))"

definition region_reserve :: "memory_region \<Rightarrow> frame_range \<Rightarrow> memory_region res" where
  "region_reserve r frames =
     (let offset = fr_start frames - mr_start r;
          start_index = offset div FRAME_SIZE
      in bind_res (set_range start_index (fr_count frames) (mr_bitmap r)) (\<lambda>v.
         Inr (r\<lparr>mr_bitmap := v\<rparr>)))"

definition region_contains :: "memory_region \<Rightarrow> u64 \<Rightarrow> bool" where
  "region_contains r addr \<longleftrightarrow> addr \<ge> mr_start r \<and> addr < mr_end r"

definition region_total_frames :: "memory_region \<Rightarrow> usize" where
  "region_total_frames r = bv_size (mr_bitmap r)"

definition region_free_frames :: "memory_region \<Rightarrow> usize res" where
  "region_free_frames r =
     for_res (\<lambda>i n. bind_res (bitmap_is_set (mr_bitmap r) i) (\<lambda>used. Inr (if \<not> used then n + 1 else n)))
       (range_usize 0 (bv_size (mr_bitmap r))) 0"

section \<open>Abstraction and specification\<close>

text \<open>Bit \<open>i\<close> of the bitmap; the frames a region manages, and the free ones, as addresses.\<close>

definition used :: "bitmap_view \<Rightarrow> nat \<Rightarrow> bool" where
  "used v i \<longleftrightarrow> bit (bv_data v ! (i div 8)) (i mod 8)"

definition bitmap_ok :: "bitmap_view \<Rightarrow> bool" where
  "bitmap_ok v \<longleftrightarrow> unat (bv_size v) \<le> 8 * length (bv_data v)"

definition region_ok :: "memory_region \<Rightarrow> bool" where
  "region_ok r \<longleftrightarrow> bitmap_ok (mr_bitmap r) \<and> unat (mr_start r) mod 4096 = 0 \<and>
     unat (mr_start r) + 4096 * unat (bv_size (mr_bitmap r)) \<le> unat (mr_end r) \<and>
     unat (mr_end r) < 2 ^ 52"

definition region_size :: "memory_region \<Rightarrow> nat" where
  "region_size r = unat (bv_size (mr_bitmap r))"

definition frame_at :: "memory_region \<Rightarrow> nat \<Rightarrow> nat" where
  "frame_at r i = unat (mr_start r) + 4096 * i"

definition region_frames :: "memory_region \<Rightarrow> nat set" where
  "region_frames r = frame_at r ` {..<region_size r}"

definition region_free :: "memory_region \<Rightarrow> nat set" where
  "region_free r = frame_at r ` {i. i < region_size r \<and> \<not> used (mr_bitmap r) i}"

text \<open>
  What no operation on a region changes, and the ranges that lie inside the region.
\<close>

definition region_shape :: "memory_region \<Rightarrow> u64 \<times> u64 \<times> usize \<times> nat" where
  "region_shape r =
     (mr_start r, mr_end r, bv_size (mr_bitmap r), length (bv_data (mr_bitmap r)))"

definition region_holds :: "memory_region \<Rightarrow> frame_range \<Rightarrow> bool" where
  "region_holds r fr \<longleftrightarrow>
     (\<exists>k < region_size r. unat (fr_start fr) = frame_at r k \<and> k + unat (fr_count fr) \<le> region_size r)"

text \<open>The first index at which \<open>count\<close> consecutive free bits start.\<close>

definition free_run :: "(nat \<Rightarrow> bool) \<Rightarrow> nat \<Rightarrow> nat \<Rightarrow> nat \<Rightarrow> bool" where
  "free_run u n count k \<longleftrightarrow> k + count \<le> n \<and> (\<forall>j \<in> {k ..< k + count}. \<not> u j)"

definition first_fit :: "(nat \<Rightarrow> bool) \<Rightarrow> nat \<Rightarrow> nat \<Rightarrow> nat option" where
  "first_fit u n count =
     (if count = 0 then None else find (free_run u n count) [0 ..< n])"

section \<open>Bits\<close>

lemma word8_one_bit: "n < 8 \<Longrightarrow> bit (2 ^ n :: u8) m \<longleftrightarrow> m = n"
  by (auto simp: bit_exp_iff possible_bit_def)

lemma bit_set_byte: "n < 8 \<Longrightarrow> bit (b OR 2 ^ n :: u8) m \<longleftrightarrow> bit b m \<or> m = n"
  by (auto simp: bit_or_iff word8_one_bit)

lemma bit_clear_byte: "n < 8 \<Longrightarrow> bit (b AND NOT (2 ^ n) :: u8) m \<longleftrightarrow> bit b m \<and> m \<noteq> n"
  by (auto simp: bit_and_iff bit_not_iff word8_one_bit possible_bit_def dest: bit_imp_le_length)

lemma test_bit_byte: "n < 8 \<Longrightarrow> (b AND 2 ^ n :: u8) = 0 \<longleftrightarrow> \<not> bit b n"
  by (subst bit_eq_iff) (auto simp: bit_and_iff word8_one_bit dest: bit_imp_le_length)

lemma unat_index_parts:
  "unat (i div 8 :: usize) = unat i div 8" "unat (i mod 8 :: usize) = unat i mod 8"
  by (simp_all add: unat_div unat_mod)

lemmas bitmap_op_defs = bitmap_set_def bitmap_clear_def bitmap_is_set_def

lemma div_mod_8: "i div 8 = j div 8 \<and> i mod 8 = j mod 8 \<longleftrightarrow> i = (j :: nat)"
  by (metis div_mult_mod_eq)

lemma used_update:
  assumes "i div 8 < length (bv_data v)"
  shows "used (v\<lparr>bv_data := (bv_data v)[i div 8 := b]\<rparr>) j \<longleftrightarrow>
    (if j div 8 = i div 8 then bit b (j mod 8) else used v j)"
  using assms by (simp add: used_def nth_list_update)

lemma bitmap_is_set_ok:
  assumes "unat i < 8 * length (bv_data v)"
  shows "bitmap_is_set v i = Inr (used v (unat i))"
  using assms by (simp add: bitmap_is_set_def unat_index_parts test_bit_byte used_def div_less_iff_less_mult)

lemma bitmap_set_ok:
  assumes "unat i < 8 * length (bv_data v)"
  obtains v' where "bitmap_set v i = Inr v'" "bv_size v' = bv_size v"
    "length (bv_data v') = length (bv_data v)" "\<And>j. used v' j \<longleftrightarrow> used v j \<or> j = unat i"
proof -
  let ?v' = "v\<lparr>bv_data := (bv_data v)[unat i div 8 :=
    bv_data v ! (unat i div 8) OR push_bit (unat i mod 8) 1]\<rparr>"
  have i: "unat i div 8 < length (bv_data v)" using assms by (simp add: div_less_iff_less_mult)
  have "used ?v' j \<longleftrightarrow> used v j \<or> j = unat i" for j
    using i div_mod_8[of j "unat i"] by (subst used_update) (auto simp: bit_set_byte used_def)
  then show thesis
    using that[of ?v'] i by (simp add: bitmap_set_def unat_index_parts)
qed

lemma bitmap_clear_ok:
  assumes "unat i < 8 * length (bv_data v)"
  obtains v' where "bitmap_clear v i = Inr v'" "bv_size v' = bv_size v"
    "length (bv_data v') = length (bv_data v)" "\<And>j. used v' j \<longleftrightarrow> used v j \<and> j \<noteq> unat i"
proof -
  let ?v' = "v\<lparr>bv_data := (bv_data v)[unat i div 8 :=
    bv_data v ! (unat i div 8) AND NOT (push_bit (unat i mod 8) 1)]\<rparr>"
  have i: "unat i div 8 < length (bv_data v)" using assms by (simp add: div_less_iff_less_mult)
  have "used ?v' j \<longleftrightarrow> used v j \<and> j \<noteq> unat i" for j
    using i div_mod_8[of j "unat i"] by (subst used_update) (auto simp: bit_clear_byte used_def)
  then show thesis
    using that[of ?v'] i by (simp add: bitmap_clear_def unat_index_parts)
qed

text \<open>A bitmap is determined by its size and its bits.\<close>

lemma bitmap_eqI:
  assumes "bv_size v = bv_size w" "length (bv_data v) = length (bv_data w)"
    and "\<And>i. i < 8 * length (bv_data v) \<Longrightarrow> used v i \<longleftrightarrow> used w i"
  shows "v = (w :: bitmap_view)"
proof -
  have "bv_data v = bv_data w"
  proof (rule nth_equalityI)
    fix k assume k: "k < length (bv_data v)"
    show "bv_data v ! k = bv_data w ! k"
    proof (rule bit_word_eqI)
      fix n assume "n < LENGTH(8)"
      then show "bit (bv_data v ! k) n \<longleftrightarrow> bit (bv_data w ! k) n"
        using assms(3)[of "8 * k + n"] k by (simp add: used_def)
    qed
  qed fact
  with assms(1) show ?thesis by simp
qed

section \<open>Setting and clearing ranges\<close>

lemma set_range_ok:
  assumes "unat k + unat n \<le> 8 * length (bv_data v)" "unat k + unat n < 18446744073709551616"
  obtains v' where "set_range k n v = Inr v'" "bv_size v' = bv_size v"
    "length (bv_data v') = length (bv_data v)"
    "\<And>j. used v' j \<longleftrightarrow> used v j \<or> j \<in> {unat k ..< unat k + unat n}"
proof -
  let ?P = "\<lambda>m w. bv_size w = bv_size v \<and> length (bv_data w) = length (bv_data v) \<and>
    (\<forall>j. used w j \<longleftrightarrow> used v j \<or> j \<in> {unat k ..< unat k + m})"
  have kn: "unat (k + n) = unat k + unat n" using assms(2) by (simp add: word_nat)
  have "\<exists>w. for_res (\<lambda>j v. bitmap_set v j) (range_usize k (k + n)) v = Inr w \<and>
      ?P (length (range_usize k (k + n))) w"
  proof (rule for_res_inv[where P = ?P])
    fix m w assume m: "m < length (range_usize k (k + n))" and P: "?P m w"
    have i: "unat (range_usize k (k + n) ! m) = unat k + m" using m by simp
    then have "unat (range_usize k (k + n) ! m) < 8 * length (bv_data w)"
      using m P assms(1) kn by simp
    from bitmap_set_ok[OF this] obtain w' where
      w': "bitmap_set w (range_usize k (k + n) ! m) = Inr w'" "bv_size w' = bv_size w"
      "length (bv_data w') = length (bv_data w)" "\<And>j. used w' j \<longleftrightarrow> used w j \<or> j = unat k + m"
      using i by metis
    have "used w' j \<longleftrightarrow> used v j \<or> j \<in> {unat k ..< unat k + Suc m}" for j
    proof -
      have "used w j \<longleftrightarrow> used v j \<or> j \<in> {unat k ..< unat k + m}" using P by blast
      with w'(4)[of j] show ?thesis by (auto simp: less_Suc_eq)
    qed
    then have "?P (Suc m) w'" using P w'(2,3) by simp
    with w'(1) show "\<exists>w'. bitmap_set w (range_usize k (k + n) ! m) = Inr w' \<and> ?P (Suc m) w'"
      by blast
  qed simp
  then show thesis using that kn by (auto simp: set_range_def)
qed

lemma clear_range_ok:
  assumes "unat k + unat n \<le> 8 * length (bv_data v)" "unat k + unat n < 18446744073709551616"
  obtains v' where "clear_range k n v = Inr v'" "bv_size v' = bv_size v"
    "length (bv_data v') = length (bv_data v)"
    "\<And>j. used v' j \<longleftrightarrow> used v j \<and> j \<notin> {unat k ..< unat k + unat n}"
proof -
  let ?P = "\<lambda>m w. bv_size w = bv_size v \<and> length (bv_data w) = length (bv_data v) \<and>
    (\<forall>j. used w j \<longleftrightarrow> used v j \<and> j \<notin> {unat k ..< unat k + m})"
  have kn: "unat (k + n) = unat k + unat n" using assms(2) by (simp add: word_nat)
  have "\<exists>w. for_res (\<lambda>j v. bitmap_clear v j) (range_usize k (k + n)) v = Inr w \<and>
      ?P (length (range_usize k (k + n))) w"
  proof (rule for_res_inv[where P = ?P])
    fix m w assume m: "m < length (range_usize k (k + n))" and P: "?P m w"
    have i: "unat (range_usize k (k + n) ! m) = unat k + m" using m by simp
    then have "unat (range_usize k (k + n) ! m) < 8 * length (bv_data w)"
      using m P assms(1) kn by simp
    from bitmap_clear_ok[OF this] obtain w' where
      w': "bitmap_clear w (range_usize k (k + n) ! m) = Inr w'" "bv_size w' = bv_size w"
      "length (bv_data w') = length (bv_data w)" "\<And>j. used w' j \<longleftrightarrow> used w j \<and> j \<noteq> unat k + m"
      using i by metis
    have "used w' j \<longleftrightarrow> used v j \<and> j \<notin> {unat k ..< unat k + Suc m}" for j
    proof -
      have "used w j \<longleftrightarrow> used v j \<and> j \<notin> {unat k ..< unat k + m}" using P by blast
      with w'(4)[of j] show ?thesis by (auto simp: less_Suc_eq)
    qed
    then have "?P (Suc m) w'" using P w'(2,3) by simp
    with w'(1) show "\<exists>w'. bitmap_clear w (range_usize k (k + n) ! m) = Inr w' \<and> ?P (Suc m) w'"
      by blast
  qed simp
  then show thesis using that kn by (auto simp: clear_range_def)
qed

section \<open>The scan is first fit\<close>

lemma find_upt_skip:
  assumes "a \<le> b" "b \<le> n" "\<And>s. a \<le> s \<Longrightarrow> s < b \<Longrightarrow> \<not> P s"
  shows "find P [a ..< n] = find P [b ..< n]"
proof -
  have "[a ..< n] = [a ..< b] @ [b ..< n]"
    using assms(1,2) upt_add_eq_append[of a b "n - b"] by simp
  moreover have "find P [a ..< b] = None" using assms(3) by (auto simp: find_None_iff)
  moreover have "find P (xs @ ys) = (case find P xs of None \<Rightarrow> find P ys | Some x \<Rightarrow> Some x)" for xs ys
    by (induction xs) auto
  ultimately show ?thesis by simp
qed

lemma region_scan_find:
  assumes "0 < unat count" "k \<le> n" "n \<le> 8 * length (bv_data v)" "n < 18446744073709551616"
    and "unat cf < unat count" "unat cf \<le> k" "\<forall>j \<in> {k - unat cf ..< k}. \<not> used v j"
    and "cf \<noteq> 0 \<Longrightarrow> unat si = k - unat cf"
  shows "region_scan v count (map word_of_nat [k ..< n]) cf si =
    Inr (map_option word_of_nat (find (free_run (used v) n (unat count)) [k - unat cf ..< n]))"
  using assms(2,5-)
proof (induction "n - k" arbitrary: k cf si)
  case 0
  then have "k = n" by simp
  moreover have "find (free_run (used v) n (unat count)) [n - unat cf ..< n] = None"
    using 0 by (auto simp: find_None_iff free_run_def)
  ultimately show ?case by simp
next
  case (Suc d)
  then have k: "k < n" by simp
  then have up: "[k ..< n] = k # [Suc k ..< n]" by (rule upt_conv_Cons)
  have uk: "unat (word_of_nat k :: usize) = k" using k assms(4) by (simp add: word_nat)
  have is_set: "bitmap_is_set v (word_of_nat k) = Inr (used v k)"
    using bitmap_is_set_ok[of "word_of_nat k" v] uk k assms(3) by simp
  show ?case
  proof (cases "used v k")
    case True
    have "find (free_run (used v) n (unat count)) [k - unat cf ..< n] =
        find (free_run (used v) n (unat count)) [Suc k ..< n]"
    proof (rule find_upt_skip)
      fix s assume "k - unat cf \<le> s" "s < Suc k"
      then have "k \<in> {s ..< s + unat count}" using Suc.prems by auto
      with True show "\<not> free_run (used v) n (unat count) s" by (auto simp: free_run_def)
    qed (use k in auto)
    moreover have "region_scan v count (map word_of_nat [Suc k ..< n]) 0 si =
        Inr (map_option word_of_nat (find (free_run (used v) n (unat count)) [Suc k ..< n]))"
      using Suc.hyps(1)[of "Suc k" 0 si] Suc.hyps(2) k assms(1) by simp
    ultimately show ?thesis using True is_set by (simp add: up)
  next
    case False
    define si' where "si' = (if cf = 0 then word_of_nat k else si)"
    have si': "unat si' = k - unat cf" using Suc.prems(5) uk by (simp add: si'_def)
    have cf': "unat (cf + 1) = unat cf + 1"
      using Suc.prems(2) u64_bound[of count] by (simp add: word_nat)
    have free': "\<forall>j \<in> {k - unat cf ..< Suc k}. \<not> used v j"
      using Suc.prems(4) False by (auto simp: less_Suc_eq)
    show ?thesis
    proof (cases "cf + 1 = count")
      case True
      then have "unat count = unat cf + 1" using cf' by simp
      then have run: "free_run (used v) n (unat count) (k - unat cf)"
        using free' k Suc.prems(3) by (auto simp: free_run_def)
      have "[k - unat cf ..< n] = (k - unat cf) # [Suc (k - unat cf) ..< n]"
        using k by (intro upt_conv_Cons) simp
      then have "find (free_run (used v) n (unat count)) [k - unat cf ..< n] = Some (k - unat cf)"
        using run by simp
      moreover have "word_of_nat (k - unat cf) = si'" by (simp flip: si')
      ultimately show ?thesis using True False is_set by (simp add: up si'_def Let_def)
    next
      case ne: False
      then have "unat (cf + 1) \<noteq> unat count" using unat_eqI by blast
      then have lt: "unat (cf + 1) < unat count" using cf' Suc.prems(2) by simp
      have "region_scan v count (map word_of_nat [Suc k ..< n]) (cf + 1) si' =
          Inr (map_option word_of_nat
            (find (free_run (used v) n (unat count)) [Suc k - unat (cf + 1) ..< n]))"
        using Suc.hyps(2) k lt cf' free' Suc.prems(3) si' by (intro Suc.hyps(1)) auto
      then show ?thesis using ne False is_set cf' by (simp add: up si'_def Let_def)
    qed
  qed
qed

lemma region_scan_zero:
  assumes "k \<le> n" "n \<le> 8 * length (bv_data v)" "n < 18446744073709551616" "unat cf \<le> k"
  shows "region_scan v 0 (map word_of_nat [k ..< n]) cf si = Inr None"
  using assms(1,4)
proof (induction "n - k" arbitrary: k cf si)
  case 0
  then show ?case by simp
next
  case (Suc d)
  then have k: "k < n" by simp
  then have up: "[k ..< n] = k # [Suc k ..< n]" by (rule upt_conv_Cons)
  have uk: "unat (word_of_nat k :: usize) = k" using k assms(3) by (simp add: word_nat)
  have is_set: "bitmap_is_set v (word_of_nat k) = Inr (used v k)"
    using bitmap_is_set_ok[of "word_of_nat k" v] uk k assms(2) by simp
  have cf': "unat (cf + 1) = unat cf + 1"
    using Suc.prems(2) k assms(3) by (simp add: word_nat)
  then have "cf + 1 \<noteq> 0" by (metis Suc_eq_plus1 nat.distinct(1) unat_0)
  then show ?case
    using is_set Suc.hyps(1)[of "Suc k"] Suc.hyps(2) k cf' Suc.prems(2) by (simp add: up Let_def)
qed

lemma region_scan_first_fit:
  assumes "bitmap_ok v"
  shows "region_scan v count (range_usize 0 (bv_size v)) 0 0 =
    Inr (map_option word_of_nat (first_fit (used v) (unat (bv_size v)) (unat count)))"
proof (cases "unat count = 0")
  case True
  then have "count = 0" by (simp add: unat_eq_zero)
  then show ?thesis
    using region_scan_zero[of 0 "unat (bv_size v)" v 0 0] assms u64_bound[of "bv_size v"]
    by (simp add: range_usize_def first_fit_def bitmap_ok_def)
next
  case False
  then show ?thesis
    using region_scan_find[of count 0 "unat (bv_size v)" v 0 0] assms u64_bound[of "bv_size v"]
    by (simp add: range_usize_def first_fit_def bitmap_ok_def)
qed

lemma first_fit_SomeD:
  assumes "first_fit u n c = Some k"
  shows "free_run u n c k" "0 < c" "\<And>j. j < k \<Longrightarrow> \<not> free_run u n c j"
proof -
  have f: "find (free_run u n c) [0 ..< n] = Some k" and c: "0 < c"
    using assms by (auto simp: first_fit_def split: if_splits)
  obtain i where i: "i < n" "free_run u n c ([0 ..< n] ! i)" "k = [0 ..< n] ! i"
      "\<forall>j < i. \<not> free_run u n c ([0 ..< n] ! j)"
    using f by (auto simp: find_Some_iff)
  then have "k = i" by simp
  with i c show "free_run u n c k" "0 < c" "\<And>j. j < k \<Longrightarrow> \<not> free_run u n c j" by auto
qed

lemma first_fit_None_iff:
  "first_fit u n c = None \<longleftrightarrow> c = 0 \<or> (\<forall>k. \<not> free_run u n c k)"
  by (auto simp: first_fit_def find_None_iff free_run_def)

section \<open>Region operations\<close>

lemma inj_frame_at [simp]: "inj (frame_at r)"
  by (auto simp: inj_def frame_at_def)

lemma frame_at_eq_iff [simp]: "frame_at r i = frame_at r j \<longleftrightarrow> i = j"
  by (simp add: frame_at_def)

lemma region_shape_eqD:
  assumes "region_shape r' = region_shape r"
  shows "mr_start r' = mr_start r" "mr_end r' = mr_end r" "region_size r' = region_size r"
    "length (bv_data (mr_bitmap r')) = length (bv_data (mr_bitmap r))"
    "frame_at r' = frame_at r" "region_ok r' \<longleftrightarrow> region_ok r" "region_holds r' = region_holds r"
    "region_frames r' = region_frames r"
  using assms
  by (auto simp: region_shape_def region_size_def frame_at_def fun_eq_iff region_ok_def
      bitmap_ok_def region_holds_def region_frames_def)

lemma region_ok_bounds:
  assumes "region_ok r"
  shows "region_size r \<le> 8 * length (bv_data (mr_bitmap r))"
    and "unat (mr_start r) + 4096 * region_size r \<le> unat (mr_end r)"
    and "unat (mr_end r) < 2 ^ 52" and "unat (mr_start r) mod 4096 = 0"
    and "region_size r < 2 ^ 40"
  using assms by (auto simp: region_ok_def bitmap_ok_def region_size_def)

lemma frames_of_run:
  "unat (fr_start fr) = frame_at r k \<Longrightarrow>
     frames_of fr = frame_at r ` {k ..< k + unat (fr_count fr)}"
proof -
  assume a: "unat (fr_start fr) = frame_at r k"
  have "frames_of fr = (\<lambda>i. frame_at r (k + i)) ` {..<unat (fr_count fr)}"
    using a by (simp add: frames_of_def frame_at_def algebra_simps)
  also have "\<dots> = frame_at r ` ((+) k ` {0 ..< unat (fr_count fr)})"
    unfolding image_image lessThan_atLeast0 ..
  also have "(+) k ` {0 ..< unat (fr_count fr)} = {k ..< k + unat (fr_count fr)}"
    by (simp add: add.commute)
  finally show ?thesis .
qed

lemma region_free_update:
  assumes "region_shape r' = region_shape r" "\<And>j. used (mr_bitmap r') j \<longleftrightarrow> used (mr_bitmap r) j \<or> j \<in> S"
  shows "region_free r' = region_free r - frame_at r ` S"
  using assms(2) region_shape_eqD[OF assms(1)] by (auto simp: region_free_def)

lemma region_free_release:
  assumes "region_shape r' = region_shape r" "S \<subseteq> {..<region_size r}"
    and "\<And>j. used (mr_bitmap r') j \<longleftrightarrow> used (mr_bitmap r) j \<and> j \<notin> S"
  shows "region_free r' = region_free r \<union> frame_at r ` S"
  using assms(2,3) region_shape_eqD[OF assms(1)] by (auto simp: region_free_def)

lemma region_alloc_None:
  assumes "region_ok r" "first_fit (used (mr_bitmap r)) (region_size r) (unat count) = None"
  shows "region_alloc X r count = Inr (None, r)"
  using assms region_scan_first_fit[of "mr_bitmap r" count]
  by (simp add: region_alloc_def region_ok_def region_size_def)

lemma region_alloc_Some:
  assumes ok: "region_ok r" and X: "x86_ok X"
    and ff: "first_fit (used (mr_bitmap r)) (region_size r) (unat count) = Some k"
  obtains fr r' where "region_alloc X r count = Inr (Some fr, r')" "fr_count fr = count"
    "unat (fr_start fr) = frame_at r k" "region_shape r' = region_shape r"
    "\<And>j. used (mr_bitmap r') j \<longleftrightarrow> used (mr_bitmap r) j \<or> j \<in> {k ..< k + unat count}"
proof -
  note b = region_ok_bounds[OF ok]
  have run: "k + unat count \<le> region_size r" and c: "0 < unat count"
    using first_fit_SomeD[OF ff] by (auto simp: free_run_def)
  have k: "unat (word_of_nat k :: usize) = k" using run b by (simp add: word_nat)
  have scan: "region_scan (mr_bitmap r) count (range_usize 0 (bv_size (mr_bitmap r))) 0 0 =
      Inr (Some (word_of_nat k))"
    using region_scan_first_fit[of "mr_bitmap r" count] ok ff
    by (simp add: region_ok_def region_size_def)
  obtain v where v: "set_range (word_of_nat k) count (mr_bitmap r) = Inr v"
      "bv_size v = bv_size (mr_bitmap r)" "length (bv_data v) = length (bv_data (mr_bitmap r))"
      "\<And>j. used v j \<longleftrightarrow> used (mr_bitmap r) j \<or> j \<in> {k ..< k + unat count}"
    using set_range_ok[of "word_of_nat k" count "mr_bitmap r"] k run b by auto
  let ?off = "word_of_nat k * FRAME_SIZE :: u64"
  have off: "unat ?off = 4096 * k" using k run b by (simp add: word_nat FRAME_SIZE_def)
  have sum: "unat (mr_start r) + 4096 * k < 2 ^ 52" using run c b by simp
  have addr: "phys_add X (mr_start r) ?off = Some (mr_start r + ?off)"
    using X off sum by (simp add: x86_ok_simps)
  have ua: "unat (mr_start r + ?off) = frame_at r k"
    using off sum by (simp add: word_nat frame_at_def)
  have "frame_range_new X (mr_start r + ?off) count =
      Inr \<lparr>fr_start = mr_start r + ?off, fr_count = count\<rparr>"
    using X ua b(4) by (simp add: res_iff x86_ok_simps frame_at_def)
  then have "region_alloc X r count =
      Inr (Some \<lparr>fr_start = mr_start r + ?off, fr_count = count\<rparr>, r\<lparr>mr_bitmap := v\<rparr>)"
    using scan v(1) addr by (simp add: region_alloc_def)
  then show thesis
    by (rule that) (use ua v in \<open>auto simp: region_shape_def\<close>)
qed

text \<open>Both operations that take a range find its index back from the addresses.\<close>

lemma range_index:
  assumes "region_ok r" "unat (fr_start fr) = frame_at r k" "k < region_size r"
  shows "unat ((fr_start fr - mr_start r) div FRAME_SIZE) = k"
  using assms by (simp add: frame_at_def unat_div word_nat FRAME_SIZE_def)

lemma region_dealloc_ok:
  assumes "region_ok r" "unat (fr_start fr) = frame_at r k" "k < region_size r"
    and "k + unat (fr_count fr) \<le> region_size r"
  obtains r' where "region_dealloc r fr = Inr r'" "region_shape r' = region_shape r"
    "\<And>j. used (mr_bitmap r') j \<longleftrightarrow> used (mr_bitmap r) j \<and> j \<notin> {k ..< k + unat (fr_count fr)}"
proof -
  let ?k = "(fr_start fr - mr_start r) div FRAME_SIZE"
  note b = region_ok_bounds[OF assms(1)]
  have k: "unat ?k = k" using assms(1-3) by (rule range_index)
  obtain v where v: "clear_range ?k (fr_count fr) (mr_bitmap r) = Inr v"
      "bv_size v = bv_size (mr_bitmap r)" "length (bv_data v) = length (bv_data (mr_bitmap r))"
      "\<And>j. used v j \<longleftrightarrow> used (mr_bitmap r) j \<and> j \<notin> {k ..< k + unat (fr_count fr)}"
    using clear_range_ok[of ?k "fr_count fr" "mr_bitmap r"] k assms(4) b by auto
  show thesis
    by (rule that[of "r\<lparr>mr_bitmap := v\<rparr>"]) (use v in \<open>auto simp: region_dealloc_def region_shape_def\<close>)
qed

lemma region_reserve_ok:
  assumes "region_ok r" "unat (fr_start fr) = frame_at r k" "k < region_size r"
    and "k + unat (fr_count fr) \<le> region_size r"
  obtains r' where "region_reserve r fr = Inr r'" "region_shape r' = region_shape r"
    "\<And>j. used (mr_bitmap r') j \<longleftrightarrow> used (mr_bitmap r) j \<or> j \<in> {k ..< k + unat (fr_count fr)}"
proof -
  let ?k = "(fr_start fr - mr_start r) div FRAME_SIZE"
  note b = region_ok_bounds[OF assms(1)]
  have k: "unat ?k = k" using assms(1-3) by (rule range_index)
  obtain v where v: "set_range ?k (fr_count fr) (mr_bitmap r) = Inr v"
      "bv_size v = bv_size (mr_bitmap r)" "length (bv_data v) = length (bv_data (mr_bitmap r))"
      "\<And>j. used v j \<longleftrightarrow> used (mr_bitmap r) j \<or> j \<in> {k ..< k + unat (fr_count fr)}"
    using set_range_ok[of ?k "fr_count fr" "mr_bitmap r"] k assms(4) b by auto
  show thesis
    by (rule that[of "r\<lparr>mr_bitmap := v\<rparr>"]) (use v in \<open>auto simp: region_reserve_def region_shape_def\<close>)
qed

lemma region_contains_iff:
  "region_contains r a \<longleftrightarrow> unat (mr_start r) \<le> unat a \<and> unat a < unat (mr_end r)"
  by (simp add: region_contains_def word_le_nat_alt word_less_nat_alt)

lemma region_holds_contains:
  assumes "region_ok r" "region_holds r fr"
  shows "region_contains r (fr_start fr)"
  using assms region_ok_bounds[OF assms(1)]
  by (auto simp: region_holds_def region_contains_iff frame_at_def)

lemma region_free_bounds:
  assumes "region_ok r" "a \<in> region_frames r"
  shows "unat (mr_start r) \<le> a" "a < unat (mr_end r)"
  using assms region_ok_bounds[OF assms(1)] by (auto simp: region_frames_def frame_at_def)

lemma region_free_subset: "region_free r \<subseteq> region_frames r"
  by (auto simp: region_free_def region_frames_def)

lemma finite_region_free [simp]: "finite (region_free r)"
  by (rule finite_subset[OF region_free_subset]) (simp add: region_frames_def)

lemma region_free_frames_ok:
  assumes "region_ok r"
  shows "\<exists>n. region_free_frames r = Inr n \<and> unat n = card (region_free r)"
proof -
  let ?v = "mr_bitmap r" and ?is = "range_usize 0 (bv_size (mr_bitmap r))"
  let ?P = "\<lambda>k (n :: usize). unat n = card {i. i < k \<and> \<not> used ?v i}"
  have len: "length ?is = region_size r" by (simp add: region_size_def)
  note b = region_ok_bounds[OF assms]
  have "\<exists>n. region_free_frames r = Inr n \<and> ?P (length ?is) n"
    unfolding region_free_frames_def
  proof (rule for_res_inv[where P = ?P])
    show "?P 0 0" by simp
  next
    fix k :: nat and n :: usize
    assume k: "k < length ?is" and P: "?P k n"
    have uk: "unat (?is ! k) = k" using k by simp
    have is_set: "bitmap_is_set ?v (?is ! k) = Inr (used ?v k)"
      using bitmap_is_set_ok[of "?is ! k" ?v] uk k len b(1) by simp
    have "card {i. i < k \<and> \<not> used ?v i} \<le> k"
      using card_mono[of "{..<k}" "{i. i < k \<and> \<not> used ?v i}"] by auto
    then have n1: "unat (n + 1) = unat n + 1" using P k len b(5) by (simp add: word_nat)
    have "{i. i < Suc k \<and> \<not> used ?v i} =
        (if used ?v k then {i. i < k \<and> \<not> used ?v i} else insert k {i. i < k \<and> \<not> used ?v i})"
      by (auto simp: less_Suc_eq)
    then show "\<exists>n'. bind_res (bitmap_is_set ?v (?is ! k)) (\<lambda>used. Inr (if \<not> used then n + 1 else n)) = Inr n' \<and>
        ?P (Suc k) n'"
      using is_set P n1 by simp
  qed
  moreover have "card (region_free r) = card {i. i < region_size r \<and> \<not> used ?v i}"
    unfolding region_free_def by (intro card_image inj_on_subset[OF inj_frame_at]) auto
  ultimately show ?thesis using len by simp
qed

end
