(* ===== verification/Allocator.thy ===== *)
theory Allocator
  imports Bitmap
begin

text \<open>
  The bitmap frame allocator (src/src/memory/bitmap.rs, \<open>BitmapFrameAllocator\<close>): its
  initialisation from the bootloader's memory map, and its implementation of the
  \<open>FrameAllocator\<close> trait. The state is what its spin lock protects, \<open>None\<close> before \<open>init\<close>;
  each method runs inside one critical section, so a method is one function on that state.
  The allocator is an instance of the contract \<open>frame_allocator\<close>.
\<close>

type_synonym bitmap_frame_allocator = "memory_region list option"

definition bfa_new :: bitmap_frame_allocator where
  "bfa_new = None"

section \<open>Initialisation\<close>

text \<open>An entry of the Limine memory map; \<open>me_usable\<close> is \<open>entry_type == USABLE\<close>.\<close>

record mm_entry =
  me_base :: u64
  me_length :: u64
  me_usable :: bool

definition bitmap_bytes :: "mm_entry \<Rightarrow> usize" where
  "bitmap_bytes e = div_ceil (me_length e div FRAME_SIZE) 8"

text \<open>First loop: \<open>initial_size\<close> and \<open>num_regions\<close>.\<close>

fun init_sizes :: "mm_entry list \<Rightarrow> usize \<times> usize \<Rightarrow> usize \<times> usize" where
  "init_sizes [] acc = acc"
| "init_sizes (e # es) (initial_size, num_regions) =
     init_sizes es
       (if me_usable e then (initial_size + bitmap_bytes e, num_regions + 1)
        else (initial_size, num_regions))"

text \<open>
  A \<open>MemoryRegion\<close> as it is placed in memory: the address the struct is written to, the
  address its bitmap starts at, and the struct. \<open>raw_parts\<close> is the slice over raw memory that
  \<open>from_raw_parts_mut\<close> makes.
\<close>

record placed =
  pl_addr :: u64
  pl_bitmap :: u64
  pl_region :: memory_region

definition raw_parts :: "(u64 \<Rightarrow> u8) \<Rightarrow> u64 \<Rightarrow> usize \<Rightarrow> u8 list" where
  "raw_parts mem a n = map (\<lambda>i. mem (a + word_of_nat i)) [0 ..< unat n]"

text \<open>Inner loop: one region per usable entry, structs and bitmaps side by side.\<close>

fun init_regions ::
  "x86_crate \<Rightarrow> (u64 \<Rightarrow> u8) \<Rightarrow> usize \<Rightarrow> mm_entry list \<Rightarrow> u64 \<Rightarrow> u64 \<Rightarrow> placed list res" where
  "init_regions X mem region_sz [] region_addr bitmap_addr = Inr []"
| "init_regions X mem region_sz (e # es) region_addr bitmap_addr =
     (if me_usable e then
        bind_res (region_new X (me_base e) (me_length e) (raw_parts mem bitmap_addr (bitmap_bytes e))) (\<lambda>r.
        bind_res (init_regions X mem region_sz es (region_addr + region_sz) (bitmap_addr + bitmap_bytes e)) (\<lambda>ps.
        Inr (\<lparr>pl_addr = region_addr, pl_bitmap = bitmap_addr, pl_region = r\<rparr> # ps)))
      else init_regions X mem region_sz es region_addr bitmap_addr)"

definition zero_bitmap :: "memory_region \<Rightarrow> memory_region" where
  "zero_bitmap r = r\<lparr>mr_bitmap := (mr_bitmap r)\<lparr>bv_data := map (\<lambda>_. 0) (bv_data (mr_bitmap r))\<rparr>\<rparr>"

text \<open>
  The body of the search loop for the entry that hosts the metadata: build the regions, zero
  their bitmaps, reserve the metadata's frames in region \<open>ri\<close>.
\<close>

definition init_at ::
  "x86_crate \<Rightarrow> (u64 \<Rightarrow> u8) \<Rightarrow> usize \<Rightarrow> u64 \<Rightarrow> mm_entry list \<Rightarrow> mm_entry \<Rightarrow> usize \<Rightarrow> usize \<Rightarrow> usize
     \<Rightarrow> memory_region list res" where
  "init_at X mem region_sz hhdm es e ri num_regions frames_needed =
     (let region_start = me_base e + hhdm in
      bind_res (init_regions X mem region_sz es region_start (region_start + num_regions * region_sz)) (\<lambda>ps.
      let regions = map (zero_bitmap \<circ> pl_region) ps in
      bind_res (slice_get regions ri) (\<lambda>r.
      bind_res (expect_some AddrInvalid (phys_new X (me_base e))) (\<lambda>base.
      bind_res (frame_range_new X base frames_needed) (\<lambda>fr.
      bind_res (region_reserve r fr) (\<lambda>r'.
      slice_set regions ri r'))))))"

fun init_find ::
  "x86_crate \<Rightarrow> (u64 \<Rightarrow> u8) \<Rightarrow> usize \<Rightarrow> u64 \<Rightarrow> mm_entry list \<Rightarrow> usize \<Rightarrow> usize \<Rightarrow> usize
     \<Rightarrow> mm_entry list \<Rightarrow> usize \<Rightarrow> memory_region list res" where
  "init_find X mem region_sz hhdm es initial_size num_regions frames_needed [] ri =
     Inl (Panicked ''didn't find space for frame allocator data'')"
| "init_find X mem region_sz hhdm es initial_size num_regions frames_needed (e # rest) ri =
     (if me_usable e then
        if me_length e \<ge> initial_size
        then init_at X mem region_sz hhdm es e ri num_regions frames_needed
        else init_find X mem region_sz hhdm es initial_size num_regions frames_needed rest (ri + 1)
      else init_find X mem region_sz hhdm es initial_size num_regions frames_needed rest ri)"

text \<open>
  \<open>BitmapFrameAllocator::init\<close>. The responses of the bootloader, the contents of memory and
  \<open>size_of::<MemoryRegion>()\<close> are arguments.
\<close>

definition bfa_init ::
  "x86_crate \<Rightarrow> (u64 \<Rightarrow> u8) \<Rightarrow> usize \<Rightarrow> mm_entry list option \<Rightarrow> u64 option
     \<Rightarrow> bitmap_frame_allocator \<Rightarrow> bitmap_frame_allocator res" where
  "bfa_init X mem region_sz mm_resp hhdm_resp slot =
     bind_res (expect_some UnwrapFailed mm_resp) (\<lambda>es.
     bind_res (expect_some UnwrapFailed hhdm_resp) (\<lambda>hhdm.
     let (bitmap_size, num_regions) = init_sizes es (0, 0);
         initial_size = bitmap_size + num_regions * region_sz;
         frames_needed = div_ceil initial_size FRAME_SIZE
     in bind_res (init_find X mem region_sz hhdm es initial_size num_regions frames_needed es 0) (\<lambda>regions.
        bind_res (assert_res (slot = None)) (\<lambda>_.
        Inr (Some regions)))))"

section \<open>The FrameAllocator implementation\<close>

fun regions_alloc ::
  "x86_crate \<Rightarrow> memory_region list \<Rightarrow> usize \<Rightarrow> (frame_range option \<times> memory_region list) res" where
  "regions_alloc X [] count = Inr (None, [])"
| "regions_alloc X (r # rs) count =
     bind_res (region_alloc X r count) (\<lambda>(found, r').
       case found of
         Some fr \<Rightarrow> Inr (Some fr, r' # rs)
       | None \<Rightarrow> bind_res (regions_alloc X rs count) (\<lambda>(found', rs'). Inr (found', r' # rs')))"

definition bfa_alloc :: "x86_crate \<Rightarrow> bitmap_frame_allocator alloc_fn" where
  "bfa_alloc X slot count =
     (case slot of
        None \<Rightarrow> Inr (Inl NotInitialized, None)
      | Some regions \<Rightarrow>
          bind_res (regions_alloc X regions count) (\<lambda>(found, regions').
            case found of
              Some fr \<Rightarrow> Inr (Inr fr, Some regions')
            | None \<Rightarrow> Inr (Inl OutOfMemory, Some regions')))"

fun regions_dealloc :: "memory_region list \<Rightarrow> frame_range \<Rightarrow> memory_region list res" where
  "regions_dealloc [] frames = Inr []"
| "regions_dealloc (r # rs) frames =
     (if region_contains r (fr_start frames)
      then bind_res (region_dealloc r frames) (\<lambda>r'. Inr (r' # rs))
      else bind_res (regions_dealloc rs frames) (\<lambda>rs'. Inr (r # rs')))"

definition bfa_dealloc :: "bitmap_frame_allocator dealloc_fn" where
  "bfa_dealloc slot frames =
     (case slot of
        None \<Rightarrow> Inr None
      | Some regions \<Rightarrow> bind_res (regions_dealloc regions frames) (\<lambda>rs. Inr (Some rs)))"

definition bfa_total_frames :: "bitmap_frame_allocator \<Rightarrow> usize" where
  "bfa_total_frames slot =
     (case slot of None \<Rightarrow> 0 | Some regions \<Rightarrow> sum_list (map region_total_frames regions))"

definition bfa_free_frames :: "bitmap_frame_allocator \<Rightarrow> usize res" where
  "bfa_free_frames slot =
     (case slot of
        None \<Rightarrow> Inr 0
      | Some regions \<Rightarrow>
          for_res (\<lambda>r n. bind_res (region_free_frames r) (\<lambda>k. Inr (n + k))) regions 0)"

section \<open>Abstraction and invariant\<close>

definition regions_apart :: "memory_region list \<Rightarrow> bool" where
  "regions_apart =
     sorted_wrt (\<lambda>r s. unat (mr_end r) \<le> unat (mr_start s) \<or> unat (mr_end s) \<le> unat (mr_start r))"

definition bfa_regions :: "bitmap_frame_allocator \<Rightarrow> memory_region list" where
  "bfa_regions slot = (case slot of None \<Rightarrow> [] | Some rs \<Rightarrow> rs)"

definition bfa_ok :: "bitmap_frame_allocator \<Rightarrow> bool" where
  "bfa_ok slot \<longleftrightarrow> list_all region_ok (bfa_regions slot) \<and> regions_apart (bfa_regions slot)"

definition bfa_free :: "bitmap_frame_allocator \<Rightarrow> nat set" where
  "bfa_free slot = \<Union> (region_free ` set (bfa_regions slot))"

definition bfa_holds :: "bitmap_frame_allocator \<Rightarrow> frame_range \<Rightarrow> bool" where
  "bfa_holds slot fr \<longleftrightarrow> list_ex (\<lambda>r. region_holds r fr) (bfa_regions slot)"

text \<open>First fit in one region, and the outcome of an allocation in terms of it.\<close>

definition region_fit :: "memory_region \<Rightarrow> usize \<Rightarrow> nat option" where
  "region_fit r count = first_fit (used (mr_bitmap r)) (region_size r) (unat count)"

definition taken_from :: "memory_region list \<Rightarrow> nat \<Rightarrow> nat \<Rightarrow> usize \<Rightarrow> frame_range \<Rightarrow> memory_region \<Rightarrow> bool" where
  "taken_from rs i k count fr r' \<longleftrightarrow>
     i < length rs \<and> (\<forall>j < i. region_fit (rs ! j) count = None) \<and> region_fit (rs ! i) count = Some k \<and>
     fr_count fr = count \<and> unat (fr_start fr) = frame_at (rs ! i) k \<and>
     region_shape r' = region_shape (rs ! i) \<and>
     (\<forall>j. used (mr_bitmap r') j \<longleftrightarrow> used (mr_bitmap (rs ! i)) j \<or> j \<in> {k ..< k + unat count})"

lemma bfa_regions_simps [simp]: "bfa_regions None = []" "bfa_regions (Some rs) = rs"
  by (simp_all add: bfa_regions_def)

lemma regions_apart_Cons:
  "regions_apart (r # rs) \<longleftrightarrow>
     (\<forall>s \<in> set rs. unat (mr_end r) \<le> unat (mr_start s) \<or> unat (mr_end s) \<le> unat (mr_start r)) \<and>
     regions_apart rs"
  by (auto simp: regions_apart_def)

lemma regions_apart_shape:
  "map region_shape rs' = map region_shape rs \<Longrightarrow> regions_apart rs' \<longleftrightarrow> regions_apart rs"
proof -
  have "regions_apart rs \<longleftrightarrow>
      sorted_wrt (\<lambda>(a, b, _) (c, d, _). unat b \<le> unat c \<or> unat d \<le> unat a) (map region_shape rs)" for rs
    by (simp add: regions_apart_def sorted_wrt_map region_shape_def)
  then show "map region_shape rs' = map region_shape rs \<Longrightarrow> ?thesis" by simp
qed

lemma list_update_shape:
  "i < length rs \<Longrightarrow> region_shape r' = region_shape (rs ! i) \<Longrightarrow>
     map region_shape (rs[i := r']) = map region_shape rs"
  by (simp add: map_update list_update_same_conv)

lemma bfa_update:
  assumes "bfa_ok (Some rs)" "i < length rs" "region_shape r' = region_shape (rs ! i)"
  shows "bfa_ok (Some (rs[i := r']))" "bfa_holds (Some (rs[i := r'])) = bfa_holds (Some rs)"
proof -
  note sh = list_update_shape[OF assms(2,3)]
  have ok: "\<And>r s. region_shape r = region_shape s \<Longrightarrow> region_ok r \<longleftrightarrow> region_ok s"
    and ho: "\<And>r s. region_shape r = region_shape s \<Longrightarrow> region_holds r = region_holds s"
    using region_shape_eqD by blast+
  show "bfa_ok (Some (rs[i := r']))"
    using assms regions_apart_shape[OF sh] ok[OF assms(3)]
    by (auto simp: bfa_ok_def list_all_length nth_list_update)
  show "bfa_holds (Some (rs[i := r'])) = bfa_holds (Some rs)"
    using assms(2) ho[OF assms(3)]
    by (auto simp: bfa_holds_def list_ex_length fun_eq_iff nth_list_update)
qed

text \<open>An address inside one region lies in no other.\<close>

lemma regions_apart_nth:
  assumes "regions_apart rs" "i < length rs" "j < length rs" "i \<noteq> j"
  shows "unat (mr_end (rs ! i)) \<le> unat (mr_start (rs ! j)) \<or> unat (mr_end (rs ! j)) \<le> unat (mr_start (rs ! i))"
  using assms sorted_wrt_nth_less[of _ rs i j] sorted_wrt_nth_less[of _ rs j i]
  unfolding regions_apart_def by (cases "i < j") fastforce+

lemma bfa_free_update:
  assumes ok: "bfa_ok (Some rs)" and i: "i < length rs" and sh: "region_shape r' = region_shape (rs ! i)"
  shows "bfa_free (Some (rs[i := r'])) =
    (bfa_free (Some rs) - region_frames (rs ! i)) \<union> region_free r'"
proof -
  have other: "region_free (rs ! j) \<inter> region_frames (rs ! i) = {}" if j: "j < length rs" "j \<noteq> i" for j
  proof -
    have "region_ok (rs ! i)" "region_ok (rs ! j)" using ok i j by (auto simp: bfa_ok_def list_all_length)
    with regions_apart_nth[OF _ i j(1)] ok j(2) region_free_subset[of "rs ! j"]
    show ?thesis by (fastforce simp: bfa_ok_def dest: region_free_bounds)
  qed
  have "bfa_free (Some (rs[i := r'])) = (\<Union>j \<in> {..<length rs}. if j = i then region_free r' else region_free (rs ! j))"
    using i by (fastforce simp: bfa_free_def set_conv_nth nth_list_update split: if_splits)
  also have "\<dots> = (\<Union>j \<in> {..<length rs} - {i}. region_free (rs ! j)) \<union> region_free r'"
    using i by auto
  also have "(\<Union>j \<in> {..<length rs} - {i}. region_free (rs ! j)) = bfa_free (Some rs) - region_frames (rs ! i)"
    using other region_free_subset[of "rs ! i"] by (fastforce simp: bfa_free_def set_conv_nth)
  finally show ?thesis .
qed

section \<open>Allocation\<close>

lemma regions_alloc_outcome:
  assumes "list_all region_ok rs" "x86_ok X"
  shows "(regions_alloc X rs count = Inr (None, rs) \<and> (\<forall>r \<in> set rs. region_fit r count = None)) \<or>
    (\<exists>i k fr r'. regions_alloc X rs count = Inr (Some fr, rs[i := r']) \<and> taken_from rs i k count fr r')"
  using assms(1)
proof (induction rs)
  case Nil
  then show ?case by simp
next
  case (Cons r rs)
  then have ok: "region_ok r" and oks: "list_all region_ok rs" by auto
  show ?case
  proof (cases "region_fit r count")
    case None
    then have ra: "region_alloc X r count = Inr (None, r)"
      using region_alloc_None[OF ok] by (simp add: region_fit_def)
    from Cons.IH[OF oks] show ?thesis
    proof (elim disjE exE conjE)
      assume "regions_alloc X rs count = Inr (None, rs)" "\<forall>r \<in> set rs. region_fit r count = None"
      with ra None show ?thesis by simp
    next
      fix i k fr r'
      assume a: "regions_alloc X rs count = Inr (Some fr, rs[i := r'])" "taken_from rs i k count fr r'"
      have "taken_from (r # rs) (Suc i) k count fr r'"
        using a(2) None by (auto simp: taken_from_def nth_Cons split: nat.splits)
      moreover have "regions_alloc X (r # rs) count = Inr (Some fr, (r # rs)[Suc i := r'])"
        using a(1) ra by simp
      ultimately show ?thesis by blast
    qed
  next
    case (Some k)
    then have ff: "first_fit (used (mr_bitmap r)) (region_size r) (unat count) = Some k"
      by (simp add: region_fit_def)
    obtain fr r' where "region_alloc X r count = Inr (Some fr, r')" "fr_count fr = count"
        "unat (fr_start fr) = frame_at r k" "region_shape r' = region_shape r"
        "\<And>j. used (mr_bitmap r') j \<longleftrightarrow> used (mr_bitmap r) j \<or> j \<in> {k ..< k + unat count}"
      using region_alloc_Some[OF ok assms(2) ff] by metis
    then have "regions_alloc X (r # rs) count = Inr (Some fr, (r # rs)[0 := r'])"
      and "taken_from (r # rs) 0 k count fr r'"
      using Some by (simp_all add: taken_from_def)
    then show ?thesis by blast
  qed
qed

lemma bfa_alloc_cases:
  assumes "bfa_ok s" "x86_ok X"
  obtains (uninit) "s = None" "bfa_alloc X s count = Inr (Inl NotInitialized, s)"
    | (full) rs where "s = Some rs" "bfa_alloc X s count = Inr (Inl OutOfMemory, s)"
      "\<forall>r \<in> set rs. region_fit r count = None"
    | (found) rs i k fr r' where "s = Some rs" "bfa_alloc X s count = Inr (Inr fr, Some (rs[i := r']))"
      "taken_from rs i k count fr r'"
proof (cases s)
  case None
  then show thesis using uninit by (simp add: bfa_alloc_def)
next
  case (Some rs)
  then have "list_all region_ok rs" using assms(1) by (simp add: bfa_ok_def)
  from regions_alloc_outcome[OF this assms(2), of count] show thesis
  proof (elim disjE exE conjE)
    assume "regions_alloc X rs count = Inr (None, rs)" "\<forall>r \<in> set rs. region_fit r count = None"
    with Some show thesis by (intro full) (simp_all add: bfa_alloc_def)
  next
    fix i k fr r'
    assume "regions_alloc X rs count = Inr (Some fr, rs[i := r'])" "taken_from rs i k count fr r'"
    with Some show thesis by (intro found) (simp_all add: bfa_alloc_def)
  qed
qed

lemma taken_from_run:
  assumes "taken_from rs i k count fr r'"
  shows "k + unat count \<le> region_size (rs ! i)" "0 < unat count"
    "\<And>j. j \<in> {k ..< k + unat count} \<Longrightarrow> \<not> used (mr_bitmap (rs ! i)) j"
    "frames_of fr = frame_at (rs ! i) ` {k ..< k + unat count}"
    "frames_of fr \<subseteq> region_free (rs ! i)"
    "region_holds (rs ! i) fr"
proof -
  have "region_fit (rs ! i) count = Some k" "fr_count fr = count"
    "unat (fr_start fr) = frame_at (rs ! i) k" using assms by (auto simp: taken_from_def)
  note f = first_fit_SomeD[OF this(1)[unfolded region_fit_def]] this(2,3)
  show "k + unat count \<le> region_size (rs ! i)" "0 < unat count"
    "\<And>j. j \<in> {k ..< k + unat count} \<Longrightarrow> \<not> used (mr_bitmap (rs ! i)) j"
    using f by (auto simp: free_run_def)
  then show "region_holds (rs ! i) fr" using f by (auto simp: region_holds_def)
  show fs: "frames_of fr = frame_at (rs ! i) ` {k ..< k + unat count}"
    using frames_of_run[OF f(5)] f(4) by simp
  show "frames_of fr \<subseteq> region_free (rs ! i)"
    using f unfolding fs by (auto simp: free_run_def region_free_def)
qed

lemma bfa_alloc_found:
  assumes ok: "bfa_ok (Some rs)" and t: "taken_from rs i k count fr r'"
  shows "bfa_ok (Some (rs[i := r']))" "bfa_holds (Some (rs[i := r'])) = bfa_holds (Some rs)"
    "bfa_holds (Some rs) fr" "frames_of fr \<subseteq> bfa_free (Some rs)"
    "bfa_free (Some (rs[i := r'])) = bfa_free (Some rs) - frames_of fr"
proof -
  have i: "i < length rs" and sh: "region_shape r' = region_shape (rs ! i)"
    using t by (auto simp: taken_from_def)
  show "bfa_ok (Some (rs[i := r']))" "bfa_holds (Some (rs[i := r'])) = bfa_holds (Some rs)"
    using bfa_update[OF ok i sh] by auto
  show "bfa_holds (Some rs) fr"
    using taken_from_run(6)[OF t] i by (auto simp: bfa_holds_def list_ex_length)
  have sub: "region_free (rs ! i) \<subseteq> bfa_free (Some rs)" using nth_mem[OF i] by (auto simp: bfa_free_def)
  then show "frames_of fr \<subseteq> bfa_free (Some rs)" using taken_from_run(5)[OF t] by blast
  have own: "bfa_free (Some rs) = (bfa_free (Some rs) - region_frames (rs ! i)) \<union> region_free (rs ! i)"
    using bfa_free_update[OF ok i refl] i by simp
  have "region_free r' = region_free (rs ! i) - frames_of fr"
    using region_free_update[OF sh, of "{k ..< k + unat count}"] t taken_from_run(4)[OF t]
    by (auto simp: taken_from_def)
  moreover have "frames_of fr \<subseteq> region_frames (rs ! i)"
    using taken_from_run(5)[OF t] region_free_subset by blast
  ultimately show "bfa_free (Some (rs[i := r'])) = bfa_free (Some rs) - frames_of fr"
    using bfa_free_update[OF ok i sh] own by blast
qed

section \<open>Deallocation\<close>

lemma regions_dealloc_nth:
  assumes "i < length rs" "region_contains (rs ! i) (fr_start fr)"
    and "\<And>j. j < i \<Longrightarrow> \<not> region_contains (rs ! j) (fr_start fr)"
    and "region_dealloc (rs ! i) fr = Inr r'"
  shows "regions_dealloc rs fr = Inr (rs[i := r'])"
  using assms
proof (induction rs arbitrary: i)
  case (Cons r rs)
  show ?case
  proof (cases i)
    case 0
    with Cons.prems show ?thesis by simp
  next
    case (Suc m)
    have "\<not> region_contains r (fr_start fr)" using Cons.prems(3)[of 0] Suc by simp
    moreover have "regions_dealloc rs fr = Inr (rs[m := r'])"
    proof (rule Cons.IH)
      show "\<And>j. j < m \<Longrightarrow> \<not> region_contains (rs ! j) (fr_start fr)"
        using Cons.prems(3)[of "Suc _"] Suc by fastforce
    qed (use Cons.prems Suc in auto)
    ultimately show ?thesis using Suc by simp
  qed
qed simp

lemma contains_unique:
  assumes "regions_apart rs" "i < length rs" "j < length rs" "i \<noteq> j" "region_contains (rs ! i) a"
  shows "\<not> region_contains (rs ! j) a"
  using regions_apart_nth[OF assms(1-4)] assms(5) by (auto simp: region_contains_iff)

lemma bfa_dealloc_held:
  assumes ok: "bfa_ok (Some rs)" and i: "i < length rs" and k: "k < region_size (rs ! i)"
    and fr: "unat (fr_start fr) = frame_at (rs ! i) k" "k + unat (fr_count fr) \<le> region_size (rs ! i)"
  obtains r' where "bfa_dealloc (Some rs) fr = Inr (Some (rs[i := r']))"
    "region_shape r' = region_shape (rs ! i)"
    "\<And>j. used (mr_bitmap r') j \<longleftrightarrow> used (mr_bitmap (rs ! i)) j \<and> j \<notin> {k ..< k + unat (fr_count fr)}"
proof -
  have r: "region_ok (rs ! i)" and apart: "regions_apart rs"
    using ok i by (auto simp: bfa_ok_def list_all_length)
  have c: "region_contains (rs ! i) (fr_start fr)"
    using region_holds_contains[OF r] k fr by (auto simp: region_holds_def)
  obtain r' where r': "region_dealloc (rs ! i) fr = Inr r'" "region_shape r' = region_shape (rs ! i)"
      "\<And>j. used (mr_bitmap r') j \<longleftrightarrow> used (mr_bitmap (rs ! i)) j \<and> j \<notin> {k ..< k + unat (fr_count fr)}"
    using region_dealloc_ok[OF r fr(1) k fr(2)] by metis
  have "regions_dealloc rs fr = Inr (rs[i := r'])"
    using contains_unique[OF apart i _ _ c] i by (intro regions_dealloc_nth r' i c) auto
  then show thesis using that r' by (simp add: bfa_dealloc_def)
qed

lemma bfa_dealloc_ok:
  assumes ok: "bfa_ok s" and h: "bfa_holds s fr"
  shows "\<exists>s'. bfa_dealloc s fr = Inr s' \<and> bfa_ok s' \<and> bfa_free s' = bfa_free s \<union> frames_of fr \<and>
    bfa_holds s' = bfa_holds s"
proof -
  obtain rs where s: "s = Some rs" using h by (cases s) (auto simp: bfa_holds_def)
  obtain i k where i: "i < length rs" and k: "k < region_size (rs ! i)"
      "unat (fr_start fr) = frame_at (rs ! i) k" "k + unat (fr_count fr) \<le> region_size (rs ! i)"
    using h by (auto simp: s bfa_holds_def list_ex_length region_holds_def)
  let ?S = "{k ..< k + unat (fr_count fr)}"
  obtain r' where r': "bfa_dealloc (Some rs) fr = Inr (Some (rs[i := r']))"
      "region_shape r' = region_shape (rs ! i)"
      "\<And>j. used (mr_bitmap r') j \<longleftrightarrow> used (mr_bitmap (rs ! i)) j \<and> j \<notin> ?S"
    using bfa_dealloc_held[OF ok[unfolded s] i k] by metis
  have fs: "frames_of fr = frame_at (rs ! i) ` ?S" using frames_of_run[OF k(2)] .
  have "region_free r' = region_free (rs ! i) \<union> frames_of fr"
    unfolding fs using k(3) by (intro region_free_release r') auto
  moreover have "bfa_free (Some rs) = (bfa_free (Some rs) - region_frames (rs ! i)) \<union> region_free (rs ! i)"
    using bfa_free_update[OF ok[unfolded s] i refl] i by simp
  ultimately have "bfa_free (Some (rs[i := r'])) = bfa_free (Some rs) \<union> frames_of fr"
    using bfa_free_update[OF ok[unfolded s] i r'(2)] by blast
  with r'(1) bfa_update[OF ok[unfolded s] i r'(2)] show ?thesis by (auto simp: s)
qed

text \<open>Freeing a range leaves the regions' shapes alone even when nothing holds it.\<close>

lemma region_dealloc_shape: "region_dealloc r fr = Inr r' \<Longrightarrow> region_shape r' = region_shape r"
proof -
  have step: "bitmap_clear v i = Inr w \<Longrightarrow> bv_size w = bv_size v \<and> length (bv_data w) = length (bv_data v)" for v i w
    by (auto simp: bitmap_clear_def res_iff)
  have loop: "for_res (\<lambda>j v. bitmap_clear v j) is v = Inr w \<Longrightarrow>
      bv_size w = bv_size v \<and> length (bv_data w) = length (bv_data v)" for "is" v w
    by (induction "is" arbitrary: v) (auto simp: res_iff dest!: step)
  assume "region_dealloc r fr = Inr r'"
  then show ?thesis
    by (auto simp: region_dealloc_def Let_def res_iff clear_range_def region_shape_def dest!: loop)
qed

lemma regions_dealloc_shape:
  "regions_dealloc rs fr = Inr rs' \<Longrightarrow> map region_shape rs' = map region_shape rs"
  by (induction rs arbitrary: rs') (auto simp: res_iff region_dealloc_shape split: if_splits)

lemma bfa_holds_shape:
  assumes "map region_shape rs' = map region_shape rs"
  shows "bfa_holds (Some rs') = bfa_holds (Some rs)"
proof -
  have "map region_holds rs' = map region_holds rs"
    using assms by (auto simp: list_eq_iff_nth_eq intro: region_shape_eqD(7))
  moreover have "bfa_holds (Some xs) fr' = list_ex (\<lambda>h. h fr') (map region_holds xs)" for xs fr'
    by (simp add: bfa_holds_def list_ex_iff)
  ultimately show ?thesis by (simp add: fun_eq_iff)
qed

lemma bfa_holds_dealloc:
  assumes "bfa_dealloc s fr = Inr s'"
  shows "bfa_holds s' = bfa_holds s"
proof (cases s)
  case None
  with assms show ?thesis by (simp add: bfa_dealloc_def)
next
  case (Some rs)
  with assms obtain rs' where "s' = Some rs'" "regions_dealloc rs fr = Inr rs'"
    by (auto simp: bfa_dealloc_def res_iff)
  with Some bfa_holds_shape[OF regions_dealloc_shape] show ?thesis by blast
qed

section \<open>The contract holds\<close>

lemma region_fit_one: "region_fit r 1 = None \<longleftrightarrow> region_free r = {}"
  by (auto simp: region_fit_def first_fit_None_iff free_run_def region_free_def)

interpretation bfa: frame_allocator "bfa_alloc X" bfa_dealloc bfa_free bfa_holds
  "\<lambda>s. x86_ok X \<and> bfa_ok s" for X
proof (unfold_locales, goal_cases)
  case (1 s n)
  then have "bfa_ok s" "x86_ok X" by auto
  then show ?case by (cases rule: bfa_alloc_cases[where count = n]) auto
next
  case (2 s n rg s')
  then have ok: "bfa_ok s" "x86_ok X" by auto
  then show ?case
  proof (cases rule: bfa_alloc_cases[where count = n])
    case (found rs i k fr r')
    then have eq: "fr = rg" "s' = Some (rs[i := r'])" using 2 by auto
    have okr: "bfa_ok (Some rs)" using ok found(1) by simp
    note t = bfa_alloc_found[OF okr found(3)]
    have r: "region_ok (rs ! i)"
      using okr found(3) by (auto simp: bfa_ok_def list_all_length taken_from_def)
    have "unat (fr_start fr) mod 4096 = 0"
      using found(3) region_ok_bounds(4)[OF r] by (simp add: taken_from_def frame_at_def)
    moreover have "n \<noteq> 0" using taken_from_run(2)[OF found(3)] by auto
    moreover have "fr_count fr = n" using found(3) by (simp add: taken_from_def)
    ultimately show ?thesis using t ok eq found(1) by simp
  qed (use 2 in auto)
next
  case (3 s n e s')
  then have "bfa_ok s" "x86_ok X" by auto
  then show ?case by (cases rule: bfa_alloc_cases[where count = n]) (use 3 in auto)
next
  case (4 s e s')
  then have "bfa_ok s" "x86_ok X" by auto
  then show ?case
    by (cases rule: bfa_alloc_cases[where count = 1]) (use 4 in \<open>auto simp: bfa_free_def region_fit_one\<close>)
next
  case (5 s rg)
  then show ?case using bfa_dealloc_ok by blast
next
  case (6 s n r s')
  then have ok: "bfa_ok s" "x86_ok X" by auto
  then show ?case
    by (cases rule: bfa_alloc_cases[where count = n]) (use 6 in \<open>auto dest: bfa_alloc_found(2)\<close>)
next
  case (7 s rg s')
  then show ?case by (simp add: bfa_holds_dealloc)
qed

section \<open>Counting frames\<close>

lemma bfa_free_bound:
  assumes "list_all region_ok rs"
  shows "bfa_free (Some rs) \<subseteq> {..<2 ^ 52}"
proof
  fix a assume "a \<in> bfa_free (Some rs)"
  then obtain r where r: "r \<in> set rs" "a \<in> region_free r" by (auto simp: bfa_free_def)
  then have ok: "region_ok r" using assms by (simp add: list_all_iff)
  have "a \<in> region_frames r" using r region_free_subset by blast
  then show "a \<in> {..<2 ^ 52}"
    using region_free_bounds(2)[OF ok] region_ok_bounds(3)[OF ok] by force
qed

lemma card_bfa_free_bound: "list_all region_ok rs \<Longrightarrow> card (bfa_free (Some rs)) \<le> 2 ^ 52"
  using card_mono[OF _ bfa_free_bound[of rs]] by simp

lemma finite_bfa_free [simp]: "finite (bfa_free s)"
  by (simp add: bfa_free_def)

lemma card_bfa_free_snoc:
  assumes "bfa_ok (Some (rs @ [r]))"
  shows "card (bfa_free (Some (rs @ [r]))) = card (bfa_free (Some rs)) + card (region_free r)"
proof -
  have "region_free r \<inter> region_free s = {}" if s: "s \<in> set rs" for s
  proof -
    have ok: "region_ok r" "region_ok s" using assms s by (auto simp: bfa_ok_def list_all_iff)
    have "unat (mr_end s) \<le> unat (mr_start r) \<or> unat (mr_end r) \<le> unat (mr_start s)"
      using assms s by (auto simp: bfa_ok_def regions_apart_def sorted_wrt_append)
    then show ?thesis
      using region_free_bounds[OF ok(1)] region_free_bounds[OF ok(2)]
        region_free_subset[of r] region_free_subset[of s] by fastforce
  qed
  then have "bfa_free (Some rs) \<inter> region_free r = {}" by (auto simp: bfa_free_def)
  moreover have "bfa_free (Some (rs @ [r])) = bfa_free (Some rs) \<union> region_free r"
    by (auto simp: bfa_free_def)
  ultimately show ?thesis by (simp add: card_Un_disjoint)
qed

lemma bfa_ok_take: "bfa_ok (Some rs) \<Longrightarrow> bfa_ok (Some (take k rs))"
  by (auto simp: bfa_ok_def regions_apart_def list_all_iff dest: in_set_takeD)

lemma bfa_free_frames_card:
  assumes "bfa_ok s"
  shows "\<exists>n. bfa_free_frames s = Inr n \<and> unat n = card (bfa_free s)"
proof (cases s)
  case None
  then show ?thesis by (simp add: bfa_free_frames_def bfa_free_def)
next
  case (Some rs)
  let ?P = "\<lambda>k (n :: usize). unat n = card (bfa_free (Some (take k rs)))"
  have ok: "bfa_ok (Some rs)" using assms Some by simp
  have "\<exists>n. for_res (\<lambda>r n. bind_res (region_free_frames r) (\<lambda>k. Inr (n + k))) rs 0 = Inr n \<and> ?P (length rs) n"
  proof (rule for_res_inv[where P = ?P])
    show "?P 0 0" by (simp add: bfa_free_def)
  next
    fix k and n :: usize assume k: "k < length rs" and P: "?P k n"
    have r: "region_ok (rs ! k)" using ok k by (simp add: bfa_ok_def list_all_length)
    obtain c where c: "region_free_frames (rs ! k) = Inr c" "unat c = card (region_free (rs ! k))"
      using region_free_frames_ok[OF r] by blast
    have take: "take (Suc k) rs = take k rs @ [rs ! k]" using k by (rule take_Suc_conv_app_nth)
    have ok': "bfa_ok (Some (take (Suc k) rs))" using ok by (rule bfa_ok_take)
    have sum: "card (bfa_free (Some (take (Suc k) rs))) = unat n + unat c"
      using card_bfa_free_snoc[OF ok'[unfolded take]] P c(2) by (simp add: take)
    moreover have "card (bfa_free (Some (take (Suc k) rs))) \<le> 2 ^ 52"
      using ok' card_bfa_free_bound by (simp add: bfa_ok_def)
    ultimately have "unat (n + c) = unat n + unat c" by (simp add: word_nat)
    then show "\<exists>n'. bind_res (region_free_frames (rs ! k)) (\<lambda>k. Inr (n + k)) = Inr n' \<and> ?P (Suc k) n'"
      using c(1) sum by simp
  qed
  with Some show ?thesis by (simp add: bfa_free_frames_def)
qed

section \<open>Properties\<close>

text \<open>Equations that evaluate the allocator on concrete states.\<close>

lemmas bfa_eval = bfa_alloc_def bfa_dealloc_def region_alloc_def region_dealloc_def
  set_range_def clear_range_def range_usize_def upt_rec bitmap_op_defs frame_range_new_def
  x86_doc_def FRAME_SIZE_def region_contains_def

text \<open>
  C7. Allocation is first fit. On well-formed regions \<open>alloc\<close> never panics: either no region
  has \<open>count\<close> consecutive free frames (or \<open>count\<close> is 0), and it reports \<open>OutOfMemory\<close> and
  changes nothing; or it takes the lowest such run of the first region that has one, returns
  its address, and marks exactly those frames used.
\<close>

theorem bfa_alloc_first_fit:
  assumes "bfa_ok (Some rs)" "x86_ok X"
  shows "(bfa_alloc X (Some rs) count = Inr (Inl OutOfMemory, Some rs) \<and>
       (\<forall>r \<in> set rs. unat count = 0 \<or> (\<forall>k. \<not> free_run (used (mr_bitmap r)) (region_size r) (unat count) k))) \<or>
    (\<exists>i k fr r'. bfa_alloc X (Some rs) count = Inr (Inr fr, Some (rs[i := r'])) \<and> taken_from rs i k count fr r')"
  using assms
proof (cases rule: bfa_alloc_cases[where count = count])
  case (full rs')
  then show ?thesis by (auto simp: region_fit_def first_fit_None_iff)
next
  case (found rs' i k fr r')
  then show ?thesis by blast
qed simp

theorem bfa_alloc_first_fit_witness:
  "\<exists>i k r'. taken_from [\<lparr>mr_start = 0x10000, mr_end = 0x15000,
        mr_bitmap = \<lparr>bv_size = 5, bv_data = [5]\<rparr>\<rparr>] i k 2 \<lparr>fr_start = 0x13000, fr_count = 2\<rparr> r'"
proof -
  let ?rs = "[\<lparr>mr_start = 0x10000, mr_end = 0x15000, mr_bitmap = \<lparr>bv_size = 5, bv_data = [5]\<rparr>\<rparr>]"
  have ok: "bfa_ok (Some ?rs)"
    by (simp add: bfa_ok_def region_ok_def bitmap_ok_def regions_apart_def)
  have "bfa_alloc x86_doc (Some ?rs) 2 = Inr (Inr \<lparr>fr_start = 0x13000, fr_count = 2\<rparr>,
      Some [\<lparr>mr_start = 0x10000, mr_end = 0x15000, mr_bitmap = \<lparr>bv_size = 5, bv_data = [29]\<rparr>\<rparr>])"
    by (simp add: bfa_eval)
  with bfa_alloc_first_fit[OF ok x86_ok_doc, of 2] show ?thesis by auto
qed

text \<open>
  C2. No frame is ever handed out twice. A client that makes any sequence of allocations and
  gives back any ranges it holds never makes the allocator panic; at every point the ranges it
  holds are pairwise disjoint and none of their frames is free, and live and free frames
  together are the frames that were free at the start: nothing leaks.
\<close>

theorem bfa_serve_safe:
  assumes "bfa_ok s" "x86_ok X"
  shows "\<exists>s' live. serve (bfa_alloc X) bfa_dealloc qs s [] = Inr (s', live) \<and> bfa_ok s' \<and>
    disjoint_ranges live \<and> (\<forall>r \<in> set live. frames_of r \<inter> bfa_free s' = {}) \<and>
    bfa_free s' \<union> \<Union> (frames_of ` set live) = bfa_free s"
proof -
  have "bfa.ledger X (bfa_free s) s []" unfolding bfa.ledger_def using assms by simp
  from bfa.serve_ledger[OF this, of qs] show ?thesis unfolding bfa.ledger_def by blast
qed

theorem bfa_serve_safe_witness:
  "\<exists>s' live. serve (bfa_alloc x86_doc) bfa_dealloc [Alloc 2, Alloc 1, Free 1, Alloc 3]
      (Some [\<lparr>mr_start = 0x10000, mr_end = 0x15000, mr_bitmap = \<lparr>bv_size = 5, bv_data = [0]\<rparr>\<rparr>]) [] =
      Inr (s', live) \<and> disjoint_ranges live"
proof -
  have "bfa_ok (Some [\<lparr>mr_start = 0x10000, mr_end = 0x15000, mr_bitmap = \<lparr>bv_size = 5, bv_data = [0]\<rparr>\<rparr>])"
    by (simp add: bfa_ok_def region_ok_def bitmap_ok_def regions_apart_def)
  from bfa_serve_safe[OF this x86_ok_doc, of "[Alloc 2, Alloc 1, Free 1, Alloc 3]"]
  show ?thesis by blast
qed

text \<open>
  C17. Round trip: giving back what \<open>alloc\<close> just returned restores the allocator's state bit
  for bit, bitmap bytes beyond the last frame included.
\<close>

theorem bfa_alloc_dealloc:
  assumes "bfa_ok s" "x86_ok X" "bfa_alloc X s count = Inr (Inr fr, s')"
  shows "bfa_dealloc s' fr = Inr s"
  using assms(1,2)
proof (cases rule: bfa_alloc_cases[where count = count])
  case (found rs i k fr' r')
  then have eq: "fr' = fr" "s' = Some (rs[i := r'])" using assms(3) by auto
  have ok: "bfa_ok (Some rs)" using assms(1) found(1) by simp
  note t = found(3)[unfolded eq] and run = taken_from_run[OF found(3)[unfolded eq]]
  have i: "i < length rs" and sh: "region_shape r' = region_shape (rs ! i)" and fc: "fr_count fr = count"
    and st: "unat (fr_start fr) = frame_at (rs ! i) k"
    and u: "\<forall>j. used (mr_bitmap r') j \<longleftrightarrow> used (mr_bitmap (rs ! i)) j \<or> j \<in> {k ..< k + unat count}"
    using t by (auto simp: taken_from_def)
  note shD = region_shape_eqD[OF sh]
  obtain r'' where r'': "bfa_dealloc (Some (rs[i := r'])) fr = Inr (Some ((rs[i := r'])[i := r'']))"
      "region_shape r'' = region_shape r'"
      "\<And>j. used (mr_bitmap r'') j \<longleftrightarrow> used (mr_bitmap r') j \<and> j \<notin> {k ..< k + unat count}"
    using bfa_dealloc_held[OF bfa_alloc_found(1)[OF ok t], of i k fr] i run(1,2) shD st fc by auto
  have "mr_bitmap r'' = mr_bitmap (rs ! i)"
  proof (rule bitmap_eqI)
    show "bv_size (mr_bitmap r'') = bv_size (mr_bitmap (rs ! i))"
      "length (bv_data (mr_bitmap r'')) = length (bv_data (mr_bitmap (rs ! i)))"
      using r''(2) sh by (simp_all add: region_shape_def)
    show "used (mr_bitmap r'') j \<longleftrightarrow> used (mr_bitmap (rs ! i)) j" for j
      using r''(3) u run(3) by blast
  qed
  then have "r'' = rs ! i" using r''(2) sh by (simp add: region_shape_def)
  with r''(1) eq found(1) show ?thesis by simp
qed (use assms(3) in auto)

theorem bfa_alloc_dealloc_witness:
  "\<exists>fr s'. bfa_alloc x86_doc (Some [\<lparr>mr_start = 0x10000, mr_end = 0x15000,
        mr_bitmap = \<lparr>bv_size = 5, bv_data = [0xE1]\<rparr>\<rparr>]) 3 = Inr (Inr fr, s') \<and>
     bfa_dealloc s' fr = Inr (Some [\<lparr>mr_start = 0x10000, mr_end = 0x15000,
        mr_bitmap = \<lparr>bv_size = 5, bv_data = [0xE1]\<rparr>\<rparr>])"
proof -
  let ?s = "Some [\<lparr>mr_start = 0x10000, mr_end = 0x15000, mr_bitmap = \<lparr>bv_size = 5, bv_data = [0xE1]\<rparr>\<rparr>]"
  have ok: "bfa_ok ?s" by (simp add: bfa_ok_def region_ok_def bitmap_ok_def regions_apart_def)
  have "bfa_alloc x86_doc ?s 3 = Inr (Inr \<lparr>fr_start = 0x11000, fr_count = 3\<rparr>,
      Some [\<lparr>mr_start = 0x10000, mr_end = 0x15000, mr_bitmap = \<lparr>bv_size = 5, bv_data = [0xEF]\<rparr>\<rparr>])"
    by (simp add: bfa_eval)
  with bfa_alloc_dealloc[OF ok x86_ok_doc, of 3] show ?thesis by blast
qed

text \<open>
  C19. \<open>free_frames\<close> counts the free frames exactly, without overflow, and a successful
  allocation of \<open>count\<close> frames lowers it by \<open>count\<close>.
\<close>

theorem bfa_free_frames_exact:
  assumes "bfa_ok s" "x86_ok X" "bfa_alloc X s count = Inr (Inr fr, s')"
  shows "\<exists>n n'. bfa_free_frames s = Inr n \<and> bfa_free_frames s' = Inr n' \<and>
    unat n = card (bfa_free s) \<and> unat n' + unat count = unat n"
proof -
  have ok: "bfa_ok s'" "frames_of fr \<subseteq> bfa_free s" "bfa_free s' = bfa_free s - frames_of fr" "fr_count fr = count"
    using bfa.alloc_ok[of X s count fr s'] assms by auto
  obtain n n' where n: "bfa_free_frames s = Inr n" "unat n = card (bfa_free s)"
      "bfa_free_frames s' = Inr n'" "unat n' = card (bfa_free s')"
    using bfa_free_frames_card[OF assms(1)] bfa_free_frames_card[OF ok(1)] by blast
  have "card (bfa_free s') = card (bfa_free s) - card (frames_of fr)" "card (frames_of fr) \<le> card (bfa_free s)"
    using ok(2,3) by (simp_all add: card_Diff_subset card_mono)
  with n ok(4) show ?thesis by (auto simp: card_frames_of)
qed

theorem bfa_free_frames_exact_witness:
  "\<exists>n n'. bfa_free_frames (Some [\<lparr>mr_start = 0x10000, mr_end = 0x15000,
        mr_bitmap = \<lparr>bv_size = 5, bv_data = [0xE1]\<rparr>\<rparr>]) = Inr n \<and>
     bfa_free_frames (Some [\<lparr>mr_start = 0x10000, mr_end = 0x15000,
        mr_bitmap = \<lparr>bv_size = 5, bv_data = [0xEF]\<rparr>\<rparr>]) = Inr n' \<and> unat n' + 3 = unat n"
proof -
  let ?s = "\<lambda>d. Some [\<lparr>mr_start = 0x10000, mr_end = 0x15000, mr_bitmap = \<lparr>bv_size = 5, bv_data = [d]\<rparr>\<rparr>]"
  have ok: "bfa_ok (?s 0xE1)" by (simp add: bfa_ok_def region_ok_def bitmap_ok_def regions_apart_def)
  have "bfa_alloc x86_doc (?s 0xE1) 3 = Inr (Inr \<lparr>fr_start = 0x11000, fr_count = 3\<rparr>, ?s 0xEF)"
    by (simp add: bfa_eval)
  from bfa_free_frames_exact[OF ok x86_ok_doc this] show ?thesis by auto
qed

end
