(* ===== verification/Init_Alloc.thy ===== *)
theory Init_Alloc
  imports Allocator
begin

text \<open>
  Correctness of \<open>BitmapFrameAllocator::init\<close> (src/src/memory/bitmap.rs). Under what the Limine
  protocol guarantees of usable memory-map entries (\<open>memmap_ok\<close>), initialisation succeeds as
  soon as one usable entry can host the metadata; every usable frame is then free, apart from
  the frames of the metadata, and the metadata lies inside those frames.
\<close>

definition usable :: "mm_entry list \<Rightarrow> mm_entry list" where
  "usable = filter me_usable"

definition entry_frames :: "mm_entry \<Rightarrow> nat" where
  "entry_frames e = unat (me_length e) div 4096"

text \<open>
  The Limine protocol: usable entries are aligned to 4096 bytes in base and length and do not
  overlap; they are physical addresses.
\<close>

definition memmap_ok :: "mm_entry list \<Rightarrow> bool" where
  "memmap_ok es \<longleftrightarrow>
     list_all (\<lambda>e. unat (me_base e) mod 4096 = 0 \<and> unat (me_length e) mod 4096 = 0 \<and>
       unat (me_base e) + unat (me_length e) < 2 ^ 52) (usable es) \<and>
     sorted_wrt (\<lambda>e f. unat (me_base e) + unat (me_length e) \<le> unat (me_base f) \<or>
       unat (me_base f) + unat (me_length f) \<le> unat (me_base e)) (usable es)"

text \<open>The size of the metadata block, and whether entry \<open>i\<close> is the first that can host it.\<close>

definition meta_size :: "usize \<Rightarrow> mm_entry list \<Rightarrow> nat" where
  "meta_size region_sz es =
     sum_list (map (\<lambda>e. (entry_frames e + 7) div 8) (usable es)) + length (usable es) * unat region_sz"

definition hosts :: "usize \<Rightarrow> mm_entry list \<Rightarrow> nat \<Rightarrow> bool" where
  "hosts region_sz es i \<longleftrightarrow> i < length (usable es) \<and>
     meta_size region_sz es \<le> unat (me_length (usable es ! i)) \<and>
     (\<forall>j < i. unat (me_length (usable es ! j)) < meta_size region_sz es)"

text \<open>The frames of the usable entries, and those the metadata takes in entry \<open>e\<close>.\<close>

definition usable_frames :: "mm_entry list \<Rightarrow> nat set" where
  "usable_frames es = (\<Union>e \<in> set (usable es). (\<lambda>i. unat (me_base e) + 4096 * i) ` {..<entry_frames e})"

definition meta_frames :: "usize \<Rightarrow> mm_entry list \<Rightarrow> mm_entry \<Rightarrow> nat set" where
  "meta_frames region_sz es e =
     (\<lambda>i. unat (me_base e) + 4096 * i) ` {..<(meta_size region_sz es + 4095) div 4096}"

text \<open>What the inner loop places in memory, and a region as it is once its bitmap is zeroed.\<close>

definition raw_region :: "(u64 \<Rightarrow> u8) \<Rightarrow> mm_entry \<Rightarrow> u64 \<Rightarrow> memory_region" where
  "raw_region mem e a = \<lparr>mr_start = me_base e, mr_end = me_base e + me_length e,
     mr_bitmap = bitmap_new (me_length e div FRAME_SIZE) (raw_parts mem a (bitmap_bytes e))\<rparr>"

fun place :: "(u64 \<Rightarrow> u8) \<Rightarrow> usize \<Rightarrow> mm_entry list \<Rightarrow> u64 \<Rightarrow> u64 \<Rightarrow> placed list" where
  "place mem region_sz [] a b = []"
| "place mem region_sz (e # es) a b =
     \<lparr>pl_addr = a, pl_bitmap = b, pl_region = raw_region mem e b\<rparr> #
     place mem region_sz es (a + region_sz) (b + bitmap_bytes e)"

definition fresh_region :: "mm_entry \<Rightarrow> memory_region" where
  "fresh_region e = \<lparr>mr_start = me_base e, mr_end = me_base e + me_length e,
     mr_bitmap = \<lparr>bv_size = me_length e div FRAME_SIZE, bv_data = replicate (unat (bitmap_bytes e)) 0\<rparr>\<rparr>"

section \<open>Sizes\<close>

lemma unat_frames: "unat (me_length e div FRAME_SIZE) = entry_frames e"
  by (simp add: unat_div FRAME_SIZE_def entry_frames_def)

lemma unat_bitmap_bytes: "unat (bitmap_bytes e) = (entry_frames e + 7) div 8"
  by (simp add: bitmap_bytes_def unat_div_ceil unat_frames)

lemma init_sizes_eq:
  "init_sizes es (a, b) =
     (a + sum_list (map bitmap_bytes (usable es)), b + word_of_nat (length (usable es)))"
  by (induction es arbitrary: a b) (auto simp: usable_def algebra_simps)

lemma unat_initial_size:
  assumes "meta_size region_sz es < 18446744073709551616"
  shows "unat (sum_list (map bitmap_bytes (usable es)) + word_of_nat (length (usable es)) * region_sz) =
    meta_size region_sz es"
proof (cases "region_sz = 0")
  case True
  then show ?thesis
    using assms unat_sum_list_u64[of bitmap_bytes "usable es"] by (simp add: meta_size_def unat_bitmap_bytes)
next
  case False
  then have "1 \<le> unat region_sz" using unat_gt_0 by (metis Suc_leI One_nat_def)
  then have "length (usable es) \<le> length (usable es) * unat region_sz" by simp
  then have "length (usable es) < 18446744073709551616"
    using assms unfolding meta_size_def by linarith
  then have "unat (word_of_nat (length (usable es)) :: usize) = length (usable es)"
    by (rule unat_of_nat_u64)
  then show ?thesis
    using assms unat_sum_list_u64[of bitmap_bytes "usable es"]
    by (simp add: meta_size_def unat_bitmap_bytes word_nat)
qed

section \<open>The loops\<close>

lemma init_regions_place:
  assumes "x86_ok X" "memmap_ok es"
  shows "init_regions X mem region_sz es a b = Inr (place mem region_sz (usable es) a b)"
proof -
  have "\<forall>e \<in> set (usable es). unat (me_base e) + unat (me_length e) < 2 ^ 52"
    using assms(2) by (auto simp: memmap_ok_def list_all_iff)
  then show ?thesis
  proof (induction es arbitrary: a b)
    case (Cons e es)
    show ?case
    proof (cases "me_usable e")
      case True
      with Cons.prems have "unat (me_base e) + unat (me_length e) < 2 ^ 52" by (simp add: usable_def)
      moreover from this have "unat (me_base e + me_length e) < 2 ^ 52" by (simp add: word_nat)
      ultimately have "region_new X (me_base e) (me_length e) d =
          Inr \<lparr>mr_start = me_base e, mr_end = me_base e + me_length e,
            mr_bitmap = bitmap_new (me_length e div FRAME_SIZE) d\<rparr>" for d
        using assms(1) by (simp add: region_new_def x86_ok_simps)
      moreover have "init_regions X mem region_sz es a' b' = Inr (place mem region_sz (usable es) a' b')" for a' b'
        using Cons True by (simp add: usable_def)
      ultimately show ?thesis using True by (simp add: usable_def raw_region_def)
    next
      case False
      with Cons show ?thesis by (simp add: usable_def)
    qed
  qed (simp add: usable_def)
qed

lemma zero_place: "map (zero_bitmap \<circ> pl_region) (place mem region_sz us a b) = map fresh_region us"
proof (induction us arbitrary: a b)
  case (Cons e us)
  have "zero_bitmap (raw_region mem e b) = fresh_region e"
    by (simp add: zero_bitmap_def raw_region_def bitmap_new_def raw_parts_def fresh_region_def
        map_replicate_const)
  with Cons show ?case by simp
qed simp

lemma length_place [simp]: "length (place mem region_sz us a b) = length us"
  by (induction us arbitrary: a b) auto


lemma init_find_host:
  assumes "i < length (usable rest)" "initial \<le> me_length (usable rest ! i)"
    and "\<forall>j < i. me_length (usable rest ! j) < initial"
  shows "init_find X mem region_sz hhdm es initial n fn rest ri =
    init_at X mem region_sz hhdm es (usable rest ! i) (ri + word_of_nat i) n fn"
  using assms
proof (induction rest arbitrary: i ri)
  case (Cons e rest)
  show ?case
  proof (cases "me_usable e")
    case u: True
    show ?thesis
    proof (cases i)
      case 0
      with Cons.prems u show ?thesis by (simp add: usable_def)
    next
      case (Suc m)
      have "\<not> initial \<le> me_length e" using Cons.prems(3)[rule_format, of 0] Suc u by (simp add: usable_def)
      moreover have "init_find X mem region_sz hhdm es initial n fn rest (ri + 1) =
          init_at X mem region_sz hhdm es (usable rest ! m) (ri + 1 + word_of_nat m) n fn"
      proof (rule Cons.IH)
        show "\<forall>j < m. me_length (usable rest ! j) < initial"
        proof (intro allI impI)
          fix j assume "j < m"
          then show "me_length (usable rest ! j) < initial"
            using Cons.prems(3)[rule_format, of "Suc j"] Suc u by (simp add: usable_def)
        qed
      qed (use Cons.prems Suc u in \<open>simp_all add: usable_def\<close>)
      ultimately show ?thesis using Suc u by (simp add: usable_def algebra_simps)
    qed
  next
    case False
    with Cons show ?thesis by (simp add: usable_def)
  qed
qed (simp add: usable_def)

lemma init_find_none:
  "\<forall>e \<in> set (usable rest). me_length e < initial \<Longrightarrow>
     init_find X mem region_sz hhdm es initial n fn rest ri = Inl (Panicked ''didn't find space for frame allocator data'')"
  by (induction rest arbitrary: ri) (auto simp: usable_def)

section \<open>Fresh regions\<close>

lemma fresh_region_simps [simp]:
  "mr_start (fresh_region e) = me_base e" "mr_end (fresh_region e) = me_base e + me_length e"
  "region_size (fresh_region e) = entry_frames e"
  by (simp_all add: fresh_region_def region_size_def unat_frames)

lemma used_fresh: "i < entry_frames e \<Longrightarrow> \<not> used (mr_bitmap (fresh_region e)) i"
  by (simp add: used_def fresh_region_def unat_bitmap_bytes)

lemma region_ok_fresh:
  assumes "unat (me_base e) mod 4096 = 0" "unat (me_base e) + unat (me_length e) < 2 ^ 52"
  shows "region_ok (fresh_region e)"
proof -
  have "unat (me_base e + me_length e) = unat (me_base e) + unat (me_length e)"
    using assms(2) by (simp add: word_nat)
  moreover have "4096 * entry_frames e \<le> unat (me_length e)" by (simp add: entry_frames_def)
  moreover have "entry_frames e \<le> 8 * ((entry_frames e + 7) div 8)" by simp
  ultimately show ?thesis
    using assms by (simp add: region_ok_def bitmap_ok_def fresh_region_def unat_frames unat_bitmap_bytes)
qed

lemma bfa_ok_fresh:
  assumes "memmap_ok es"
  shows "bfa_ok (Some (map fresh_region (usable es)))"
proof -
  have all: "\<forall>e \<in> set (usable es). unat (me_base e) mod 4096 = 0 \<and> unat (me_base e) + unat (me_length e) < 2 ^ 52"
    using assms by (auto simp: memmap_ok_def list_all_iff)
  then have e: "\<forall>e \<in> set (usable es). unat (me_base e + me_length e) = unat (me_base e) + unat (me_length e)"
    by (auto simp: word_nat)
  have "sorted_wrt (\<lambda>e f. unat (me_base e + me_length e) \<le> unat (me_base f) \<or>
      unat (me_base f + me_length f) \<le> unat (me_base e)) (usable es)"
    using assms e unfolding memmap_ok_def
    by (intro sorted_wrt_mono_rel[of "usable es", rotated, OF conjunct2]) auto
  then show ?thesis
    using all by (auto simp: bfa_ok_def list_all_iff regions_apart_def sorted_wrt_map intro: region_ok_fresh)
qed

lemma bfa_free_fresh: "bfa_free (Some (map fresh_region (usable es))) = usable_frames es"
proof -
  have "region_free (fresh_region e) = (\<lambda>i. unat (me_base e) + 4096 * i) ` {..<entry_frames e}" for e
    using used_fresh[of _ e] by (auto simp: region_free_def frame_at_def)
  then show ?thesis by (simp add: bfa_free_def usable_frames_def)
qed

section \<open>Initialisation succeeds\<close>

lemma init_at_host:
  assumes X: "x86_ok X" and mm: "memmap_ok es" and i: "i < length (usable es)"
    and meta: "0 < m" "m \<le> unat (me_length (usable es ! i))"
    and fn: "unat fn = (m + 4095) div 4096" and small: "i < 18446744073709551616"
  obtains rs where
    "init_at X mem region_sz hhdm es (usable es ! i) (word_of_nat i) n fn = Inr rs" "bfa_ok (Some rs)"
    "bfa_free (Some rs) = usable_frames es - (\<lambda>k. unat (me_base (usable es ! i)) + 4096 * k) ` {..<(m + 4095) div 4096}"
    "map mr_start rs = map me_base (usable es)"
    "map mr_end rs = map (\<lambda>e. me_base e + me_length e) (usable es)"
proof -
  let ?e = "usable es ! i" and ?regs = "map fresh_region (usable es)"
  have e: "unat (me_base ?e) mod 4096 = 0" "unat (me_length ?e) mod 4096 = 0"
      "unat (me_base ?e) + unat (me_length ?e) < 2 ^ 52"
    using mm i by (auto simp: memmap_ok_def list_all_length)
  let ?fr = "\<lparr>fr_start = me_base ?e, fr_count = fn\<rparr>"
  have "unat (me_length ?e) = 4096 * entry_frames ?e" using e(2) by (auto simp: entry_frames_def)
  then have "(m + 4095) div 4096 \<le> (4096 * entry_frames ?e + 4095) div 4096"
    using meta(2) by (intro div_le_mono) simp
  then have "(m + 4095) div 4096 \<le> entry_frames ?e" by simp
  moreover have "0 < (m + 4095) div 4096" using meta(1) by simp
  ultimately have sz: "0 < entry_frames ?e" "0 + unat (fr_count ?fr) \<le> region_size (fresh_region ?e)"
    using fn by auto
  have ok: "region_ok (fresh_region ?e)" using e by (intro region_ok_fresh)
  obtain r' where r': "region_reserve (fresh_region ?e) ?fr = Inr r'"
      "region_shape r' = region_shape (fresh_region ?e)"
      "\<And>j. used (mr_bitmap r') j \<longleftrightarrow> used (mr_bitmap (fresh_region ?e)) j \<or> j \<in> {0 ..< 0 + unat (fr_count ?fr)}"
    using region_reserve_ok[OF ok, of ?fr 0] sz by (auto simp: frame_at_def)
  have ui: "unat (word_of_nat i :: usize) = i" using small by (simp add: word_nat)
  have init: "init_at X mem region_sz hhdm es ?e (word_of_nat i) n fn = Inr (?regs[i := r'])"
    using X e r'(1) i ui
    by (simp add: init_at_def Let_def init_regions_place[OF X mm] zero_place x86_ok_simps frame_range_new_def)
  have okf: "bfa_ok (Some ?regs)" using mm by (rule bfa_ok_fresh)
  have i': "i < length ?regs" and sh: "region_shape r' = region_shape (?regs ! i)" using i r'(2) by auto
  have S: "frame_at (fresh_region ?e) ` {0 ..< 0 + unat (fr_count ?fr)} =
      (\<lambda>k. unat (me_base ?e) + 4096 * k) ` {..<(m + 4095) div 4096}"
    using fn by (auto simp: frame_at_def)
  have "region_free r' = region_free (?regs ! i) - frame_at (fresh_region ?e) ` {0 ..< 0 + unat (fr_count ?fr)}"
    using region_free_update[OF r'(2,3)] i by simp
  moreover have "frame_at (fresh_region ?e) ` {0 ..< 0 + unat (fr_count ?fr)} \<subseteq> region_frames (?regs ! i)"
    using sz i by (auto simp: region_frames_def)
  moreover have "bfa_free (Some ?regs) = (bfa_free (Some ?regs) - region_frames (?regs ! i)) \<union> region_free (?regs ! i)"
    using bfa_free_update[OF okf i' refl] by simp
  ultimately have "bfa_free (Some (?regs[i := r'])) =
      bfa_free (Some ?regs) - frame_at (fresh_region ?e) ` {0 ..< 0 + unat (fr_count ?fr)}"
    using bfa_free_update[OF okf i' sh] by blast
  moreover have "map mr_start (?regs[i := r']) = map me_base (usable es)"
    using region_shape_eqD(1)[OF r'(2)] i by (simp add: list_eq_iff_nth_eq nth_list_update)
  moreover have "map mr_end (?regs[i := r']) = map (\<lambda>e. me_base e + me_length e) (usable es)"
    using region_shape_eqD(2)[OF r'(2)] i by (simp add: list_eq_iff_nth_eq nth_list_update)
  ultimately show thesis
    using that[OF init] bfa_update(1)[OF okf i' sh] S by (simp add: bfa_free_fresh)
qed

lemma bfa_init_host:
  assumes "x86_ok X" "memmap_ok es" "region_sz \<noteq> 0" "hosts region_sz es i"
  shows "\<exists>rs. bfa_init X mem region_sz (Some es) (Some hhdm) bfa_new = Inr (Some rs) \<and>
    bfa_ok (Some rs) \<and>
    bfa_free (Some rs) = usable_frames es - meta_frames region_sz es (usable es ! i) \<and>
    map mr_start rs = map me_base (usable es) \<and>
    map mr_end rs = map (\<lambda>e. me_base e + me_length e) (usable es)"
proof -
  let ?m = "meta_size region_sz es"
  have i: "i < length (usable es)" "?m \<le> unat (me_length (usable es ! i))"
      "\<forall>j < i. unat (me_length (usable es ! j)) < ?m"
    using assms(4) by (auto simp: hosts_def)
  have "0 < unat region_sz" using assms(3) by (simp add: unat_gt_0)
  then have m0: "0 < ?m" using i(1) by (auto simp: meta_size_def)
  have m: "?m < 18446744073709551616" using i(2) u64_bound[of "me_length (usable es ! i)"] by linarith
  have "length (usable es) * 1 \<le> length (usable es) * unat region_sz"
    using \<open>0 < unat region_sz\<close> by (intro mult_le_mono2) simp
  then have small: "i < 18446744073709551616" using i(1) m unfolding meta_size_def by linarith
  obtain n initial where ns: "init_sizes es (0, 0) = (initial - n * region_sz, n)"
      and ini: "unat initial = ?m"
    using unat_initial_size[OF m] init_sizes_eq[of es 0 0]
    by (metis (no_types, lifting) add_0 add_diff_cancel_right')
  have fn: "unat (div_ceil initial FRAME_SIZE) = (?m + 4095) div 4096"
    using ini by (simp add: unat_div_ceil FRAME_SIZE_def)
  obtain rs where rs: "init_at X mem region_sz hhdm es (usable es ! i) (word_of_nat i) n (div_ceil initial FRAME_SIZE) = Inr rs"
      "bfa_ok (Some rs)"
      "bfa_free (Some rs) = usable_frames es - (\<lambda>k. unat (me_base (usable es ! i)) + 4096 * k) ` {..<(?m + 4095) div 4096}"
      "map mr_start rs = map me_base (usable es)"
      "map mr_end rs = map (\<lambda>e. me_base e + me_length e) (usable es)"
    by (rule init_at_host[OF assms(1,2) i(1) m0 i(2) fn small, of mem region_sz hhdm n])
  have "init_find X mem region_sz hhdm es initial n (div_ceil initial FRAME_SIZE) es 0 = Inr rs"
    using init_find_host[of i es initial X mem region_sz hhdm es n _ 0] i ini rs(1)
    by (simp add: word_le_nat_alt word_less_nat_alt)
  then have "bfa_init X mem region_sz (Some es) (Some hhdm) bfa_new = Inr (Some rs)"
    by (simp add: bfa_init_def ns bfa_new_def)
  with rs show ?thesis by (auto simp: meta_frames_def)
qed

text \<open>
  C8. Initialisation is correct. On a memory map as Limine guarantees it, if usable entry
  \<open>i\<close> is the first that can host the metadata, \<open>init\<close> succeeds and establishes the allocator's
  invariant; the free frames are exactly the frames of the usable entries without the frames
  of the metadata block at the start of entry \<open>i\<close>, and there is one region per usable entry.
\<close>

theorem bfa_init_correct:
  assumes "x86_ok X" "memmap_ok es" "region_sz \<noteq> 0" "hosts region_sz es i"
  shows "\<exists>rs. bfa_init X mem region_sz (Some es) (Some hhdm) bfa_new = Inr (Some rs) \<and>
    bfa_ok (Some rs) \<and>
    bfa_free (Some rs) = usable_frames es - meta_frames region_sz es (usable es ! i) \<and>
    map mr_start rs = map me_base (usable es)"
  using bfa_init_host[OF assms] by blast

theorem bfa_init_correct_witness:
  "\<exists>rs. bfa_init x86_doc (\<lambda>_. 255) 40
       (Some [\<lparr>me_base = 0x1000, me_length = 0x1000, me_usable = False\<rparr>,
              \<lparr>me_base = 0x10000, me_length = 0x3000, me_usable = True\<rparr>])
       (Some 0xffff800000000000) bfa_new = Inr (Some rs) \<and>
     bfa_free (Some rs) = {0x11000, 0x12000}"
proof -
  let ?es = "[\<lparr>me_base = 0x1000, me_length = 0x1000, me_usable = False\<rparr>,
              \<lparr>me_base = 0x10000, me_length = 0x3000, me_usable = True\<rparr>]"
  have mm: "memmap_ok ?es" and h: "hosts 40 ?es 0"
    by (simp_all add: memmap_ok_def hosts_def usable_def meta_size_def entry_frames_def)
  have "usable_frames ?es = {0x10000, 0x11000, 0x12000}"
    by (simp add: usable_frames_def usable_def entry_frames_def lessThan_nat_numeral lessThan_Suc insert_commute)
  moreover have "meta_frames 40 ?es (usable ?es ! 0) = {0x10000}"
    by (simp add: meta_frames_def usable_def meta_size_def entry_frames_def lessThan_Suc)
  ultimately have "usable_frames ?es - meta_frames 40 ?es (usable ?es ! 0) = {0x11000, 0x12000}"
    by simp
  with bfa_init_correct[OF x86_ok_doc mm _ h, of "\<lambda>_. 255" "0xffff800000000000"]
  show ?thesis by auto
qed

text \<open>
  C28. When no usable entry can host the metadata, \<open>init\<close> panics instead of placing the
  metadata where it does not fit.
\<close>

theorem bfa_init_no_space:
  assumes "meta_size region_sz es < 2 ^ 64"
    and "\<forall>e \<in> set (usable es). unat (me_length e) < meta_size region_sz es"
  shows "bfa_init X mem region_sz (Some es) (Some hhdm) slot =
    Inl (Panicked ''didn't find space for frame allocator data'')"
proof -
  let ?ini = "sum_list (map bitmap_bytes (usable es)) + word_of_nat (length (usable es)) * region_sz"
  have "unat ?ini = meta_size region_sz es" using assms(1) by (intro unat_initial_size) simp
  then have "\<forall>e \<in> set (usable es). me_length e < ?ini" using assms(2) by (simp add: word_less_nat_alt)
  then show ?thesis by (simp add: bfa_init_def init_sizes_eq init_find_none)
qed

theorem bfa_init_no_space_witness:
  "bfa_init x86_doc (\<lambda>_. 0) 5000 (Some [\<lparr>me_base = 0x1000, me_length = 0x1000, me_usable = True\<rparr>])
     (Some 0) bfa_new = Inl (Panicked ''didn't find space for frame allocator data'')"
  by (rule bfa_init_no_space) (simp_all add: meta_size_def usable_def entry_frames_def)

text \<open>
  C29. A second initialisation never succeeds: once the allocator has regions, \<open>init\<close> panics
  whatever the bootloader reports.
\<close>

theorem bfa_init_once: "\<exists>p. bfa_init X mem region_sz mm_resp hhdm_resp (Some rs) = Inl p"
proof -
  have "bind_res m (\<lambda>r. bind_res (assert_res (Some rs = None)) (f r)) \<noteq> Inr s"
    for m :: "memory_region list res" and f and s :: bitmap_frame_allocator
    by (cases m) simp_all
  then have "bfa_init X mem region_sz mm_resp hhdm_resp (Some rs) \<noteq> Inr s" for s
    by (cases mm_resp; cases hhdm_resp) (simp_all add: bfa_init_def split_beta Let_def)
  then show ?thesis by (metis obj_sumE)
qed



end
