(* ===== verification/Memory.thy ===== *)
theory Memory
  imports Init_Alloc
begin

text \<open>
  The kernel's physical memory interface (src/src/memory/mod.rs): the global frame allocator,
  the offset of the higher-half direct map, and the functions the rest of the kernel calls.
  The functions keep the allocator's contract, so the global allocator is an instance of
  \<open>frame_allocator\<close> as well.
\<close>

record memory_state =
  FRAME_ALLOCATOR :: bitmap_frame_allocator
  HHDM_OFFSET :: u64

definition memory_start :: memory_state where
  "memory_start = \<lparr>FRAME_ALLOCATOR = bfa_new, HHDM_OFFSET = 0\<rparr>"

definition memory_init ::
  "x86_crate \<Rightarrow> (u64 \<Rightarrow> u8) \<Rightarrow> usize \<Rightarrow> mm_entry list option \<Rightarrow> u64 option \<Rightarrow> memory_state \<Rightarrow> memory_state res" where
  "memory_init X mem region_sz mm_resp hhdm_resp m =
     bind_res (expect_some UnwrapFailed hhdm_resp) (\<lambda>offset.
     let m' = m\<lparr>HHDM_OFFSET := offset\<rparr> in
     bind_res (bfa_init X mem region_sz mm_resp hhdm_resp (FRAME_ALLOCATOR m')) (\<lambda>a.
     Inr (m'\<lparr>FRAME_ALLOCATOR := a\<rparr>)))"

definition alloc_frames :: "x86_crate \<Rightarrow> memory_state alloc_fn" where
  "alloc_frames X m count =
     bind_res (bfa_alloc X (FRAME_ALLOCATOR m) count) (\<lambda>(r, a). Inr (r, m\<lparr>FRAME_ALLOCATOR := a\<rparr>))"

definition alloc_frame :: "x86_crate \<Rightarrow> memory_state \<Rightarrow> ((frame_alloc_error + frame) \<times> memory_state) res" where
  "alloc_frame X m =
     bind_res (alloc_one X (bfa_alloc X) (FRAME_ALLOCATOR m)) (\<lambda>(r, a). Inr (r, m\<lparr>FRAME_ALLOCATOR := a\<rparr>))"

definition dealloc_frames :: "memory_state dealloc_fn" where
  "dealloc_frames m frames =
     bind_res (bfa_dealloc (FRAME_ALLOCATOR m) frames) (\<lambda>a. Inr (m\<lparr>FRAME_ALLOCATOR := a\<rparr>))"

definition dealloc_frame :: "x86_crate \<Rightarrow> memory_state \<Rightarrow> frame \<Rightarrow> memory_state res" where
  "dealloc_frame X m f =
     bind_res (dealloc_one X bfa_dealloc (FRAME_ALLOCATOR m) f) (\<lambda>a. Inr (m\<lparr>FRAME_ALLOCATOR := a\<rparr>))"

definition total_frames :: "memory_state \<Rightarrow> usize" where
  "total_frames m = bfa_total_frames (FRAME_ALLOCATOR m)"

definition free_frames :: "memory_state \<Rightarrow> usize res" where
  "free_frames m = bfa_free_frames (FRAME_ALLOCATOR m)"

definition phys_to_virt :: "x86_crate \<Rightarrow> memory_state \<Rightarrow> u64 \<Rightarrow> u64 res" where
  "phys_to_virt X m addr = expect_some AddrInvalid (virt_new X (addr + HHDM_OFFSET m))"

definition virt_to_phys :: "x86_crate \<Rightarrow> memory_state \<Rightarrow> u64 \<Rightarrow> u64 res" where
  "virt_to_phys X m addr = expect_some AddrInvalid (phys_new X (addr - HHDM_OFFSET m))"

section \<open>The global allocator keeps the contract\<close>

definition mem_free :: "memory_state \<Rightarrow> nat set" where
  "mem_free m = bfa_free (FRAME_ALLOCATOR m)"

definition mem_holds :: "memory_state \<Rightarrow> frame_range \<Rightarrow> bool" where
  "mem_holds m = bfa_holds (FRAME_ALLOCATOR m)"

text \<open>
  The direct map covers every frame the allocator manages: its offset is in the canonical
  upper half and no managed address wraps around.
\<close>

definition hhdm_ok :: "u64 \<Rightarrow> bool" where
  "hhdm_ok off \<longleftrightarrow> 2 ^ 64 - 2 ^ 47 \<le> unat off \<and> unat off mod 4096 = 0"

definition mem_ok :: "memory_state \<Rightarrow> bool" where
  "mem_ok m \<longleftrightarrow> bfa_ok (FRAME_ALLOCATOR m) \<and> hhdm_ok (HHDM_OFFSET m) \<and>
     list_all (\<lambda>r. unat (mr_end r) + unat (HHDM_OFFSET m) < 2 ^ 64) (bfa_regions (FRAME_ALLOCATOR m))"

lemma mem_ok_allocator:
  assumes "mem_ok m" "bfa_ok a"
    and "map region_shape (bfa_regions a) = map region_shape (bfa_regions (FRAME_ALLOCATOR m))"
  shows "mem_ok (m\<lparr>FRAME_ALLOCATOR := a\<rparr>)"
proof -
  have "map mr_end (bfa_regions a) = map mr_end (bfa_regions (FRAME_ALLOCATOR m))"
    using arg_cong[OF assms(3), of "map (\<lambda>(_, e, _). e)"] by (simp add: region_shape_def comp_def)
  then have "mr_end ` set (bfa_regions a) = mr_end ` set (bfa_regions (FRAME_ALLOCATOR m))"
    by (metis list.set_map)
  moreover have "\<forall>e \<in> mr_end ` set (bfa_regions (FRAME_ALLOCATOR m)). unat e + unat (HHDM_OFFSET m) < 2 ^ 64"
    using assms(1) by (simp add: mem_ok_def list_all_iff)
  ultimately have "\<forall>e \<in> mr_end ` set (bfa_regions a). unat e + unat (HHDM_OFFSET m) < 2 ^ 64" by metis
  then show ?thesis using assms(1,2) by (simp add: mem_ok_def list_all_iff)
qed

lemma bfa_alloc_shape:
  assumes "bfa_ok s" "x86_ok X" "bfa_alloc X s n = Inr (r, s')"
  shows "map region_shape (bfa_regions s') = map region_shape (bfa_regions s)"
  using assms(1,2)
proof (cases rule: bfa_alloc_cases[where count = n])
  case (found rs i k fr r')
  then have "i < length rs" "region_shape r' = region_shape (rs ! i)" by (auto simp: taken_from_def)
  from list_update_shape[OF this] show ?thesis using found assms(3) by auto
qed (use assms(3) in auto)

lemma bfa_dealloc_shape:
  "bfa_dealloc s fr = Inr s' \<Longrightarrow> map region_shape (bfa_regions s') = map region_shape (bfa_regions s)"
  by (cases s) (auto simp: bfa_dealloc_def res_iff dest: regions_dealloc_shape)

lemmas mem_fun_defs = alloc_frames_def dealloc_frames_def mem_free_def mem_holds_def

interpretation mem: frame_allocator "alloc_frames X" dealloc_frames mem_free mem_holds
  "\<lambda>m. x86_ok X \<and> mem_ok m" for X
proof (unfold_locales, goal_cases)
  case (1 m n)
  then show ?case
    using bfa.alloc_returns[of X "FRAME_ALLOCATOR m" n] by (fastforce simp: mem_fun_defs mem_ok_def)
next
  case (2 m n rg m')
  then obtain a where a: "bfa_alloc X (FRAME_ALLOCATOR m) n = Inr (Inr rg, a)" "m' = m\<lparr>FRAME_ALLOCATOR := a\<rparr>"
    by (auto simp: alloc_frames_def res_iff)
  have ok: "bfa_ok (FRAME_ALLOCATOR m)" "x86_ok X" using 2 by (auto simp: mem_ok_def)
  have "mem_ok m'"
    using mem_ok_allocator[of m a] 2 a bfa.alloc_ok[of X _ n rg a] bfa_alloc_shape[OF ok a(1)] ok by simp
  then show ?case
    using bfa.alloc_ok[of X "FRAME_ALLOCATOR m" n rg a] ok a by (simp add: mem_fun_defs)
next
  case (3 m n e m')
  then show ?case
    using bfa.alloc_err[of X "FRAME_ALLOCATOR m" n e] by (auto simp: alloc_frames_def res_iff mem_ok_def)
next
  case (4 m e m')
  then show ?case
    using bfa.alloc_one_err[of X "FRAME_ALLOCATOR m" e] by (auto simp: mem_fun_defs res_iff mem_ok_def)
next
  case (5 m rg)
  then obtain a where a: "bfa_dealloc (FRAME_ALLOCATOR m) rg = Inr a" "bfa_ok a"
      "bfa_free a = bfa_free (FRAME_ALLOCATOR m) \<union> frames_of rg"
    using bfa.dealloc_ok[of X "FRAME_ALLOCATOR m" rg] by (auto simp: mem_ok_def mem_holds_def)
  have "mem_ok (m\<lparr>FRAME_ALLOCATOR := a\<rparr>)"
    using mem_ok_allocator[of m a] 5 a bfa_dealloc_shape[OF a(1)] by simp
  then show ?case using a 5 by (simp add: mem_fun_defs)
next
  case (6 m n r m')
  then show ?case
    using bfa.holds_alloc[of X "FRAME_ALLOCATOR m" n r] by (auto simp: mem_fun_defs res_iff mem_ok_def)
next
  case (7 m rg m')
  then show ?case by (auto simp: mem_fun_defs res_iff dest: bfa_holds_dealloc)
qed

text \<open>\<open>alloc_frame\<close> and \<open>dealloc_frame\<close> are the trait's default methods on the global allocator.\<close>

lemma alloc_frame_eq: "alloc_frame X m = alloc_one X (alloc_frames X) m"
  by (cases "bfa_alloc X (FRAME_ALLOCATOR m) 1")
    (auto simp: alloc_frame_def alloc_one_def alloc_frames_def frame_new_def assert_res_def split: sum.splits)

lemma dealloc_frame_eq: "dealloc_frame X m f = dealloc_one X dealloc_frames m f"
  by (auto simp: dealloc_frame_def dealloc_one_def dealloc_frames_def frame_range_new_def assert_res_def)

lemma alloc_frames_hhdm: "alloc_frames X m n = Inr (r, m') \<Longrightarrow> HHDM_OFFSET m' = HHDM_OFFSET m"
  by (auto simp: alloc_frames_def res_iff)

section \<open>Initialisation and address translation\<close>

lemma memory_init_ok:
  assumes "x86_ok X" "memmap_ok es" "region_sz \<noteq> 0" "hosts region_sz es i" "hhdm_ok hhdm"
    and fits: "\<forall>e \<in> set (usable es). unat (me_base e) + unat (me_length e) + unat hhdm < 2 ^ 64"
  shows "\<exists>m. memory_init X mem region_sz (Some es) (Some hhdm) memory_start = Inr m \<and> mem_ok m \<and>
    HHDM_OFFSET m = hhdm \<and> mem_free m = usable_frames es - meta_frames region_sz es (usable es ! i)"
proof -
  obtain rs where rs: "bfa_init X mem region_sz (Some es) (Some hhdm) bfa_new = Inr (Some rs)" "bfa_ok (Some rs)"
      "bfa_free (Some rs) = usable_frames es - meta_frames region_sz es (usable es ! i)"
      "map mr_end rs = map (\<lambda>e. me_base e + me_length e) (usable es)"
    using bfa_init_host[OF assms(1-4)] by blast
  have "\<forall>a \<in> set (map mr_end rs). unat a + unat hhdm < 2 ^ 64"
    unfolding rs(4) using fits by (auto simp: word_nat)
  then have "mem_ok \<lparr>FRAME_ALLOCATOR = Some rs, HHDM_OFFSET = hhdm\<rparr>"
    using rs(2) assms(5) by (simp add: mem_ok_def list_all_iff)
  with rs(1,3) show ?thesis by (simp add: memory_init_def memory_start_def mem_free_def)
qed

lemma phys_to_virt_hhdm:
  assumes "x86_ok X" "hhdm_ok (HHDM_OFFSET m)" "unat a + unat (HHDM_OFFSET m) < 2 ^ 64"
  shows "phys_to_virt X m a = Inr (a + HHDM_OFFSET m)"
    "unat (a + HHDM_OFFSET m) = unat a + unat (HHDM_OFFSET m)"
proof -
  show u: "unat (a + HHDM_OFFSET m) = unat a + unat (HHDM_OFFSET m)"
    using assms(3) by (simp add: word_nat)
  then have "canonical (a + HHDM_OFFSET m)" using assms(2) by (simp add: canonical_def hhdm_ok_def)
  then show "phys_to_virt X m a = Inr (a + HHDM_OFFSET m)"
    using assms(1) by (simp add: phys_to_virt_def x86_ok_simps)
qed

text \<open>Every range the allocator holds lies in the direct map.\<close>

lemma mem_holds_mapped:
  assumes "mem_ok m" "mem_holds m fr"
  shows "unat (fr_start fr) + 4096 * unat (fr_count fr) + unat (HHDM_OFFSET m) < 2 ^ 64"
    "unat (fr_start fr) + 4096 * unat (fr_count fr) < 2 ^ 52"
proof -
  obtain r where r: "r \<in> set (bfa_regions (FRAME_ALLOCATOR m))" "region_holds r fr"
    using assms(2) by (auto simp: mem_holds_def bfa_holds_def list_ex_iff)
  then have ok: "region_ok r" and e: "unat (mr_end r) + unat (HHDM_OFFSET m) < 2 ^ 64"
    using assms(1) by (auto simp: mem_ok_def bfa_ok_def list_all_iff)
  have "unat (fr_start fr) + 4096 * unat (fr_count fr) \<le> unat (mr_end r)"
    using r(2) region_ok_bounds(2)[OF ok] by (auto simp: region_holds_def frame_at_def)
  with e region_ok_bounds(3)[OF ok]
  show "unat (fr_start fr) + 4096 * unat (fr_count fr) + unat (HHDM_OFFSET m) < 2 ^ 64"
    "unat (fr_start fr) + 4096 * unat (fr_count fr) < 2 ^ 52" by auto
qed

text \<open>The pattern \<open>alloc_frame().map(|f| phys_to_virt(f.addr()))\<close> by which every page is obtained.\<close>

lemma alloc_page_cases:
  assumes X: "x86_ok X" and m: "mem_ok m"
  obtains (oom) e where "alloc_frame X m = Inr (Inl e, m)" "mem_free m = {}"
    | (ok) a m' where "alloc_frame X m = Inr (Inr (Frame a), m')" "mem_ok m'" "HHDM_OFFSET m' = HHDM_OFFSET m"
      "unat a mod 4096 = 0" "unat a \<in> mem_free m" "mem_free m' = mem_free m - {unat a}"
      "phys_to_virt X m' a = Inr (a + HHDM_OFFSET m)" "unat (a + HHDM_OFFSET m) = unat a + unat (HHDM_OFFSET m)"
      "canonical (a + HHDM_OFFSET m)" "unat a + unat (HHDM_OFFSET m) + 4096 < 2 ^ 64"
proof -
  have inv: "x86_ok X \<and> mem_ok m" using assms by simp
  from mem.alloc_one_spec[OF inv X] show thesis
  proof (elim disjE exE conjE)
    fix e assume "alloc_one X (alloc_frames X) m = Inr (Inl e, m)" "mem_free m = {}"
    then show thesis using oom by (simp add: alloc_frame_eq)
  next
    fix a m' assume a: "alloc_one X (alloc_frames X) m = Inr (Inr (Frame a), m')" "mem_ok m'"
      "unat a mod 4096 = 0" "unat a \<in> mem_free m" "mem_free m' = mem_free m - {unat a}"
      "mem_holds m' \<lparr>fr_start = a, fr_count = 1\<rparr>"
    obtain r m1 where al: "alloc_frames X m 1 = Inr (r, m1)" using mem.alloc_returns[OF inv] by blast
    have off: "HHDM_OFFSET m' = HHDM_OFFSET m"
      using a(1) al alloc_frames_hhdm[OF al] by (cases r) (auto simp: alloc_one_def res_iff)
    have b: "unat a + 4096 + unat (HHDM_OFFSET m) < 2 ^ 64" "hhdm_ok (HHDM_OFFSET m)"
      using mem_holds_mapped(1)[OF a(2,6)] off m by (simp_all add: mem_ok_def)
    have p: "phys_to_virt X m' a = Inr (a + HHDM_OFFSET m)"
        "unat (a + HHDM_OFFSET m) = unat a + unat (HHDM_OFFSET m)"
      using phys_to_virt_hhdm[OF X, of m' a] off b by auto
    have c: "canonical (a + HHDM_OFFSET m)" using p(2) b(2) by (simp add: canonical_def hhdm_ok_def)
    show thesis
      by (rule ok[of a m']) (use a off p c b in \<open>simp_all add: alloc_frame_eq\<close>)
  qed
qed

text \<open>
  C37. Address translation is a bijection between physical addresses and the direct map: for a
  physical address and a canonical virtual address, \<open>phys_to_virt\<close> gives the one exactly when
  \<open>virt_to_phys\<close> gives the other, whatever the offset.
\<close>

theorem phys_virt_inverse:
  assumes "x86_ok X" "unat a < 2 ^ 52" "canonical v"
  shows "phys_to_virt X m a = Inr v \<longleftrightarrow> virt_to_phys X m v = Inr a"
  using assms by (auto simp: phys_to_virt_def virt_to_phys_def x86_ok_simps res_iff split: if_splits)

theorem phys_virt_inverse_witness:
  "phys_to_virt x86_doc \<lparr>FRAME_ALLOCATOR = None, HHDM_OFFSET = 0xffff800000000000\<rparr> 0xfee00000 =
     Inr 0xffff8000fee00000 \<and>
   virt_to_phys x86_doc \<lparr>FRAME_ALLOCATOR = None, HHDM_OFFSET = 0xffff800000000000\<rparr> 0xffff8000fee00000 =
     Inr 0xfee00000"
proof -
  have "phys_to_virt x86_doc \<lparr>FRAME_ALLOCATOR = None, HHDM_OFFSET = 0xffff800000000000\<rparr> 0xfee00000 =
      Inr 0xffff8000fee00000"
    by (simp add: phys_to_virt_def x86_doc_def canonical_def)
  moreover have "unat (0xfee00000 :: u64) < 2 ^ 52" "canonical 0xffff8000fee00000"
    by (simp_all add: canonical_def)
  ultimately show ?thesis using phys_virt_inverse[OF x86_ok_doc] by blast
qed

end
