(* ===== verification/Queue.thy ===== *)
theory Queue
  imports Prelude
begin

text \<open>
  The fixed-capacity ring buffer of the scheduler (src/src/sched/thread.rs, \<open>Queue\<close>), with the
  contract of a bounded first-in first-out queue as the locale \<open>bounded_fifo\<close>. An
  uninitialised slot of the array is \<open>None\<close>; \<open>pop\<close> of such a slot would be undefined.
\<close>

record 'a queue =
  q_data :: "'a option list"
  q_head :: usize
  q_tail :: usize
  q_len :: usize

definition queue_new :: "'a queue" where
  "queue_new = \<lparr>q_data = replicate 256 None, q_head = 0, q_tail = 0, q_len = 0\<rparr>"

text \<open>The result of \<open>push\<close>: \<open>Inl\<close> gives the item back.\<close>

definition queue_push :: "'a queue \<Rightarrow> 'a \<Rightarrow> (('a + unit) \<times> 'a queue) res" where
  "queue_push q item =
     (if q_len q = 256 then Inr (Inl item, q)
      else bind_res (slice_set (q_data q) (q_tail q) (Some item)) (\<lambda>d.
        Inr (Inr (), q\<lparr>q_data := d, q_tail := (q_tail q + 1) mod 256, q_len := q_len q + 1\<rparr>)))"

definition queue_pop :: "'a queue \<Rightarrow> ('a option \<times> 'a queue) res" where
  "queue_pop q =
     (if q_len q = 0 then Inr (None, q)
      else bind_res (slice_get (q_data q) (q_head q)) (\<lambda>slot.
        bind_res (expect_some Undefined slot) (\<lambda>item.
        Inr (Some item, q\<lparr>q_head := (q_head q + 1) mod 256, q_len := q_len q - 1\<rparr>))))"

text \<open>\<open>push(..).expect(..)\<close>, as the scheduler calls it.\<close>

definition push_expect :: "('q \<Rightarrow> 'a \<Rightarrow> (('a + unit) \<times> 'q) res) \<Rightarrow> 'q \<Rightarrow> 'a \<Rightarrow> 'q res" where
  "push_expect push q item =
     bind_res (push q item) (\<lambda>(r, q').
       case r of Inl _ \<Rightarrow> Inl (ExpectFailed ''Ready queue is full'') | Inr _ \<Rightarrow> Inr q')"

text \<open>A client's sequence of calls, what it observes, and what a list of items would answer.\<close>

datatype 'a qop = Push 'a | Pop

datatype 'a qout = Pushed | Full 'a | Popped "'a option"

fun fifo_run ::
  "('q \<Rightarrow> 'a \<Rightarrow> (('a + unit) \<times> 'q) res) \<Rightarrow> ('q \<Rightarrow> ('a option \<times> 'q) res) \<Rightarrow> 'q \<Rightarrow> 'a qop list \<Rightarrow> 'a qout list res" where
  "fifo_run push pop q [] = Inr []"
| "fifo_run push pop q (Push x # ops) =
     bind_res (push q x) (\<lambda>(r, q').
     bind_res (fifo_run push pop q' ops) (\<lambda>outs.
     Inr ((case r of Inl y \<Rightarrow> Full y | Inr _ \<Rightarrow> Pushed) # outs)))"
| "fifo_run push pop q (Pop # ops) =
     bind_res (pop q) (\<lambda>(r, q').
     bind_res (fifo_run push pop q' ops) (\<lambda>outs. Inr (Popped r # outs)))"

fun fifo_spec :: "nat \<Rightarrow> 'a list \<Rightarrow> 'a qop list \<Rightarrow> 'a qout list" where
  "fifo_spec cap xs [] = []"
| "fifo_spec cap xs (Push x # ops) =
     (if length xs < cap then Pushed # fifo_spec cap (xs @ [x]) ops else Full x # fifo_spec cap xs ops)"
| "fifo_spec cap xs (Pop # ops) =
     (case xs of [] \<Rightarrow> Popped None # fifo_spec cap [] ops
      | y # ys \<Rightarrow> Popped (Some y) # fifo_spec cap ys ops)"

text \<open>
  What the fields mean: the items stand at \<open>head\<close>, \<open>head + 1\<close>, ... modulo 256, the tail is the
  slot behind the last one. \<open>queue_of\<close> is the queue that pushing a list into a new one makes.
\<close>

definition queue_ok :: "'a queue \<Rightarrow> bool" where
  "queue_ok q \<longleftrightarrow> length (q_data q) = 256 \<and> unat (q_head q) < 256 \<and> unat (q_len q) \<le> 256 \<and>
     unat (q_tail q) = (unat (q_head q) + unat (q_len q)) mod 256 \<and>
     (\<forall>i < unat (q_len q). q_data q ! ((unat (q_head q) + i) mod 256) \<noteq> None)"

definition queue_content :: "'a queue \<Rightarrow> 'a list" where
  "queue_content q = map (\<lambda>i. the (q_data q ! ((unat (q_head q) + i) mod 256))) [0 ..< unat (q_len q)]"

definition queue_of :: "'a list \<Rightarrow> 'a queue" where
  "queue_of xs = \<lparr>q_data = map Some xs @ replicate (256 - length xs) None, q_head = 0,
     q_tail = word_of_nat (length xs mod 256), q_len = word_of_nat (length xs)\<rparr>"

section \<open>The contract of a bounded queue\<close>

locale bounded_fifo =
  fixes push :: "'q \<Rightarrow> 'a \<Rightarrow> (('a + unit) \<times> 'q) res"
    and pop :: "'q \<Rightarrow> ('a option \<times> 'q) res"
    and qlen :: "'q \<Rightarrow> usize"
    and content :: "'q \<Rightarrow> 'a list"
    and invar :: "'q \<Rightarrow> bool"
    and cap :: nat
  assumes push_room: "invar q \<Longrightarrow> length (content q) < cap \<Longrightarrow>
      \<exists>q'. push q x = Inr (Inr (), q') \<and> invar q' \<and> content q' = content q @ [x]"
    and push_full: "invar q \<Longrightarrow> length (content q) = cap \<Longrightarrow> push q x = Inr (Inl x, q)"
    and pop_empty: "invar q \<Longrightarrow> content q = [] \<Longrightarrow> pop q = Inr (None, q)"
    and pop_first: "invar q \<Longrightarrow> content q = x # xs \<Longrightarrow>
      \<exists>q'. pop q = Inr (Some x, q') \<and> invar q' \<and> content q' = xs"
    and qlen_content: "invar q \<Longrightarrow> unat (qlen q) = length (content q)"
    and within_cap: "invar q \<Longrightarrow> length (content q) \<le> cap"
begin

lemma push_expect_room:
  assumes "invar q" "length (content q) < cap"
  shows "\<exists>q'. push_expect push q x = Inr q' \<and> invar q' \<and> content q' = content q @ [x]"
  using push_room[OF assms, of x] by (auto simp: push_expect_def)

lemma push_expect_full:
  assumes "invar q" "length (content q) = cap"
  shows "push_expect push q x = Inl (ExpectFailed ''Ready queue is full'')"
  using push_full[OF assms, of x] by (simp add: push_expect_def)

lemma pop_cases:
  assumes "invar q"
  obtains (empty) "content q = []" "pop q = Inr (None, q)"
    | (item) x q' where "pop q = Inr (Some x, q')" "invar q'" "content q = x # content q'"
proof (cases "content q")
  case Nil
  then show thesis using empty pop_empty[OF assms] by blast
next
  case (Cons x xs)
  then show thesis using item pop_first[OF assms] by blast
qed

lemma fifo_run_spec: "invar q \<Longrightarrow> fifo_run push pop q ops = Inr (fifo_spec cap (content q) ops)"
proof (induction ops arbitrary: q)
  case (Cons op ops)
  show ?case
  proof (cases op)
    case (Push x)
    show ?thesis
    proof (cases "length (content q) < cap")
      case True
      with push_room[OF Cons.prems True, of x] Cons.IH show ?thesis by (auto simp: Push)
    next
      case False
      then have "push q x = Inr (Inl x, q)" using push_full[OF Cons.prems] within_cap[OF Cons.prems] by simp
      with False Cons show ?thesis by (simp add: Push)
    qed
  next
    case Pop
    from Cons.prems show ?thesis
      by (cases rule: pop_cases) (use Cons.IH Cons.prems in \<open>auto simp: Pop\<close>)
  qed
qed simp

text \<open>A queue that has just lost an item has room for one: the scheduler's rotation.\<close>

lemma rotate:
  assumes "invar q" "content q = x # xs"
  shows "\<exists>q' q''. pop q = Inr (Some x, q') \<and> push_expect push q' y = Inr q'' \<and> invar q'' \<and> content q'' = xs @ [y]"
proof -
  obtain q' where q': "pop q = Inr (Some x, q')" "invar q'" "content q' = xs"
    using pop_first[OF assms] by blast
  moreover have "length (content q') < cap" using within_cap[OF assms(1)] assms(2) q'(3) by simp
  ultimately show ?thesis using push_expect_room[of q' y] by blast
qed

end

section \<open>The ring buffer implements it\<close>

lemma unat_succ_mod_256: "unat a < 256 \<Longrightarrow> unat ((a + 1) mod 256 :: usize) = (unat a + 1) mod 256"
  by (simp add: unat_mod word_nat)

lemma queue_new_ok: "queue_ok queue_new" "queue_content queue_new = []"
  by (simp_all add: queue_ok_def queue_new_def queue_content_def)

lemma queue_of_ok:
  assumes "length xs \<le> 256"
  shows "queue_ok (queue_of xs)" "queue_content (queue_of xs) = xs"
proof -
  have l: "unat (word_of_nat (length xs) :: usize) = length xs" using assms by (simp add: word_nat)
  have t: "unat (word_of_nat (length xs mod 256) :: usize) = length xs mod 256"
    using mod_less_divisor[of 256 "length xs"] by (intro unat_of_nat_u64) linarith
  have m: "i mod 256 = i" if "i < length xs" for i using that assms by simp
  show "queue_ok (queue_of xs)"
    using assms by (simp add: queue_ok_def queue_of_def l t m nth_append)
  show "queue_content (queue_of xs) = xs"
    by (intro nth_equalityI) (simp_all add: queue_content_def queue_of_def l m nth_append)
qed

lemma mod_256_distinct:
  fixes h i n :: nat
  assumes "i < n" "n < 256"
  shows "(h + i) mod 256 \<noteq> (h + n) mod 256"
proof
  assume "(h + i) mod 256 = (h + n) mod 256"
  then have "256 dvd (h + n) - (h + i)" using assms(1) by (intro mod_eq_dvd_iff_nat[THEN iffD1]) auto
  with assms show False by (auto dest: dvd_imp_le)
qed

lemma queue_push_room:
  assumes ok: "queue_ok q" and room: "length (queue_content q) < 256"
  shows "\<exists>q'. queue_push q x = Inr (Inr (), q') \<and> queue_ok q' \<and> queue_content q' = queue_content q @ [x]"
proof -
  define h n where "h = unat (q_head q)" and "n = unat (q_len q)"
  have b: "length (q_data q) = 256" "h < 256" "unat (q_tail q) = (h + n) mod 256" "n < 256"
      "\<forall>i < n. q_data q ! ((h + i) mod 256) \<noteq> None"
    using ok room by (auto simp: queue_ok_def queue_content_def h_def n_def)
  have ne: "q_len q \<noteq> 256" using b(4) by (auto simp: n_def)
  let ?d = "(q_data q)[(h + n) mod 256 := Some x]"
  let ?q = "q\<lparr>q_data := ?d, q_tail := (q_tail q + 1) mod 256, q_len := q_len q + 1\<rparr>"
  have l: "unat (q_len q + 1) = Suc n" using b(4) by (simp add: word_nat n_def)
  have t: "unat ((q_tail q + 1) mod 256) = (h + Suc n) mod 256"
    using b by (subst unat_succ_mod_256) (simp_all add: mod_Suc_eq)
  have old: "?d ! ((h + i) mod 256) = q_data q ! ((h + i) mod 256)" if "i < n" for i
    using mod_256_distinct[OF that b(4), of h] by simp
  have new: "?d ! ((h + n) mod 256) = Some x" using b(1) by simp
  have "queue_ok ?q"
    using b l t old new by (auto simp: queue_ok_def less_Suc_eq simp flip: h_def)
  moreover have "queue_content ?q = queue_content q @ [x]"
    using l old new by (simp add: queue_content_def flip: h_def n_def)
  moreover have "queue_push q x = Inr (Inr (), ?q)"
    using ne b by (simp add: queue_push_def)
  ultimately show ?thesis by blast
qed

lemma queue_pop_first:
  assumes ok: "queue_ok q" and c: "queue_content q = x # xs"
  shows "\<exists>q'. queue_pop q = Inr (Some x, q') \<and> queue_ok q' \<and> queue_content q' = xs"
proof -
  define h n where "h = unat (q_head q)" and "n = unat (q_len q)"
  have b: "length (q_data q) = 256" "h < 256" "unat (q_tail q) = (h + n) mod 256" "n \<le> 256"
      "\<forall>i < n. q_data q ! ((h + i) mod 256) \<noteq> None"
    using ok by (auto simp: queue_ok_def h_def n_def)
  obtain m where m: "n = Suc m" using c by (cases n) (auto simp: queue_content_def n_def)
  let ?q = "q\<lparr>q_head := (q_head q + 1) mod 256, q_len := q_len q - 1\<rparr>"
  have ne: "q_len q \<noteq> 0" using m by (auto simp: n_def)
  have l: "unat (q_len q - 1) = m" using m by (simp add: word_nat n_def)
  have hd': "unat ((q_head q + 1) mod 256) = (h + 1) mod 256"
    using b(2) by (simp add: unat_succ_mod_256 h_def)
  have shift: "(Suc h mod 256 + i) mod 256 = Suc (h + i) mod 256" for i
    using mod_add_left_eq[of "Suc h" 256 i] by simp
  have "q_data q ! (Suc (h + i) mod 256) \<noteq> None" if "i < m" for i
    using b(5)[rule_format, of "Suc i"] m that by simp
  then have "queue_ok ?q"
    using b m l hd' by (simp add: queue_ok_def shift)
  moreover have "queue_content q =
      map (\<lambda>i. the (q_data q ! ((h + i) mod 256))) (0 # map Suc [0 ..< m])"
    unfolding queue_content_def h_def[symmetric] n_def[symmetric] m
    by (simp only: map_Suc_upt upt_conv_Cons[OF zero_less_Suc])
  then have "x = the (q_data q ! h)" "xs = queue_content ?q"
    using c b(2) by (simp_all add: queue_content_def l hd' shift comp_def)
  moreover have "queue_pop q = Inr (Some (the (q_data q ! h)), ?q)"
    using b(1,2) b(5)[rule_format, of 0] m ne by (auto simp: queue_pop_def simp flip: h_def)
  ultimately show ?thesis by blast
qed

interpretation rq: bounded_fifo queue_push queue_pop q_len queue_content queue_ok 256
proof (unfold_locales, goal_cases)
  case (1 q x)
  then show ?case by (rule queue_push_room)
next
  case (2 q x)
  then have "unat (q_len q) = unat (256 :: usize)" by (simp add: queue_content_def)
  then show ?case by (simp add: queue_push_def unat_eqI)
next
  case (3 q)
  then have "q_len q = 0" by (simp add: queue_content_def unat_eq_zero)
  then show ?case by (simp add: queue_pop_def)
next
  case (4 q x xs)
  then show ?case by (rule queue_pop_first)
qed (simp_all add: queue_content_def queue_ok_def)

section \<open>Properties\<close>

text \<open>
  C13. The ring buffer refines a bounded first-in first-out queue: on every sequence of pushes
  and pops from a new queue, through any number of wraps of its indices, its answers are
  those of a list of at most 256 items, it never reads an uninitialised slot and never panics.
\<close>

theorem queue_refines_fifo: "fifo_run queue_push queue_pop queue_new ops = Inr (fifo_spec 256 [] ops)"
  using rq.fifo_run_spec[OF queue_new_ok(1)] by (simp add: queue_new_ok(2))

end
