(* ===== verification/Thread.thy ===== *)
theory Thread
  imports Memory Queue
begin

text \<open>
  Kernel threads (src/src/sched/thread.rs) and the segment selectors they start with
  (src/src/arch/x86_64/gdt.rs): the saved register frame, stacks, the thread table and the
  idle thread. RAM is a map from (8-byte aligned) virtual addresses to 64-bit words; a
  \<open>repr(C)\<close> struct of words is written field by field at increasing addresses.
\<close>

type_synonym ram = "u64 \<Rightarrow> u64"

fun write_words :: "ram \<Rightarrow> u64 \<Rightarrow> u64 list \<Rightarrow> ram" where
  "write_words m a [] = m"
| "write_words m a (w # ws) = write_words (m(a := w)) (a + 8) ws"

definition read_words :: "ram \<Rightarrow> u64 \<Rightarrow> nat \<Rightarrow> u64 list" where
  "read_words m a n = map (\<lambda>i. m (a + 8 * word_of_nat i)) [0 ..< n]"

section \<open>Segment selectors\<close>

definition KERNEL_CS :: "x86_crate \<Rightarrow> u16" where
  "KERNEL_CS X = selector_new X 1 0"

definition KERNEL_DS :: "x86_crate \<Rightarrow> u16" where
  "KERNEL_DS X = selector_new X 2 0"

definition USER_DS :: "x86_crate \<Rightarrow> u16" where
  "USER_DS X = selector_new X 3 3"

definition USER_CS :: "x86_crate \<Rightarrow> u16" where
  "USER_CS X = selector_new X 4 3"

section \<open>The register frame on a thread's stack\<close>

record cpu_regs =
  r15 :: u64
  r14 :: u64
  r13 :: u64
  r12 :: u64
  rbp :: u64
  rbx :: u64
  r11 :: u64
  r10 :: u64
  r9 :: u64
  r8 :: u64
  rax :: u64
  rcx :: u64
  rdx :: u64
  rsi :: u64
  rdi :: u64
  rip :: u64
  cs :: u64
  rflags :: u64
  rsp :: u64
  ss :: u64

definition regs_words :: "cpu_regs \<Rightarrow> u64 list" where
  "regs_words r = [r15 r, r14 r, r13 r, r12 r, rbp r, rbx r, r11 r, r10 r, r9 r, r8 r,
     rax r, rcx r, rdx r, rsi r, rdi r, rip r, cs r, rflags r, rsp r, ss r]"

definition size_of_regs :: u64 where
  "size_of_regs = 160"

definition new_inside_kernel :: "x86_crate \<Rightarrow> u64 \<Rightarrow> u64 \<Rightarrow> cpu_regs res" where
  "new_inside_kernel X entry stack_top =
     bind_res (assert_res (stack_top AND 0xf = 0)) (\<lambda>_.
     Inr \<lparr>r15 = 0, r14 = 0, r13 = 0, r12 = 0, rbp = stack_top, rbx = 0, r11 = 0, r10 = 0, r9 = 0, r8 = 0,
          rax = 0, rcx = 0, rdx = 0, rsi = 0, rdi = 0, rip = entry, cs = ucast (KERNEL_CS X),
          rflags = 0x202, rsp = stack_top, ss = ucast (KERNEL_DS X)\<rparr>)"

section \<open>Stacks\<close>

record stack =
  st_base :: u64
  st_size :: u64

definition stack_new :: "x86_crate \<Rightarrow> memory_state \<Rightarrow> usize \<Rightarrow> (stack \<times> memory_state) res" where
  "stack_new X m num_pages =
     bind_res (alloc_frames X m num_pages) (\<lambda>(r, m').
       case r of
         Inl _ \<Rightarrow> Inl (ExpectFailed ''Out of memory'')
       | Inr fr \<Rightarrow> bind_res (phys_to_virt X m' (start_addr fr)) (\<lambda>stack_addr.
           Inr (\<lparr>st_base = stack_addr, st_size = num_pages * 4096\<rparr>, m')))"

definition get_top_address :: "stack \<Rightarrow> u64" where
  "get_top_address s = st_base s + st_size s"

section \<open>Threads and the thread table\<close>

datatype thread_state = Born | Ready | Running | Blocked | Zombie

record sched_state =
  ss_cpu :: "u32 option"
  ss_state :: thread_state

record thread =
  th_regs :: u64
  th_id :: u64
  kernel_stack :: stack
  th_sched :: sched_state

type_synonym thread_table = "thread option list"

definition thread_table_new :: thread_table where
  "thread_table_new = replicate 256 None"

fun add_thread :: "thread_table \<Rightarrow> thread \<Rightarrow> bool \<times> thread_table" where
  "add_thread [] t = (False, [])"
| "add_thread (None # slots) t = (True, Some t # slots)"
| "add_thread (Some u # slots) t = (case add_thread slots t of (b, slots') \<Rightarrow> (b, Some u # slots'))"

text \<open>\<open>get_thread_mut\<close> returns a reference into the table: the index of the slot.\<close>

fun get_thread_mut :: "thread_table \<Rightarrow> u64 \<Rightarrow> nat option" where
  "get_thread_mut [] i = None"
| "get_thread_mut (None # slots) i = map_option Suc (get_thread_mut slots i)"
| "get_thread_mut (Some t # slots) i =
     (if th_id t = i then Some 0 else map_option Suc (get_thread_mut slots i))"

text \<open>\<open>Thread::new_idle\<close>; \<open>idle_entry\<close> is the address of \<open>idle_thread_entry\<close>.\<close>

definition new_idle :: "x86_crate \<Rightarrow> u64 \<Rightarrow> memory_state \<Rightarrow> ram \<Rightarrow> (thread \<times> memory_state \<times> ram) res" where
  "new_idle X idle_entry m ram =
     bind_res (stack_new X m 1) (\<lambda>(stk, m').
     bind_res (new_inside_kernel X idle_entry (get_top_address stk)) (\<lambda>regs.
     let regs_addr = get_top_address stk - size_of_regs in
     Inr (\<lparr>th_regs = regs_addr, th_id = 0, kernel_stack = stk,
           th_sched = \<lparr>ss_cpu = None, ss_state = Ready\<rparr>\<rparr>,
          m', write_words ram regs_addr (regs_words regs))))"

section \<open>Words in memory\<close>

lemma word8_step_neq:
  assumes "0 < n" "n < 2305843009213693952"
  shows "(a :: u64) + 8 * word_of_nat n \<noteq> a"
proof -
  have n: "unat (word_of_nat n :: u64) = n" using assms by (simp add: word_nat)
  have "unat (8 * word_of_nat n :: u64) = 8 * n" using n assms by (simp add: word_nat)
  then have "8 * word_of_nat n \<noteq> (0 :: u64)" using assms(1) by (metis unat_0 mult_eq_0_iff not_gr0 zero_neq_numeral)
  then show ?thesis by simp
qed

lemma write_words_other:
  "(\<And>i. i < length ws \<Longrightarrow> b \<noteq> a + 8 * word_of_nat i) \<Longrightarrow> write_words m a ws b = m b"
proof (induction ws arbitrary: m a)
  case (Cons w ws)
  have "b \<noteq> a" using Cons.prems[of 0] by simp
  moreover have "write_words (m(a := w)) (a + 8) ws b = (m(a := w)) b"
  proof (rule Cons.IH)
    fix i assume "i < length ws"
    then show "b \<noteq> a + 8 + 8 * word_of_nat i"
      using Cons.prems[of "Suc i"] by (simp add: algebra_simps)
  qed
  ultimately show ?case by simp
qed simp

lemma read_write_words:
  "length ws < 2305843009213693952 \<Longrightarrow> read_words (write_words m a ws) a (length ws) = ws"
proof (induction ws arbitrary: m a)
  case (Cons w ws)
  have hd': "write_words (m(a := w)) (a + 8) ws a = w"
  proof (subst write_words_other)
    fix i assume "i < length ws"
    then show "a \<noteq> a + 8 + 8 * word_of_nat i"
      using word8_step_neq[of "Suc i" a] Cons.prems by (simp add: algebra_simps)
  qed simp
  have "read_words M a (Suc n) = M a # read_words M (a + 8) n" for M n
    by (simp only: read_words_def upt_conv_Cons[OF zero_less_Suc] map_Suc_upt[symmetric])
      (simp add: algebra_simps comp_def)
  then show ?case using hd' Cons by simp
qed (simp add: read_words_def)

lemma length_regs_words [simp]: "length (regs_words r) = 20"
  by (simp add: regs_words_def)

section \<open>Stacks that the allocator provides\<close>

lemma aligned_low_bits: "unat (a :: u64) mod 16 = 0 \<Longrightarrow> a AND 0xf = 0"
proof -
  assume "unat a mod 16 = 0"
  then have "unat (a mod 16) = 0" by (simp add: unat_mod)
  then have "a mod 2 ^ 4 = 0" by (simp add: unat_eq_zero)
  then have "a AND mask 4 = 0" by (simp only: take_bit_eq_mod flip: take_bit_eq_mask)
  then show ?thesis by (simp add: mask_eq_exp_minus_1)
qed

lemma mod_4096_16: "n mod 4096 = 0 \<Longrightarrow> n mod 16 = (0 :: nat)"
  using mod_mod_cancel[of 16 4096 n] by simp

text \<open>
  A new stack of \<open>n\<close> pages: it is the image under the direct map of \<open>n\<close> frames that were
  free; its top does not wrap around and is 16-byte aligned.
\<close>

lemma stack_new_cases:
  assumes X: "x86_ok X" and m: "mem_ok m" and n: "unat n < 2 ^ 40"
  obtains (oom) "stack_new X m n = Inl (ExpectFailed ''Out of memory'')"
    | (ok) s m' fr where "stack_new X m n = Inr (s, m')" "mem_ok m'" "HHDM_OFFSET m' = HHDM_OFFSET m"
      "n \<noteq> 0" "fr_count fr = n" "frames_of fr \<subseteq> mem_free m" "mem_free m' = mem_free m - frames_of fr"
      "mem_holds m fr" "mem_holds m' = mem_holds m" "unat (fr_start fr) mod 4096 = 0"
      "unat (st_base s) = unat (fr_start fr) + unat (HHDM_OFFSET m)" "st_size s = n * 4096"
      "unat (get_top_address s) = unat (st_base s) + 4096 * unat n" "get_top_address s AND 0xf = 0"
proof -
  have inv: "x86_ok X \<and> mem_ok m" using X m by simp
  show thesis
    using inv
  proof (cases rule: mem.alloc_cases[where n = n])
    case (err e)
    then show thesis using oom by (simp add: stack_new_def)
  next
    case (ok fr m')
    have off: "HHDM_OFFSET m' = HHDM_OFFSET m" using alloc_frames_hhdm[OF ok(1)] .
    have b: "unat (fr_start fr) + 4096 * unat n + unat (HHDM_OFFSET m) < 2 ^ 64"
      using mem_holds_mapped(1)[OF m ok(8)] ok(3) by simp
    have hh: "hhdm_ok (HHDM_OFFSET m)" using m by (simp add: mem_ok_def)
    have base: "phys_to_virt X m' (fr_start fr) = Inr (fr_start fr + HHDM_OFFSET m)"
        "unat (fr_start fr + HHDM_OFFSET m) = unat (fr_start fr) + unat (HHDM_OFFSET m)"
      using phys_to_virt_hhdm[OF X, of m' "fr_start fr"] off hh b by auto
    let ?s = "\<lparr>st_base = fr_start fr + HHDM_OFFSET m, st_size = n * 4096\<rparr>"
    have sz: "unat (n * 4096) = 4096 * unat n" using n by (simp add: word_nat)
    have top: "unat (get_top_address ?s) = unat (st_base ?s) + 4096 * unat n"
      using base(2) sz b by (simp add: get_top_address_def word_nat)
    have "unat (get_top_address ?s) mod 4096 = 0"
      using top base(2) ok(5) hh by (simp add: hhdm_ok_def mod_add_eq[symmetric, of _ _ 4096])
    then have al: "get_top_address ?s AND 0xf = 0" by (intro aligned_low_bits mod_4096_16)
    show thesis
      by (rule that(2)[of ?s m' fr])
        (use ok off base top al in \<open>simp_all add: stack_new_def start_addr_def\<close>)
  qed
qed

section \<open>The thread table\<close>

lemma add_thread_cases:
  obtains (full) "add_thread tbl t = (False, tbl)" "None \<notin> set tbl"
    | (slot) i where "add_thread tbl t = (True, tbl[i := Some t])" "i < length tbl" "tbl ! i = None"
      "\<And>j. j < i \<Longrightarrow> tbl ! j \<noteq> None"
proof -
  have "(add_thread tbl t = (False, tbl) \<and> None \<notin> set tbl) \<or>
    (\<exists>i. add_thread tbl t = (True, tbl[i := Some t]) \<and> i < length tbl \<and> tbl ! i = None \<and> (\<forall>j < i. tbl ! j \<noteq> None))"
  proof (induction tbl t rule: add_thread.induct)
    case (2 slots t)
    show ?case by (intro disjI2 exI[of _ 0]) simp
  next
    case (3 u slots t)
    from 3 show ?case
    proof (elim disjE exE conjE)
      fix i assume i: "add_thread slots t = (True, slots[i := Some t])" "i < length slots" "slots ! i = None"
        "\<forall>j < i. slots ! j \<noteq> None"
      show ?thesis
        by (intro disjI2 exI[of _ "Suc i"]) (use i in \<open>auto simp: nth_Cons split: nat.splits\<close>)
    qed simp
  qed simp
  then show thesis using full slot by blast
qed

lemma get_thread_mut_Some:
  "get_thread_mut tbl i = Some k \<Longrightarrow> k < length tbl \<and> (\<exists>t. tbl ! k = Some t \<and> th_id t = i)"
  by (induction tbl i arbitrary: k rule: get_thread_mut.induct) (auto split: if_splits)

lemma get_thread_mut_None:
  "get_thread_mut tbl i = None \<longleftrightarrow> (\<forall>t. Some t \<in> set tbl \<longrightarrow> th_id t \<noteq> i)"
  by (induction tbl i rule: get_thread_mut.induct) auto

text \<open>The thread just added is the one found by its identifier when that identifier is fresh.\<close>

lemma get_thread_mut_fresh:
  assumes "i < length tbl" "\<forall>t. Some t \<in> set tbl \<longrightarrow> th_id t \<noteq> th_id u"
  shows "get_thread_mut (tbl[i := Some u]) (th_id u) = Some i"
proof (cases "get_thread_mut (tbl[i := Some u]) (th_id u)")
  case None
  then show ?thesis using assms(1) set_update_memI[of i tbl "Some u"] by (auto simp: get_thread_mut_None)
next
  case (Some k)
  from get_thread_mut_Some[OF this] assms have "k = i"
    by (cases "k = i") (auto simp: in_set_conv_nth)
  with Some show ?thesis by simp
qed

section \<open>Properties\<close>

text \<open>
  C27. The thread table works as a dictionary keyed by thread identifiers: adding a thread
  whose identifier is not in the table either fails, exactly when all slots are taken, and
  changes nothing; or it fills the first empty slot, after which \<open>get_thread_mut\<close> finds the
  new thread under its identifier and every other thread where it was.
\<close>

theorem thread_table_lookup:
  assumes "\<forall>t. Some t \<in> set tbl \<longrightarrow> th_id t \<noteq> th_id u"
  shows "(None \<notin> set tbl \<and> add_thread tbl u = (False, tbl)) \<or>
    (\<exists>i < length tbl. tbl ! i = None \<and> (\<forall>j < i. tbl ! j \<noteq> None) \<and> add_thread tbl u = (True, tbl[i := Some u]) \<and>
      get_thread_mut (tbl[i := Some u]) (th_id u) = Some i \<and>
      (\<forall>n. n \<noteq> th_id u \<longrightarrow> get_thread_mut (tbl[i := Some u]) n = get_thread_mut tbl n))"
proof (cases rule: add_thread_cases[of tbl u])
  case (slot i)
  have "get_thread_mut (tbl[i := Some u]) n = get_thread_mut tbl n" if "n \<noteq> th_id u" for n
    using slot(2,3) that
  proof (induction tbl n arbitrary: i rule: get_thread_mut.induct)
    case (2 slots n)
    then show ?case by (cases i) auto
  next
    case (3 t slots n)
    then show ?case by (cases i) auto
  qed simp
  with slot get_thread_mut_fresh[OF slot(2) assms] show ?thesis by blast
qed simp

theorem thread_table_lookup_witness:
  "\<exists>u i. th_id u = 9 \<and> add_thread [None] u = (True, [None][i := Some u]) \<and>
     get_thread_mut ([None][i := Some u]) 9 = Some i"
proof -
  let ?u = "\<lparr>th_regs = 0, th_id = 9, kernel_stack = \<lparr>st_base = 0, st_size = 0\<rparr>,
     th_sched = \<lparr>ss_cpu = None, ss_state = Born\<rparr>\<rparr>"
  have fresh: "\<forall>t. Some t \<in> set [None] \<longrightarrow> th_id t \<noteq> th_id ?u" and room: "\<not> None \<notin> set [None :: thread option]"
    by simp_all
  from thread_table_lookup[OF fresh] room obtain i where
    "add_thread [None] ?u = (True, [None][i := Some ?u])"
    "get_thread_mut ([None][i := Some ?u]) (th_id ?u) = Some i" by blast
  moreover have "th_id ?u = 9" by simp
  ultimately show ?thesis by metis
qed

end
