(* ===== verification/Cpu.thy ===== *)
theory Cpu
  imports Thread
begin

text \<open>
  Per-CPU data (src/src/arch/x86_64/cpu.rs) and the state of the kernel that the scheduler
  works on. The address of a \<open>Thread\<close> struct is modelled by the struct it is the address of:
  a slot of the global thread table, or the idle thread inside the TLS page at an address
  (\<open>thread_ptr\<close>); the null address is \<open>NullThread\<close>. The TLS pages are a map from their
  addresses; the \<open>GsBase\<close> register of the CPU that runs an operation is the argument \<open>gs\<close>.
\<close>

datatype thread_ptr = NullThread | TableThread nat | IdleThread u64

record tls_data =
  tls_cpu_id :: u32
  idt_addr :: u64
  gdt_addr :: u64
  thread_addr :: thread_ptr
  idle_thread :: thread
  ready_queue :: "thread_ptr queue"

record cpu_data =
  cd_online :: bool
  cd_tls :: u64

text \<open>
  The kernel's global state: \<open>FRAME_ALLOCATOR\<close> and \<open>HHDM_OFFSET\<close>, RAM,
  \<open>GLOBAL_THREAD_ID_COUNTER\<close>, \<open>GLOBAL_THREAD_TABLE\<close>, \<open>CPUS\<close>, the TLS pages, the texts
  that \<open>println!\<close> sent to the console, and the volatile writes to device registers, in order.
\<close>

record kernel =
  k_mem :: memory_state
  k_ram :: ram
  k_next_id :: u64
  k_table :: thread_table
  k_cpus :: "cpu_data list"
  k_tls :: "u64 \<rightharpoonup> tls_data"
  k_log :: "string list"
  k_mmio :: "(u64 \<times> u32) list"

text \<open>The decimal form of a number that \<open>{}\<close> prints, and a printed line.\<close>

fun show_dec :: "nat \<Rightarrow> string" where
  "show_dec n = (if n < 10 then [char_of (48 + n)] else show_dec (n div 10) @ [char_of (48 + n mod 10)])"

declare show_dec.simps [simp del]

definition println :: "string \<Rightarrow> kernel \<Rightarrow> kernel" where
  "println msg k = k\<lparr>k_log := k_log k @ [msg @ [CHR 0x0A]]\<rparr>"

definition cpus_new :: "cpu_data list" where
  "cpus_new = replicate 256 \<lparr>cd_online = False, cd_tls = 0\<rparr>"

definition kernel_start :: "memory_state \<Rightarrow> ram \<Rightarrow> kernel" where
  "kernel_start m ram = \<lparr>k_mem = m, k_ram = ram, k_next_id = 1, k_table = thread_table_new,
     k_cpus = cpus_new, k_tls = Map.empty, k_log = [],
     k_mmio = []\<rparr>"

text \<open>\<open>get_cpu_tls\<close> returns a reference: the address of the TLS page.\<close>

definition get_cpu_tls :: "kernel \<Rightarrow> u32 \<Rightarrow> u64 option" where
  "get_cpu_tls k cpu_id =
     (if unat cpu_id \<ge> length (k_cpus k) then None
      else if \<not> cd_online (k_cpus k ! unat cpu_id) then None
      else Some (cd_tls (k_cpus k ! unat cpu_id)))"

definition current_cpu :: "kernel \<Rightarrow> u64 \<Rightarrow> tls_data res" where
  "current_cpu k gs = expect_some Undefined (k_tls k gs)"

definition tls_zeroed :: tls_data where
  "tls_zeroed = \<lparr>tls_cpu_id = 0, idt_addr = 0, gdt_addr = 0, thread_addr = NullThread,
     idle_thread = \<lparr>th_regs = 0, th_id = 0, kernel_stack = \<lparr>st_base = 0, st_size = 0\<rparr>,
       th_sched = \<lparr>ss_cpu = None, ss_state = Born\<rparr>\<rparr>,
     ready_queue = queue_new\<rparr>"

definition alloc_tls :: "x86_crate \<Rightarrow> usize \<Rightarrow> kernel \<Rightarrow> (u64 \<times> kernel) res" where
  "alloc_tls X tls_size k =
     bind_res (alloc_frame X (k_mem k)) (\<lambda>(r, m).
       case r of
         Inl _ \<Rightarrow> Inl (ExpectFailed ''Out of memory'')
       | Inr f \<Rightarrow>
           bind_res (phys_to_virt X m (frame_addr f)) (\<lambda>tls_addr.
           bind_res (assert_res (tls_size \<le> 4096)) (\<lambda>_.
           Inr (tls_addr, k\<lparr>k_mem := m, k_tls := (k_tls k)(tls_addr \<mapsto> tls_zeroed)\<rparr>))))"

text \<open>
  \<open>setup_tls\<close> for the CPU with identifier \<open>cpu_id\<close>: the new value of \<open>GsBase\<close> and the state.
  \<open>tls_size\<close> is \<open>size_of::<TlsData>()\<close>, \<open>idle_entry\<close> the address of \<open>idle_thread_entry\<close>.
\<close>

definition setup_tls :: "x86_crate \<Rightarrow> usize \<Rightarrow> u64 \<Rightarrow> u32 \<Rightarrow> kernel \<Rightarrow> (u64 \<times> kernel) res" where
  "setup_tls X tls_size idle_entry cpu_id k =
     bind_res (alloc_tls X tls_size k) (\<lambda>(tls, k1).
     bind_res (new_idle X idle_entry (k_mem k1) (k_ram k1)) (\<lambda>(idle, m, ram).
     let k2 = k1\<lparr>k_mem := m, k_ram := ram, k_tls := (k_tls k1)(tls \<mapsto>
           \<lparr>tls_cpu_id = cpu_id, idt_addr = 0, gdt_addr = 0, thread_addr = NullThread,
            idle_thread = idle, ready_queue = queue_new\<rparr>)\<rparr> in
     bind_res (expect_some AddrInvalid (virt_new X tls)) (\<lambda>gs.
     bind_res (slice_set (k_cpus k2) (ucast cpu_id) \<lparr>cd_online = True, cd_tls = tls\<rparr>) (\<lambda>cpus.
     Inr (gs, k2\<lparr>k_cpus := cpus\<rparr>)))))"

definition current_cpu_id :: "kernel \<Rightarrow> u64 \<Rightarrow> u32 res" where
  "current_cpu_id k gs =
     (if gs = 0 then Inl (Panicked ''TLS not set up yet'')
      else bind_res (current_cpu k gs) (\<lambda>t. Inr (tls_cpu_id t)))"

text \<open>Following the address of a thread, and writing the CPU into its scheduling state.\<close>

definition deref_thread :: "kernel \<Rightarrow> thread_ptr \<Rightarrow> thread res" where
  "deref_thread k p =
     (case p of
        NullThread \<Rightarrow> Inl Undefined
      | TableThread i \<Rightarrow> if i < length (k_table k) then expect_some Undefined (k_table k ! i) else Inl Undefined
      | IdleThread g \<Rightarrow> bind_res (current_cpu k g) (\<lambda>t. Inr (idle_thread t)))"

definition store_thread :: "kernel \<Rightarrow> thread_ptr \<Rightarrow> thread \<Rightarrow> kernel res" where
  "store_thread k p t =
     bind_res (deref_thread k p) (\<lambda>_.
       case p of
         NullThread \<Rightarrow> Inl Undefined
       | TableThread i \<Rightarrow> Inr (k\<lparr>k_table := (k_table k)[i := Some t]\<rparr>)
       | IdleThread g \<Rightarrow> Inr (k\<lparr>k_tls := (k_tls k)(g := map_option (\<lambda>d. d\<lparr>idle_thread := t\<rparr>) (k_tls k g))\<rparr>))"

definition current_thread_id :: "kernel \<Rightarrow> u64 \<Rightarrow> u64 res" where
  "current_thread_id k gs =
     bind_res (current_cpu k gs) (\<lambda>t. bind_res (deref_thread k (thread_addr t)) (\<lambda>th. Inr (th_id th)))"

section \<open>Starting and scheduling threads\<close>

text \<open>\<open>Thread::ready\<close> on the thread in slot \<open>i\<close> of the table.\<close>

definition thread_ready :: "kernel \<Rightarrow> u64 \<Rightarrow> nat \<Rightarrow> kernel res" where
  "thread_ready k gs i =
     bind_res (deref_thread k (TableThread i)) (\<lambda>t.
     bind_res (current_cpu k gs) (\<lambda>cpu.
     bind_res (store_thread k (TableThread i)
       (t\<lparr>th_sched := \<lparr>ss_cpu = Some (tls_cpu_id cpu), ss_state = Ready\<rparr>\<rparr>)) (\<lambda>k1.
     bind_res (push_expect queue_push (ready_queue cpu) (TableThread i)) (\<lambda>q.
     Inr (k1\<lparr>k_tls := (k_tls k1)(gs \<mapsto> cpu\<lparr>ready_queue := q\<rparr>)\<rparr>)))))"

text \<open>\<open>Thread::spawn_raw\<close>: \<open>None\<close> when the thread table is full.\<close>

definition spawn_raw :: "x86_crate \<Rightarrow> kernel \<Rightarrow> u64 \<Rightarrow> u64 \<Rightarrow> u64 \<Rightarrow> (u64 option \<times> kernel) res" where
  "spawn_raw X k gs entry arg =
     (let tid = k_next_id k; k0 = k\<lparr>k_next_id := tid + 1\<rparr> in
      bind_res (stack_new X (k_mem k0) 4) (\<lambda>(stk, m).
      bind_res (new_inside_kernel X entry (get_top_address stk)) (\<lambda>regs0.
      let regs = regs0\<lparr>rdi := arg\<rparr>;
          regs_addr = get_top_address stk - size_of_regs;
          k1 = k0\<lparr>k_mem := m, k_ram := write_words (k_ram k0) regs_addr (regs_words regs)\<rparr>;
          thread = \<lparr>th_regs = regs_addr, th_id = tid, kernel_stack = stk,
            th_sched = \<lparr>ss_cpu = None, ss_state = Born\<rparr>\<rparr>;
          (added, table) = add_thread (k_table k1) thread;
          k2 = k1\<lparr>k_table := table\<rparr>
      in if \<not> added then Inr (None, k2)
         else bind_res (expect_some UnwrapFailed (get_thread_mut (k_table k2) tid)) (\<lambda>i.
              bind_res (thread_ready k2 gs i) (\<lambda>k3.
              Inr (Some tid, k3))))))"

text \<open>
  \<open>Thread::spawn\<close> of a closure whose captured data are the words \<open>f\<close>: the closure is written
  64 bytes into a fresh page and the page starts with the fat pointer (data, vtable) to it.
\<close>

definition spawn :: "x86_crate \<Rightarrow> u64 \<Rightarrow> u64 \<Rightarrow> kernel \<Rightarrow> u64 \<Rightarrow> u64 list \<Rightarrow> (u64 option \<times> kernel) res" where
  "spawn X trampoline vtable k gs f =
     bind_res (assert_res (8 * length f < 4096 - 64)) (\<lambda>_.
     bind_res (alloc_frame X (k_mem k)) (\<lambda>(r, m).
       case r of
         Inl _ \<Rightarrow> Inl (ExpectFailed ''Out of memory'')
       | Inr fr \<Rightarrow>
           bind_res (phys_to_virt X m (frame_addr fr)) (\<lambda>page_addr.
           let closure_slot = page_addr + 64;
               ram1 = write_words (k_ram k) closure_slot f;
               ram2 = write_words ram1 page_addr [closure_slot, vtable]
           in spawn_raw X (k\<lparr>k_mem := m, k_ram := ram2\<rparr>) gs trampoline page_addr)))"

text \<open>
  \<open>thread_trampoline\<close> and \<open>run_and_cleanup\<close>: the vtable that is called and the words of the
  closure that is read out of memory and run. The gasket is handed \<open>arg\<close> itself.
\<close>

definition thread_trampoline :: "ram \<Rightarrow> u64 \<Rightarrow> nat \<Rightarrow> u64 \<times> u64 list" where
  "thread_trampoline ram arg n =
     (let vtable = ram (arg + 8); ptr = arg in (vtable, read_words ram ptr n))"

text \<open>The registers a new kernel thread starts with: entry point, argument and top of its stack.\<close>

definition start_regs :: "x86_crate \<Rightarrow> u64 \<Rightarrow> u64 \<Rightarrow> u64 \<Rightarrow> cpu_regs" where
  "start_regs X entry arg stack_top =
     \<lparr>r15 = 0, r14 = 0, r13 = 0, r12 = 0, rbp = stack_top, rbx = 0, r11 = 0, r10 = 0, r9 = 0, r8 = 0,
      rax = 0, rcx = 0, rdx = 0, rsi = 0, rdi = arg, rip = entry, cs = ucast (KERNEL_CS X),
      rflags = 0x202, rsp = stack_top, ss = ucast (KERNEL_DS X)\<rparr>"

section \<open>Dereferencing\<close>

lemma deref_table [res_iff]:
  "deref_thread k (TableThread i) = Inr t \<longleftrightarrow> i < length (k_table k) \<and> k_table k ! i = Some t"
  by (auto simp: deref_thread_def res_iff)

lemma deref_table_ok:
  "i < length (k_table k) \<Longrightarrow> k_table k ! i = Some t \<Longrightarrow> deref_thread k (TableThread i) = Inr t"
  by (simp add: res_iff)

lemma store_table:
  assumes "i < length (k_table k)" "k_table k ! i = Some u"
  shows "store_thread k (TableThread i) t = Inr (k\<lparr>k_table := (k_table k)[i := Some t]\<rparr>)"
  using assms by (simp add: store_thread_def deref_table_ok)

lemma thread_ready_ok:
  assumes i: "i < length (k_table k)" "k_table k ! i = Some t" and gs: "k_tls k gs = Some cpu"
    and q: "queue_ok (ready_queue cpu)" "length (queue_content (ready_queue cpu)) < 256"
  obtains q' where "queue_ok q'" "queue_content q' = queue_content (ready_queue cpu) @ [TableThread i]"
    "thread_ready k gs i = Inr (k\<lparr>
       k_table := (k_table k)[i := Some (t\<lparr>th_sched := \<lparr>ss_cpu = Some (tls_cpu_id cpu), ss_state = Ready\<rparr>\<rparr>)],
       k_tls := (k_tls k)(gs \<mapsto> cpu\<lparr>ready_queue := q'\<rparr>)\<rparr>)"
proof -
  obtain q' where q': "push_expect queue_push (ready_queue cpu) (TableThread i) = Inr q'" "queue_ok q'"
      "queue_content q' = queue_content (ready_queue cpu) @ [TableThread i]"
    using rq.push_expect_room[OF q] by blast
  show thesis
    by (rule that[OF q'(2,3)])
      (simp add: thread_ready_def current_cpu_def q'(1) gs deref_table_ok[OF i] store_table[OF i])
qed

lemma deref_ram [simp]: "deref_thread (k\<lparr>k_ram := x\<rparr>) p = deref_thread k p"
  by (cases p) (simp_all add: deref_thread_def current_cpu_def)

lemma deref_store:
  assumes "deref_thread k p = Inr t"
  obtains k' where "store_thread k p u = Inr k'" "deref_thread k' p = Inr u"
    "k_ram k' = k_ram k" "k_mem k' = k_mem k" "k_cpus k' = k_cpus k" "k_next_id k' = k_next_id k"
    "\<And>q. q \<noteq> p \<Longrightarrow> deref_thread k' q = deref_thread k q"
    "\<And>g. map_option thread_addr (k_tls k' g) = map_option thread_addr (k_tls k g)"
proof (cases p)
  case NullThread
  then show thesis using assms by (simp add: deref_thread_def)
next
  case (TableThread i)
  then have i: "i < length (k_table k)" "k_table k ! i = Some t" using assms by (auto simp: res_iff)
  show thesis
  proof (rule that[OF store_table[OF i, of u, folded TableThread]])
    fix q assume "q \<noteq> p"
    then show "deref_thread (k\<lparr>k_table := (k_table k)[i := Some u]\<rparr>) q = deref_thread k q"
      by (cases q) (simp_all add: deref_thread_def current_cpu_def TableThread)
  qed (use i TableThread in \<open>simp_all add: res_iff\<close>)
next
  case (IdleThread g)
  then obtain d where d: "k_tls k g = Some d"
    using assms by (auto simp: deref_thread_def current_cpu_def res_iff)
  let ?k = "k\<lparr>k_tls := (k_tls k)(g \<mapsto> d\<lparr>idle_thread := u\<rparr>)\<rparr>"
  have st: "store_thread k p u = Inr ?k"
    using IdleThread d by (simp add: store_thread_def deref_thread_def current_cpu_def)
  show thesis
  proof (rule that[OF st])
    fix q assume "q \<noteq> p"
    then show "deref_thread ?k q = deref_thread k q"
      by (cases q) (auto simp: deref_thread_def current_cpu_def IdleThread)
  qed (use d IdleThread in \<open>simp_all add: deref_thread_def current_cpu_def\<close>)
qed

section \<open>Spawning\<close>

lemma new_inside_kernel_aligned:
  "stk AND 0xf = 0 \<Longrightarrow> new_inside_kernel X entry stk = Inr (start_regs X entry 0 stk)"
  by (simp add: new_inside_kernel_def start_regs_def)

text \<open>
  The three outcomes of \<open>spawn_raw\<close> when the identifier is fresh and the ready queue has room
  for one of the threads of the table: no memory, no slot, or a thread in the first free slot,
  ready on the current CPU. In the second case the new stack stays allocated.
\<close>

lemma spawn_raw_cases:
  assumes X: "x86_ok X" and m: "mem_ok (k_mem k)" and gs: "k_tls k gs = Some cpu"
    and q: "queue_ok (ready_queue cpu)"
    and fresh: "\<forall>t. Some t \<in> set (k_table k) \<longrightarrow> th_id t \<noteq> k_next_id k"
    and room: "None \<in> set (k_table k) \<longrightarrow> length (queue_content (ready_queue cpu)) < 256"
  obtains (oom) "stack_new X (k_mem k) 4 = Inl (ExpectFailed ''Out of memory'')"
      "spawn_raw X k gs entry arg = Inl (ExpectFailed ''Out of memory'')"
    | (full) stk m' where "stack_new X (k_mem k) 4 = Inr (stk, m')" "None \<notin> set (k_table k)"
      "spawn_raw X k gs entry arg = Inr (None, k\<lparr>k_next_id := k_next_id k + 1, k_mem := m',
         k_ram := write_words (k_ram k) (get_top_address stk - size_of_regs)
           (regs_words (start_regs X entry arg (get_top_address stk)))\<rparr>)"
    | (ok) stk m' i q' where "stack_new X (k_mem k) 4 = Inr (stk, m')"
      "i < length (k_table k)" "k_table k ! i = None" "queue_ok q'"
      "queue_content q' = queue_content (ready_queue cpu) @ [TableThread i]"
      "spawn_raw X k gs entry arg = Inr (Some (k_next_id k), k\<lparr>k_next_id := k_next_id k + 1, k_mem := m',
         k_ram := write_words (k_ram k) (get_top_address stk - size_of_regs)
           (regs_words (start_regs X entry arg (get_top_address stk))),
         k_table := (k_table k)[i := Some \<lparr>th_regs = get_top_address stk - size_of_regs, th_id = k_next_id k,
           kernel_stack = stk, th_sched = \<lparr>ss_cpu = Some (tls_cpu_id cpu), ss_state = Ready\<rparr>\<rparr>],
         k_tls := (k_tls k)(gs \<mapsto> cpu\<lparr>ready_queue := q'\<rparr>)\<rparr>)"
proof -
  have "unat (4 :: usize) < 2 ^ 40" by simp
  with X m show thesis
  proof (cases rule: stack_new_cases)
    case oom
    then show thesis using that(1) by (simp add: spawn_raw_def Let_def)
  next
    case (ok stk m' fr)
    let ?t = "\<lparr>th_regs = get_top_address stk - size_of_regs, th_id = k_next_id k, kernel_stack = stk,
      th_sched = \<lparr>ss_cpu = None, ss_state = Born\<rparr>\<rparr>"
    let ?k = "k\<lparr>k_next_id := k_next_id k + 1, k_mem := m',
      k_ram := write_words (k_ram k) (get_top_address stk - size_of_regs)
        (regs_words (start_regs X entry arg (get_top_address stk)))\<rparr>"
    have regs: "new_inside_kernel X entry (get_top_address stk) = Inr (start_regs X entry 0 (get_top_address stk))"
        "(start_regs X entry 0 (get_top_address stk))\<lparr>rdi := arg\<rparr> = start_regs X entry arg (get_top_address stk)"
      using new_inside_kernel_aligned ok by (auto simp: start_regs_def)
    have unfolded: "spawn_raw X k gs entry arg = (case add_thread (k_table k) ?t of (added, table) \<Rightarrow>
        if \<not> added then Inr (None, ?k\<lparr>k_table := table\<rparr>)
        else bind_res (expect_some UnwrapFailed (get_thread_mut table (k_next_id k))) (\<lambda>i.
          bind_res (thread_ready (?k\<lparr>k_table := table\<rparr>) gs i) (\<lambda>k3. Inr (Some (k_next_id k), k3))))"
      using ok(1) regs by (cases "add_thread (k_table k) ?t") (simp add: spawn_raw_def Let_def)
    show thesis
    proof (cases rule: add_thread_cases[of "k_table k" ?t])
      case full
      then show thesis using that(2)[OF ok(1)] unfolded by simp
    next
      case (slot i)
      let ?k2 = "?k\<lparr>k_table := (k_table k)[i := Some ?t]\<rparr>"
      have "None \<in> set (k_table k)" using slot(2,3) by (metis nth_mem)
      then have r: "length (queue_content (ready_queue cpu)) < 256" using room by blast
      have g: "get_thread_mut ((k_table k)[i := Some ?t]) (k_next_id k) = Some i"
        using get_thread_mut_fresh[OF slot(2), of ?t] fresh by simp
      obtain q' where q': "queue_ok q'" "queue_content q' = queue_content (ready_queue cpu) @ [TableThread i]"
        "thread_ready ?k2 gs i = Inr (?k2\<lparr>
           k_table := (k_table ?k2)[i := Some (?t\<lparr>th_sched := \<lparr>ss_cpu = Some (tls_cpu_id cpu), ss_state = Ready\<rparr>\<rparr>)],
           k_tls := (k_tls ?k2)(gs \<mapsto> cpu\<lparr>ready_queue := q'\<rparr>)\<rparr>)"
        by (rule thread_ready_ok[of i ?k2 ?t gs cpu]) (use slot gs q r in simp_all)
      show thesis
        by (rule that(3)[OF ok(1) slot(2,3) q'(1,2)]) (use unfolded slot(1) g q'(3) in simp)
    qed
  qed
qed

section \<open>Bringing up a CPU\<close>

lemma stack_new_one_oom:
  assumes X: "x86_ok X" and m: "mem_ok m" and no: "stack_new X m 1 = Inl p"
  shows "mem_free m = {}"
  using X m
proof (cases rule: alloc_page_cases)
  case (ok a m')
  then obtain r where "alloc_frames X m 1 = Inr (Inr r, m')" "start_addr r = a"
    by (auto simp: alloc_frame_eq alloc_one_def res_iff split: sum.splits) (metis sum.exhaust)
  then show ?thesis using no ok(7) by (simp add: stack_new_def)
qed simp

lemma new_idle_cases:
  assumes X: "x86_ok X" and m: "mem_ok m"
  obtains (oom) "new_idle X e m ram = Inl (ExpectFailed ''Out of memory'')" "mem_free m = {}"
    | (ok) t m' where "new_idle X e m ram = Inr (t, m', write_words ram (th_regs t)
         (regs_words (start_regs X e 0 (get_top_address (kernel_stack t)))))" "mem_ok m'"
      "HHDM_OFFSET m' = HHDM_OFFSET m" "mem_free m' \<subseteq> mem_free m" "get_top_address (kernel_stack t) AND 0xf = 0"
      "th_regs t = get_top_address (kernel_stack t) - size_of_regs" "card (mem_free m) \<le> card (mem_free m') + 1"
proof -
  have "unat (1 :: usize) < 2 ^ 40" by simp
  with X m show thesis
  proof (cases rule: stack_new_cases)
    case oom
    then show thesis using that(1) stack_new_one_oom[OF X m oom] by (simp add: new_idle_def)
  next
    case (ok s m' fr)
    let ?t = "\<lparr>th_regs = get_top_address s - size_of_regs, th_id = 0, kernel_stack = s,
      th_sched = \<lparr>ss_cpu = None, ss_state = Ready\<rparr>\<rparr>"
    have "card (mem_free m) \<le> card (mem_free m') + 1"
      using diff_card_le_card_Diff[of "frames_of fr" "mem_free m"] card_frames_of[of fr] ok(5,7) by simp
    then show thesis
      by (intro that(2)[of ?t m']) (use ok new_inside_kernel_aligned in \<open>auto simp: new_idle_def Let_def\<close>)
  qed
qed

lemma setup_tls_cases:
  assumes X: "x86_ok X" and m: "mem_ok (k_mem k)" and sz: "tls_size \<le> 4096" and c: "unat c < length (k_cpus k)"
  obtains (oom) "setup_tls X tls_size e c k = Inl (ExpectFailed ''Out of memory'')" "card (mem_free (k_mem k)) < 2"
    | (ok) a t m' gs where "gs = a + HHDM_OFFSET (k_mem k)" "unat gs = unat a + unat (HHDM_OFFSET (k_mem k))"
      "unat a \<in> mem_free (k_mem k)" "mem_free m' \<subseteq> mem_free (k_mem k) - {unat a}" "mem_ok m'"
      "HHDM_OFFSET m' = HHDM_OFFSET (k_mem k)" "get_top_address (kernel_stack t) AND 0xf = 0"
      "setup_tls X tls_size e c k = Inr (gs, k\<lparr>k_mem := m',
         k_ram := write_words (k_ram k) (th_regs t) (regs_words (start_regs X e 0 (get_top_address (kernel_stack t)))),
         k_tls := (k_tls k)(gs \<mapsto> \<lparr>tls_cpu_id = c, idt_addr = 0, gdt_addr = 0, thread_addr = NullThread,
           idle_thread = t, ready_queue = queue_new\<rparr>),
         k_cpus := (k_cpus k)[unat c := \<lparr>cd_online = True, cd_tls = gs\<rparr>]\<rparr>)"
      "th_regs t = get_top_address (kernel_stack t) - size_of_regs" "card (mem_free (k_mem k)) \<le> card (mem_free m') + 2"
  using X m
proof (cases rule: alloc_page_cases)
  case (oom e')
  then show thesis using that(1) by (simp add: setup_tls_def alloc_tls_def)
next
  case (ok a m1)
  let ?gs = "a + HHDM_OFFSET (k_mem k)"
  have tls: "alloc_tls X tls_size k = Inr (?gs, k\<lparr>k_mem := m1, k_tls := (k_tls k)(?gs \<mapsto> tls_zeroed)\<rparr>)"
    using ok sz by (simp add: alloc_tls_def)
  have gs: "virt_new X ?gs = Some ?gs" using ok(9) X by (simp add: x86_ok_simps)
  have uc: "unat (ucast c :: usize) = unat c"
    by (rule unat_ucast_u32)
  have one: "card (mem_free (k_mem k)) \<le> card (mem_free m1) + 1"
    using diff_card_le_card_Diff[of "{unat a}" "mem_free (k_mem k)"] ok(6) by simp
  from X ok(2) show thesis
  proof (cases rule: new_idle_cases[where e = e and ram = "k_ram k"])
    case oom
    then show thesis using that(1) tls one by (simp add: setup_tls_def)
  next
    case (ok t m')
    show thesis
      by (rule that(2)[of ?gs a m' t])
        (use ok tls gs uc c one \<open>unat ?gs = unat a + unat (HHDM_OFFSET (k_mem k))\<close>
          \<open>unat a \<in> mem_free (k_mem k)\<close> \<open>mem_free m1 = mem_free (k_mem k) - {unat a}\<close>
          \<open>HHDM_OFFSET m1 = HHDM_OFFSET (k_mem k)\<close> in \<open>auto simp: setup_tls_def Let_def\<close>)
  qed
qed

end
