(* ===== verification/Sched.thy ===== *)
theory Sched
  imports Util Cpu "HOL-Library.Multiset"
begin

text \<open>
  The scheduler (src/src/sched/mod.rs): thread switching on the timer, and load balancing
  between the ready queues of two CPUs. Each function is one critical section under the locks
  of the queues it touches.
\<close>

section \<open>Switching\<close>

text \<open>The state change of \<open>force_switch_to_idle\<close>, before it loads the idle thread's registers.\<close>

definition enter_idle :: "kernel \<Rightarrow> u64 \<Rightarrow> kernel res" where
  "enter_idle k gs =
     bind_res (current_cpu k gs) (\<lambda>cpu.
     Inr (k\<lparr>k_tls := (k_tls k)(gs \<mapsto> cpu\<lparr>thread_addr := IdleThread gs\<rparr>)\<rparr>))"

definition switch :: "kernel \<Rightarrow> u64 \<Rightarrow> kernel res" where
  "switch k gs =
     bind_res (current_cpu k gs) (\<lambda>cpu.
     let idle_thread_addr = IdleThread gs in
     bind_res (queue_pop (ready_queue cpu)) (\<lambda>(next, q).
       case next of
         None \<Rightarrow> Inr (k\<lparr>k_tls := (k_tls k)(gs \<mapsto> cpu\<lparr>ready_queue := q\<rparr>)\<rparr>)
       | Some next_thread_addr \<Rightarrow>
           bind_res (if thread_addr cpu \<noteq> idle_thread_addr
                     then push_expect queue_push q (thread_addr cpu) else Inr q) (\<lambda>q'.
           Inr (k\<lparr>k_tls := (k_tls k)(gs \<mapsto> cpu\<lparr>ready_queue := q', thread_addr := next_thread_addr\<rparr>)\<rparr>))))"

section \<open>Load balancing\<close>

text \<open>\<open>isize::abs\<close>, with its wrap-around at the least value.\<close>

definition isize_abs :: "64 word \<Rightarrow> 64 word" where
  "isize_abs d = (if sint d < 0 then - d else d)"

text \<open>The loop that moves threads between two queues and records their new CPU.\<close>

fun move_threads ::
  "nat \<Rightarrow> u32 \<Rightarrow> thread_ptr queue \<Rightarrow> thread_ptr queue \<Rightarrow> kernel
     \<Rightarrow> (thread_ptr queue \<times> thread_ptr queue \<times> kernel) res" where
  "move_threads 0 cpu_id from to k = Inr (from, to, k)"
| "move_threads (Suc n) cpu_id from to k =
     bind_res (queue_pop from) (\<lambda>(popped, from').
       case popped of
         None \<Rightarrow> move_threads n cpu_id from' to k
       | Some addr \<Rightarrow>
           bind_res (deref_thread k addr) (\<lambda>t.
           bind_res (store_thread k addr (t\<lparr>th_sched := (th_sched t)\<lparr>ss_cpu := Some cpu_id\<rparr>\<rparr>)) (\<lambda>k'.
           bind_res (push_expect queue_push to addr) (\<lambda>to'.
           move_threads n cpu_id from' to' k'))))"

definition moved_msg :: "nat \<Rightarrow> u32 \<Rightarrow> u32 \<Rightarrow> string" where
  "moved_msg to_move a b = ''Moved '' @ show_dec to_move @ '' threads from CPU '' @ show_dec (unat a) @
     '' to CPU '' @ show_dec (unat b)"

definition do_load_balance ::
  "thread_ptr queue \<Rightarrow> thread_ptr queue \<Rightarrow> u32 \<Rightarrow> u32 \<Rightarrow> kernel
     \<Rightarrow> (thread_ptr queue \<times> thread_ptr queue \<times> kernel) res" where
  "do_load_balance qa qb cpu_id other_cpu_id k =
     (let delta = q_len qa - q_len qb in
      if sint (isize_abs delta) \<le> 1 then Inr (qa, qb, k)
      else
        let to_move = unat (isize_abs delta div 2) in
        if sint delta > 0
        then bind_res (move_threads to_move other_cpu_id qa qb k) (\<lambda>(qa', qb', k').
          Inr (qa', qb', println (moved_msg to_move cpu_id other_cpu_id) k'))
        else bind_res (move_threads to_move cpu_id qb qa k) (\<lambda>(qb', qa', k').
          Inr (qa', qb', println (moved_msg to_move other_cpu_id cpu_id) k')))"

text \<open>The partner: a random identifier below 12; \<open>tsc\<close> is the time stamp that was read.\<close>

definition get_random_online_cpu :: "kernel \<Rightarrow> u64 \<Rightarrow> u64 option" where
  "get_random_online_cpu k tsc = get_cpu_tls k (ucast (random_u64 tsc) mod 12)"

definition set_queue :: "u64 \<Rightarrow> thread_ptr queue \<Rightarrow> kernel \<Rightarrow> kernel" where
  "set_queue gs q k = k\<lparr>k_tls := (k_tls k)(gs := map_option (\<lambda>t. t\<lparr>ready_queue := q\<rparr>) (k_tls k gs))\<rparr>"

definition maybe_load_balance :: "kernel \<Rightarrow> u64 \<Rightarrow> u64 \<Rightarrow> kernel res" where
  "maybe_load_balance k gs tsc =
     (case get_random_online_cpu k tsc of
        None \<Rightarrow> Inr k
      | Some other_gs \<Rightarrow>
          bind_res (current_cpu k other_gs) (\<lambda>other.
          bind_res (current_cpu k gs) (\<lambda>cpu.
          if tls_cpu_id cpu = tls_cpu_id other then Inr k
          else bind_res (do_load_balance (ready_queue cpu) (ready_queue other)
                 (tls_cpu_id cpu) (tls_cpu_id other) k) (\<lambda>(qa, qb, k').
               Inr (set_queue other_gs qb (set_queue gs qa k'))))))"

section \<open>Specification\<close>

text \<open>The threads a CPU is responsible for: the one it runs, unless idle, and its queue.\<close>

definition cpu_threads :: "tls_data \<Rightarrow> thread_ptr list" where
  "cpu_threads cpu =
     (case thread_addr cpu of TableThread i \<Rightarrow> [TableThread i] | _ \<Rightarrow> []) @ queue_content (ready_queue cpu)"

text \<open>The thread table after the threads in \<open>S\<close> were assigned to a CPU.\<close>

definition retarget :: "thread_ptr set \<Rightarrow> u32 \<Rightarrow> thread_table \<Rightarrow> thread_table" where
  "retarget S c tbl =
     map (\<lambda>i. if TableThread i \<in> S
              then map_option (\<lambda>t. t\<lparr>th_sched := (th_sched t)\<lparr>ss_cpu := Some c\<rparr>\<rparr>) (tbl ! i)
              else tbl ! i) [0 ..< length tbl]"

text \<open>Half of the excess goes from the longer list to the shorter, unless they differ by at most one.\<close>

definition balance_spec :: "'a list \<Rightarrow> 'a list \<Rightarrow> 'a list \<times> 'a list" where
  "balance_spec a b =
     (if length a > length b + 1
      then let m = (length a - length b) div 2 in (drop m a, b @ take m a)
      else if length b > length a + 1
      then let m = (length b - length a) div 2 in (a @ take m b, drop m b)
      else (a, b))"

text \<open>A number of timer switches on one CPU.\<close>

fun switches :: "nat \<Rightarrow> kernel \<Rightarrow> u64 \<Rightarrow> kernel res" where
  "switches 0 k gs = Inr k"
| "switches (Suc n) k gs = bind_res (switch k gs) (\<lambda>k'. switches n k' gs)"

definition live :: "thread_table \<Rightarrow> nat \<Rightarrow> bool" where
  "live tbl i \<longleftrightarrow> i < length tbl \<and> tbl ! i \<noteq> None"

text \<open>A small kernel state for closed instances: a CPU with given threads, a table of \<open>n\<close> threads.\<close>

definition sample_cpu :: "u32 \<Rightarrow> thread_ptr \<Rightarrow> thread_ptr list \<Rightarrow> tls_data" where
  "sample_cpu c p ps = tls_zeroed\<lparr>tls_cpu_id := c, thread_addr := p, ready_queue := queue_of ps\<rparr>"

definition sample_table :: "nat \<Rightarrow> thread_table" where
  "sample_table n = replicate n (Some (idle_thread tls_zeroed)) @ replicate (256 - n) None"

definition sample_kernel :: kernel where
  "sample_kernel = (kernel_start memory_start (\<lambda>_. 0))\<lparr>k_table := sample_table 4,
     k_tls := [4096 \<mapsto> sample_cpu 0 (TableThread 0) [TableThread 1, TableThread 2, TableThread 3]]\<rparr>"

lemma length_retarget [simp]: "length (retarget S c tbl) = length tbl"
  by (simp add: retarget_def)

lemma nth_retarget:
  "i < length tbl \<Longrightarrow> retarget S c tbl ! i =
     (if TableThread i \<in> S then map_option (\<lambda>t. t\<lparr>th_sched := (th_sched t)\<lparr>ss_cpu := Some c\<rparr>\<rparr>) (tbl ! i)
      else tbl ! i)"
  by (simp add: retarget_def)

lemma live_retarget [simp]: "live (retarget S c tbl) i \<longleftrightarrow> live tbl i"
  by (auto simp: live_def nth_retarget split: if_splits)

lemma retarget_empty [simp]: "retarget {} c tbl = tbl"
  by (simp add: retarget_def map_nth)

lemma retarget_insert:
  assumes "i < length tbl" "tbl ! i = Some t" "TableThread i \<notin> S"
  shows "retarget S c (tbl[i := Some (t\<lparr>th_sched := (th_sched t)\<lparr>ss_cpu := Some c\<rparr>\<rparr>)]) =
    retarget (insert (TableThread i) S) c tbl"
  using assms by (intro nth_equalityI) (auto simp: nth_retarget nth_list_update)

section \<open>Moving threads\<close>

lemma move_threads_ok:
  assumes "queue_ok from" "queue_ok to" "queue_content from = xs" "n \<le> length xs"
    and "length (queue_content to) + n \<le> 256" "distinct xs"
    and "\<forall>p \<in> set xs. \<exists>i. p = TableThread i \<and> live (k_table k) i"
  shows "\<exists>from' to'. move_threads n c from to k =
      Inr (from', to', k\<lparr>k_table := retarget (set (take n xs)) c (k_table k)\<rparr>) \<and>
    queue_ok from' \<and> queue_ok to' \<and> queue_content from' = drop n xs \<and>
    queue_content to' = queue_content to @ take n xs"
  using assms
proof (induction n arbitrary: "from" to k xs)
  case 0
  then show ?case by simp
next
  case (Suc n)
  then obtain p ps where xs: "xs = p # ps" by (cases xs) auto
  obtain i where p: "p = TableThread i" and i: "live (k_table k) i" using Suc.prems(7) xs by auto
  from i obtain t where t: "i < length (k_table k)" "k_table k ! i = Some t" by (auto simp: live_def)
  obtain from1 where f: "queue_pop from = Inr (Some p, from1)" "queue_ok from1" "queue_content from1 = ps"
    using rq.pop_first[OF Suc.prems(1)] Suc.prems(3) xs by blast
  have room: "length (queue_content to) < 256" using Suc.prems(5) by simp
  obtain to1 where to1: "push_expect queue_push to p = Inr to1" "queue_ok to1"
      "queue_content to1 = queue_content to @ [p]"
    using rq.push_expect_room[OF Suc.prems(2) room] by blast
  let ?t = "t\<lparr>th_sched := (th_sched t)\<lparr>ss_cpu := Some c\<rparr>\<rparr>"
  let ?k = "k\<lparr>k_table := (k_table k)[i := Some ?t]\<rparr>"
  have ps: "\<forall>q \<in> set ps. \<exists>j. q = TableThread j \<and> live (k_table ?k) j"
  proof
    fix q assume "q \<in> set ps"
    then obtain j where "q = TableThread j" "live (k_table k) j" using Suc.prems(7) xs by auto
    then show "\<exists>j. q = TableThread j \<and> live (k_table ?k) j"
      by (cases "j = i") (simp_all add: live_def)
  qed
  obtain from' to' where IH: "move_threads n c from1 to1 ?k =
      Inr (from', to', ?k\<lparr>k_table := retarget (set (take n ps)) c (k_table ?k)\<rparr>)"
      "queue_ok from'" "queue_ok to'" "queue_content from' = drop n ps"
      "queue_content to' = queue_content to1 @ take n ps"
    using Suc.IH[OF f(2) to1(2) f(3) _ _ _ ps] Suc.prems(4-6) to1(3) xs by auto
  have "p \<notin> set (take n ps)" using Suc.prems(6) xs by (auto dest: in_set_takeD)
  then have "retarget (set (take n ps)) c ((k_table k)[i := Some ?t]) = retarget (set (take (Suc n) xs)) c (k_table k)"
    using retarget_insert[OF t] p xs by simp
  then show ?case
    using f(1) to1 IH p xs t by (simp add: deref_table_ok store_table)
qed

lemma balance_delta:
  assumes "unat (a :: usize) \<le> 256" "unat b \<le> 256"
  shows "sint (isize_abs (a - b)) = \<bar>int (unat a) - int (unat b)\<bar>"
    "sint (a - b) = int (unat a) - int (unat b)"
    "unat (isize_abs (a - b) div 2) = nat (\<bar>int (unat a) - int (unat b)\<bar> div 2)"
proof -
  have s: "sint (c - d) = int (unat c) - int (unat d)" if "unat c \<le> 256" "unat d \<le> 256" for c d :: usize
  proof -
    have "int (unat c) \<le> 256" "int (unat d) \<le> 256" using that by linarith+
    then have "uint c \<le> 256" "uint d \<le> 256" "0 \<le> uint c" "0 \<le> uint d"
      by (simp_all only: uint_nat of_nat_0_le_iff)
    then have "- 9223372036854775808 \<le> uint c - uint d" "uint c - uint d < 9223372036854775808"
      by linarith+
    then have fits: "signed_take_bit 63 (int (unat c) - int (unat d)) = int (unat c) - int (unat d)"
      by (intro signed_take_bit_int_eq_self) simp_all
    have "sint (c - d) = sint (word_of_int (int (unat c) - int (unat d)) :: usize)" by simp
    also have "\<dots> = signed_take_bit 63 (int (unat c) - int (unat d))"
      by (subst signed_of_int) simp
    also have "\<dots> = int (unat c) - int (unat d)"
      by (rule fits)
    finally show ?thesis .
  qed
  show d: "sint (a - b) = int (unat a) - int (unat b)" using s assms .
  show ab: "sint (isize_abs (a - b)) = \<bar>int (unat a) - int (unat b)\<bar>"
    using s[OF assms] s[OF assms(2,1)] d by (auto simp: isize_abs_def)
  have "unat (isize_abs (a - b)) = nat \<bar>int (unat a) - int (unat b)\<bar>"
  proof (cases "unat b \<le> unat a")
    case True
    then have "\<not> sint (a - b) < 0" using d by linarith
    then have "isize_abs (a - b) = a - b" by (simp only: isize_abs_def if_False)
    moreover have "nat \<bar>int (unat a) - int (unat b)\<bar> = unat a - unat b" using True by linarith
    ultimately show ?thesis by (simp only: unat_sub_u64[OF True])
  next
    case False
    then have "sint (a - b) < 0" using d by linarith
    then have "isize_abs (a - b) = b - a" by (simp only: isize_abs_def if_True minus_diff_eq)
    moreover have "nat \<bar>int (unat a) - int (unat b)\<bar> = unat b - unat a" using False by linarith
    ultimately show ?thesis using False by (simp only: unat_sub_u64)
  qed
  then show "unat (isize_abs (a - b) div 2) = nat (\<bar>int (unat a) - int (unat b)\<bar> div 2)"
    by (simp add: unat_div nat_div_distrib)
qed

lemma balance_spec_props:
  "balance_spec a b = (a', b') \<Longrightarrow> mset (a' @ b') = mset (a @ b)"
  "balance_spec a b = (a', b') \<Longrightarrow> length a' \<le> length b' + 1 \<and> length b' \<le> length a' + 1"
  using mset_append[of "take ((length a - length b) div 2) a" "drop ((length a - length b) div 2) a"]
    mset_append[of "take ((length b - length a) div 2) b" "drop ((length b - length a) div 2) b"]
  by (auto simp: balance_spec_def Let_def split: if_splits)

lemma do_load_balance_spec:
  assumes qa: "queue_ok qa" and qb: "queue_ok qb"
    and d: "distinct (queue_content qa @ queue_content qb)"
    and l: "\<forall>p \<in> set (queue_content qa @ queue_content qb). \<exists>i. p = TableThread i \<and> live (k_table k) i"
    and ab: "queue_content qa = a" "queue_content qb = b" "balance_spec a b = (a', b')"
  obtains qa' qb' k' where "do_load_balance qa qb ca cb k = Inr (qa', qb', k')"
    "queue_ok qa'" "queue_ok qb'" "queue_content qa' = a'" "queue_content qb' = b'"
    "k' = k\<lparr>k_table := retarget (set b' - set b) cb (retarget (set a' - set a) ca (k_table k)), k_log := k_log k'\<rparr>"
proof -
  have len: "unat (q_len qa) = length a" "unat (q_len qb) = length b" "length a \<le> 256" "length b \<le> 256"
    using rq.qlen_content rq.within_cap qa qb ab by auto
  note delta = balance_delta[of "q_len qa" "q_len qb", unfolded len(1,2), OF len(3,4)]
  define m where "m = nat (\<bar>int (length a) - int (length b)\<bar> div 2)"
  have da: "distinct a" "distinct b" "set a \<inter> set b = {}" using d ab by auto
  have la: "\<forall>p \<in> set a. \<exists>i. p = TableThread i \<and> live (k_table k) i"
      "\<forall>p \<in> set b. \<exists>i. p = TableThread i \<and> live (k_table k) i" using l ab by auto
  consider (eq) "length a \<le> length b + 1" "length b \<le> length a + 1" | (gt) "length a > length b + 1"
    | (lt) "length b > length a + 1" by linarith
  then show thesis
  proof cases
    case eq
    then have "\<bar>int (length a) - int (length b)\<bar> \<le> 1" by linarith
    then have "do_load_balance qa qb ca cb k = Inr (qa, qb, k)"
      by (simp add: do_load_balance_def delta(1) Let_def)
    moreover have "a' = a" "b' = b" using ab(3) eq by (auto simp: balance_spec_def)
    ultimately show thesis using that[of qa qb k] qa qb ab by simp
  next
    case gt
    then have sg: "\<not> \<bar>int (length a) - int (length b)\<bar> \<le> 1" "0 < int (length a) - int (length b)"
      and "nat \<bar>int (length a) - int (length b)\<bar> = length a - length b" by linarith+
    then have m: "m = (length a - length b) div 2" by (simp add: m_def nat_div_distrib)
    have s: "a' = drop m a" "b' = b @ take m a" using ab(3) gt by (auto simp: balance_spec_def m Let_def)
    have room: "m \<le> length a" "length (queue_content qb) + m \<le> 256"
      using m gt len(3) ab(2) by simp_all
    obtain qa' qb' where mv: "move_threads m cb qa qb k =
        Inr (qa', qb', k\<lparr>k_table := retarget (set (take m a)) cb (k_table k)\<rparr>)"
        "queue_ok qa'" "queue_ok qb'" "queue_content qa' = drop m a" "queue_content qb' = b @ take m a"
      using move_threads_ok[OF qa qb ab(1) room da(1) la(1), of cb] unfolding ab(2) by blast
    have "set b' - set b = set (take m a)" "set a' - set a = {}"
      using s da by (auto dest: in_set_takeD in_set_dropD)
    then have tbl: "retarget (set b' - set b) cb (retarget (set a' - set a) ca (k_table k)) =
        retarget (set (take m a)) cb (k_table k)" by (simp only: retarget_empty)
    have "do_load_balance qa qb ca cb k = Inr (qa', qb', println (moved_msg m ca cb)
        (k\<lparr>k_table := retarget (set (take m a)) cb (k_table k)\<rparr>))"
      by (simp only: do_load_balance_def delta Let_def m_def[symmetric] mv(1) sg if_False if_True
          bind_res.simps prod.case)
    from that[OF this mv(2) mv(3) mv(4)[folded s] mv(5)[folded s]] show thesis
      by (simp add: tbl println_def)
  next
    case lt
    then have sg: "\<not> \<bar>int (length a) - int (length b)\<bar> \<le> 1" "\<not> 0 < int (length a) - int (length b)"
      and "nat \<bar>int (length a) - int (length b)\<bar> = length b - length a" by linarith+
    then have m: "m = (length b - length a) div 2" by (simp add: m_def nat_div_distrib)
    have s: "a' = a @ take m b" "b' = drop m b" using ab(3) lt by (auto simp: balance_spec_def m Let_def)
    have room: "m \<le> length b" "length (queue_content qa) + m \<le> 256"
      using m lt len(4) ab(1) by simp_all
    obtain qa' qb' where mv: "move_threads m ca qb qa k =
        Inr (qb', qa', k\<lparr>k_table := retarget (set (take m b)) ca (k_table k)\<rparr>)"
        "queue_ok qb'" "queue_ok qa'" "queue_content qb' = drop m b" "queue_content qa' = a @ take m b"
      using move_threads_ok[OF qb qa ab(2) room da(2) la(2), of ca] unfolding ab(1) by blast
    have "set a' - set a = set (take m b)" "set b' - set b = {}"
      using s da by (auto dest: in_set_takeD in_set_dropD)
    then have tbl: "retarget (set b' - set b) cb (retarget (set a' - set a) ca (k_table k)) =
        retarget (set (take m b)) ca (k_table k)" by (simp only: retarget_empty)
    have "do_load_balance qa qb ca cb k = Inr (qa', qb', println (moved_msg m cb ca)
        (k\<lparr>k_table := retarget (set (take m b)) ca (k_table k)\<rparr>))"
      by (simp only: do_load_balance_def delta Let_def m_def[symmetric] mv(1) sg if_False if_True
          bind_res.simps prod.case)
    from that[OF this mv(3) mv(2) mv(5)[folded s] mv(4)[folded s]] show thesis
      by (simp add: tbl println_def)
  qed
qed

section \<open>Switching\<close>

text \<open>A switch always returns: the slot that \<open>pop\<close> freed makes room for the preempted thread.\<close>

lemma switch_cases:
  assumes gs: "k_tls k gs = Some cpu" and ok: "queue_ok (ready_queue cpu)"
  obtains (stay) "queue_content (ready_queue cpu) = []" "switch k gs = Inr k"
    | (swap) p ps q where "queue_content (ready_queue cpu) = p # ps" "queue_ok q"
      "queue_content q = ps @ (if thread_addr cpu = IdleThread gs then [] else [thread_addr cpu])"
      "switch k gs = Inr (k\<lparr>k_tls := (k_tls k)(gs \<mapsto> cpu\<lparr>ready_queue := q, thread_addr := p\<rparr>)\<rparr>)"
  using ok
proof (cases rule: rq.pop_cases)
  case empty
  then show thesis using stay gs by (simp add: switch_def current_cpu_def fun_upd_idem)
next
  case (item p q1)
  have room: "length (queue_content q1) < 256" using rq.within_cap[OF ok] item by simp
  obtain q2 where q2: "push_expect queue_push q1 (thread_addr cpu) = Inr q2" "queue_ok q2"
      "queue_content q2 = queue_content q1 @ [thread_addr cpu]"
    using rq.push_expect_room[OF item(2) room] by blast
  show thesis
  proof (rule swap[OF item(3), of "if thread_addr cpu = IdleThread gs then q1 else q2"])
    show "switch k gs = Inr (k\<lparr>k_tls := (k_tls k)(gs \<mapsto> cpu\<lparr>ready_queue :=
        if thread_addr cpu = IdleThread gs then q1 else q2, thread_addr := p\<rparr>)\<rparr>)"
      using gs item q2 by (simp add: switch_def current_cpu_def)
  qed (use item q2 in simp_all)
qed

lemma cpu_threads_table:
  "thread_addr cpu = TableThread i \<Longrightarrow> cpu_threads cpu = TableThread i # queue_content (ready_queue cpu)"
  by (simp add: cpu_threads_def)

lemma mset_rotate1_eq: "mset (rotate1 xs) = mset xs"
  by (cases xs) simp_all

lemma mset_rotate_eq: "mset (rotate n xs) = mset xs"
  by (induction n) (simp_all add: mset_rotate1_eq)

lemma switches_rotate:
  assumes "k_tls k gs = Some cpu" "queue_ok (ready_queue cpu)" "thread_addr cpu = TableThread i"
    and "\<forall>p \<in> set (queue_content (ready_queue cpu)). \<exists>j. p = TableThread j"
  shows "\<exists>k' cpu' j. switches n k gs = Inr k' \<and> k_tls k' gs = Some cpu' \<and> queue_ok (ready_queue cpu') \<and>
    thread_addr cpu' = TableThread j \<and> cpu_threads cpu' = rotate n (cpu_threads cpu)"
  using assms
proof (induction n arbitrary: k cpu i)
  case 0
  then show ?case by simp
next
  case (Suc n)
  from Suc.prems(1,2) show ?case
  proof (cases rule: switch_cases)
    case stay
    then show ?thesis using Suc.IH[OF Suc.prems] cpu_threads_table[OF Suc.prems(3)] by simp
  next
    case (swap p ps q)
    obtain j where p: "p = TableThread j" using Suc.prems(4) swap(1) by auto
    let ?cpu = "cpu\<lparr>ready_queue := q, thread_addr := p\<rparr>"
    let ?k = "k\<lparr>k_tls := (k_tls k)(gs \<mapsto> ?cpu)\<rparr>"
    have c: "queue_content (ready_queue ?cpu) = ps @ [TableThread i]" using swap(3) Suc.prems(3) by simp
    have r: "cpu_threads ?cpu = rotate1 (cpu_threads cpu)"
      using c p swap(1) Suc.prems(3) by (simp add: cpu_threads_def)
    have "\<exists>k' cpu' j. switches n ?k gs = Inr k' \<and> k_tls k' gs = Some cpu' \<and> queue_ok (ready_queue cpu') \<and>
      thread_addr cpu' = TableThread j \<and> cpu_threads cpu' = rotate n (cpu_threads ?cpu)"
      by (rule Suc.IH[of ?k ?cpu j]) (use swap Suc.prems p c in auto)
    then show ?thesis using swap(4) r by (simp add: rotate1_rotate_swap)
  qed
qed

section \<open>Properties\<close>

text \<open>
  C15. Round robin: while a CPU has threads to run, repeated timer switches never panic and run
  its threads (the current one, then the ready queue in order) cyclically: every one of them
  runs once in each round, and the idle thread is left at the first switch.
\<close>

theorem switch_round_robin:
  assumes "k_tls k gs = Some cpu" "queue_ok (ready_queue cpu)" "cpu_threads cpu \<noteq> []"
    and "thread_addr cpu = IdleThread gs \<or> thread_addr cpu = TableThread i"
    and "\<forall>p \<in> set (queue_content (ready_queue cpu)). \<exists>j. p = TableThread j"
    and "start = (if thread_addr cpu = IdleThread gs then 1 else 0)"
  shows "\<exists>k' cpu'. switches (start + n) k gs = Inr k' \<and> k_tls k' gs = Some cpu' \<and>
    thread_addr cpu' = cpu_threads cpu ! (n mod length (cpu_threads cpu)) \<and>
    mset (cpu_threads cpu') = mset (cpu_threads cpu)"
proof -
  have "\<exists>k0 cpu0 j. switches start k gs = Inr k0 \<and> k_tls k0 gs = Some cpu0 \<and> queue_ok (ready_queue cpu0) \<and>
      thread_addr cpu0 = TableThread j \<and> cpu_threads cpu0 = cpu_threads cpu"
    using assms(1,2)
  proof (cases rule: switch_cases)
    case stay
    then show ?thesis using assms by (auto simp: cpu_threads_def)
  next
    case (swap p ps q)
    then show ?thesis using assms by (auto simp: cpu_threads_def)
  qed
  then obtain k0 cpu0 j where k0: "switches start k gs = Inr k0" "k_tls k0 gs = Some cpu0"
      "queue_ok (ready_queue cpu0)" "thread_addr cpu0 = TableThread j" "cpu_threads cpu0 = cpu_threads cpu"
    by blast
  have "\<forall>p \<in> set (queue_content (ready_queue cpu0)). \<exists>j. p = TableThread j"
    using k0(5) assms(4,5) cpu_threads_table[OF k0(4)] by (auto simp: cpu_threads_def split: thread_ptr.splits)
  from switches_rotate[OF k0(2-4) this, of n] obtain k' cpu' j' where k':
    "switches n k0 gs = Inr k'" "k_tls k' gs = Some cpu'" "thread_addr cpu' = TableThread j'"
    "cpu_threads cpu' = rotate n (cpu_threads cpu)" using k0(5) by auto
  have "thread_addr cpu' = hd (cpu_threads cpu')" using k'(3) by (simp add: cpu_threads_def)
  then have "thread_addr cpu' = cpu_threads cpu ! (n mod length (cpu_threads cpu))"
    using k'(4) hd_rotate_conv_nth[OF assms(3)] by simp
  moreover have "switches (start + n) k gs = Inr k'" using k0(1) k'(1) assms(6) by (auto simp: res_iff)
  ultimately show ?thesis using k'(2,4) by (auto simp: mset_rotate_eq)
qed

theorem switch_round_robin_witness:
  "\<exists>k' cpu'. switches (0 + 6) sample_kernel 4096 = Inr k' \<and> k_tls k' 4096 = Some cpu' \<and>
     thread_addr cpu' = TableThread 2"
proof -
  let ?cpu = "sample_cpu 0 (TableThread 0) [TableThread 1, TableThread 2, TableThread 3]"
  have "cpu_threads ?cpu = map TableThread [0, 1, 2, 3]"
    by (simp add: cpu_threads_def sample_cpu_def queue_of_ok)
  moreover have "\<exists>k' cpu'. switches (0 + 6) sample_kernel 4096 = Inr k' \<and> k_tls k' 4096 = Some cpu' \<and>
     thread_addr cpu' = cpu_threads ?cpu ! (6 mod length (cpu_threads ?cpu)) \<and>
     mset (cpu_threads cpu') = mset (cpu_threads ?cpu)"
    by (rule switch_round_robin[where i = 0])
      (simp_all add: sample_kernel_def sample_cpu_def queue_of_ok cpu_threads_def)
  ultimately show ?thesis by auto
qed

text \<open>
  C14. Load balancing between two queues of live threads never panics, even when a queue is
  full; it loses and duplicates no thread, leaves the queue lengths within one of each other,
  keeps the order of the threads that stay, and records in exactly the moved threads the CPU
  they were moved to.
\<close>

theorem do_load_balance_correct:
  assumes "queue_ok qa" "queue_ok qb" "distinct (queue_content qa @ queue_content qb)"
    and "\<forall>p \<in> set (queue_content qa @ queue_content qb). \<exists>i. p = TableThread i \<and> live (k_table k) i"
  shows "\<exists>qa' qb' k'. do_load_balance qa qb ca cb k = Inr (qa', qb', k') \<and> queue_ok qa' \<and> queue_ok qb' \<and>
    mset (queue_content qa' @ queue_content qb') = mset (queue_content qa @ queue_content qb) \<and>
    length (queue_content qa') \<le> length (queue_content qb') + 1 \<and>
    length (queue_content qb') \<le> length (queue_content qa') + 1 \<and>
    (queue_content qa', queue_content qb') = balance_spec (queue_content qa) (queue_content qb) \<and>
    k_table k' = retarget (set (queue_content qb') - set (queue_content qb)) cb
      (retarget (set (queue_content qa') - set (queue_content qa)) ca (k_table k)) \<and>
    k_tls k' = k_tls k"
proof -
  obtain a' b' where s: "balance_spec (queue_content qa) (queue_content qb) = (a', b')" by fastforce
  obtain qa' qb' k' where r: "do_load_balance qa qb ca cb k = Inr (qa', qb', k')" "queue_ok qa'" "queue_ok qb'"
    "queue_content qa' = a'" "queue_content qb' = b'"
    "k' = k\<lparr>k_table := retarget (set b' - set (queue_content qb)) cb
       (retarget (set a' - set (queue_content qa)) ca (k_table k)), k_log := k_log k'\<rparr>"
    by (rule do_load_balance_spec[OF assms refl refl s])
  have "k_table k' = retarget (set b' - set (queue_content qb)) cb
      (retarget (set a' - set (queue_content qa)) ca (k_table k))" "k_tls k' = k_tls k"
    by (subst r(6), simp)+
  then show ?thesis using r(1-5) s balance_spec_props[OF s] by auto
qed

theorem do_load_balance_correct_witness:
  "\<exists>qa' qb' k'. do_load_balance (queue_of [TableThread 0, TableThread 1, TableThread 2]) (queue_of []) 0 1
      sample_kernel = Inr (qa', qb', k') \<and>
    queue_content qa' = [TableThread 1, TableThread 2] \<and> queue_content qb' = [TableThread 0]"
proof -
  let ?a = "[TableThread 0, TableThread 1, TableThread 2]" and ?b = "[] :: thread_ptr list"
  have q: "queue_ok (queue_of ?a)" "queue_content (queue_of ?a) = ?a"
      "queue_ok (queue_of ?b)" "queue_content (queue_of ?b) = ?b"
    by (rule queue_of_ok, simp)+
  have l: "\<forall>p \<in> set (?a @ ?b). \<exists>i. p = TableThread i \<and> live (k_table sample_kernel) i"
    by (simp add: live_def sample_kernel_def sample_table_def nth_append)
  have d: "distinct (?a @ ?b)" by simp
  have s: "balance_spec ?a ?b = ([TableThread 1, TableThread 2], [TableThread 0])"
    by (simp add: balance_spec_def)
  show ?thesis
    using do_load_balance_correct[of "queue_of ?a" "queue_of ?b" sample_kernel 0 1, unfolded q(2,4), OF q(1,3) d l]
    unfolding s prod.inject by blast
qed

end
