(* ===== verification/Lapic.thy ===== *)
theory Lapic
  imports Sched
begin

text \<open>
  The local interrupt controller (src/src/arch/x86_64/lapic.rs) and the timer handler of the
  scheduler (src/src/sched/mod.rs, \<open>timer_handler\<close>) that drives it. A volatile write to a
  register is an event: it is appended to \<open>k_mmio\<close> with its address. What a volatile read
  returns is the device's choice, a function \<open>rd\<close> of the address; the value of the
  \<open>IA32_APIC_BASE\<close> register of the CPU is the argument \<open>msr\<close>.
\<close>

record lapic =
  lapic_address :: u64

definition lapic_new :: "u64 \<Rightarrow> lapic" where
  "lapic_new a = \<lparr>lapic_address = a\<rparr>"

definition lapic_read :: "(u64 \<Rightarrow> u32) \<Rightarrow> lapic \<Rightarrow> u64 \<Rightarrow> u32" where
  "lapic_read rd l offset = rd (lapic_address l + offset)"

definition lapic_write :: "lapic \<Rightarrow> u64 \<Rightarrow> u32 \<Rightarrow> kernel \<Rightarrow> kernel" where
  "lapic_write l offset v k = k\<lparr>k_mmio := k_mmio k @ [(lapic_address l + offset, v)]\<rparr>"

definition send_eoi :: "lapic \<Rightarrow> kernel \<Rightarrow> kernel" where
  "send_eoi l k = lapic_write l 0xB0 0 k"

definition lapic_phys_addr :: "u64 \<Rightarrow> u64" where
  "lapic_phys_addr msr = msr AND NOT 0xfff"

definition current_lapic :: "x86_crate \<Rightarrow> memory_state \<Rightarrow> u64 \<Rightarrow> lapic res" where
  "current_lapic X m msr =
     bind_res (expect_some AddrInvalid (phys_new X (lapic_phys_addr msr))) (\<lambda>p.
     bind_res (phys_to_virt X m p) (\<lambda>v. Inr (lapic_new v)))"

definition setup_lapic_timer :: "x86_crate \<Rightarrow> (u64 \<Rightarrow> u32) \<Rightarrow> u64 \<Rightarrow> kernel \<Rightarrow> kernel res" where
  "setup_lapic_timer X rd msr k =
     bind_res (current_lapic X (k_mem k) msr) (\<lambda>l.
     let svr = lapic_read rd l 0xf0;
         k1 = lapic_write l 0xf0 (svr OR push_bit 8 1) k;
         k2 = lapic_write l 0x3e0 3 k1;
         k3 = lapic_write l 0x320 32 k2
     in Inr (lapic_write l 0x380 0x0fff k3))"

definition timer_handler :: "x86_crate \<Rightarrow> u64 \<Rightarrow> u64 \<Rightarrow> kernel \<Rightarrow> u64 \<Rightarrow> kernel res" where
  "timer_handler X msr tsc k gs =
     bind_res (switch k gs) (\<lambda>k1.
     bind_res (maybe_load_balance k1 gs tsc) (\<lambda>k2.
     bind_res (current_lapic X (k_mem k2) msr) (\<lambda>l.
     let k3 = lapic_write l 0x380 0x0fff k2 in
     Inr (send_eoi l k3))))"

section \<open>The register window\<close>

text \<open>The direct map reaches the registers: their physical address is one of the architecture.\<close>

definition lapic_mapped :: "memory_state \<Rightarrow> u64 \<Rightarrow> bool" where
  "lapic_mapped m msr \<longleftrightarrow> hhdm_ok (HHDM_OFFSET m) \<and> unat (lapic_phys_addr msr) < 2 ^ 52 \<and>
     unat (lapic_phys_addr msr) + unat (HHDM_OFFSET m) < 2 ^ 64"

lemma current_lapic_ok:
  assumes "x86_ok X" "lapic_mapped m msr"
  shows "current_lapic X m msr = Inr \<lparr>lapic_address = lapic_phys_addr msr + HHDM_OFFSET m\<rparr>"
proof -
  have "phys_new X (lapic_phys_addr msr) = Some (lapic_phys_addr msr)"
    using assms by (simp add: x86_ok_simps lapic_mapped_def)
  moreover have "phys_to_virt X m (lapic_phys_addr msr) = Inr (lapic_phys_addr msr + HHDM_OFFSET m)"
    using phys_to_virt_hhdm(1)[OF assms(1)] assms(2) by (simp add: lapic_mapped_def)
  ultimately show ?thesis by (simp add: current_lapic_def lapic_new_def)
qed

lemma lapic_mmio_simps [simp]:
  "k_mmio (lapic_write l off v k) = k_mmio k @ [(lapic_address l + off, v)]"
  "k_tls (lapic_write l off v k) = k_tls k" "k_table (lapic_write l off v k) = k_table k"
  "k_mem (lapic_write l off v k) = k_mem k" "k_cpus (lapic_write l off v k) = k_cpus k"
  "k_next_id (lapic_write l off v k) = k_next_id k" "k_ram (lapic_write l off v k) = k_ram k"
  "k_log (lapic_write l off v k) = k_log k"
  by (simp_all add: lapic_write_def)

section \<open>Properties\<close>

text \<open>
  C35. Setting up the timer writes four registers of the controller at the address the base
  register gives, through the direct map: the spurious-interrupt register with its enable bit
  set and its other bits kept, the divider, the timer vector 32 in one-shot mode, and last the
  count that starts it. Nothing else of the kernel changes.
\<close>

theorem setup_lapic_timer_correct:
  assumes "x86_ok X" "lapic_mapped (k_mem k) msr"
    and base: "base = lapic_phys_addr msr + HHDM_OFFSET (k_mem k)"
  shows "\<exists>svr. setup_lapic_timer X rd msr k = Inr (k\<lparr>k_mmio := k_mmio k @
      [(base + 0xf0, svr), (base + 0x3e0, 3), (base + 0x320, 32), (base + 0x380, 0x0fff)]\<rparr>) \<and>
    (\<forall>n. bit svr n \<longleftrightarrow> bit (rd (base + 0xf0)) n \<or> n = 8)"
proof -
  let ?svr = "rd (base + 0xf0) OR push_bit 8 1"
  have b: "bit (push_bit 8 1 :: u32) n \<longleftrightarrow> n = 8" for n
    by (simp only: bit_push_bit_iff bit_1_iff) auto
  have "bit ?svr n \<longleftrightarrow> bit (rd (base + 0xf0)) n \<or> n = 8" for n
    by (simp only: bit_or_iff b)
  moreover have "setup_lapic_timer X rd msr k = Inr (k\<lparr>k_mmio := k_mmio k @
      [(base + 0xf0, ?svr), (base + 0x3e0, 3), (base + 0x320, 32), (base + 0x380, 0x0fff)]\<rparr>)"
    by (simp add: setup_lapic_timer_def current_lapic_ok[OF assms(1,2)] lapic_read_def lapic_write_def base)
  ultimately show ?thesis by blast
qed

theorem setup_lapic_timer_correct_witness:
  "\<exists>svr k. setup_lapic_timer x86_doc (\<lambda>_. 0x1ff) 0xfee00900
      (sample_kernel\<lparr>k_mem := \<lparr>FRAME_ALLOCATOR = None, HHDM_OFFSET = 0xffff800000000000\<rparr>\<rparr>) = Inr k \<and>
    k_mmio k = [(0xffff8000fee000f0, svr), (0xffff8000fee003e0, 3), (0xffff8000fee00320, 32),
      (0xffff8000fee00380, 0x0fff)]"
proof -
  let ?m = "\<lparr>FRAME_ALLOCATOR = None, HHDM_OFFSET = 0xffff800000000000\<rparr>"
  have a: "lapic_phys_addr 0xfee00900 = 0xfee00000" by (simp add: lapic_phys_addr_def)
  have m: "lapic_mapped (k_mem (sample_kernel\<lparr>k_mem := ?m\<rparr>)) 0xfee00900"
    by (simp add: lapic_mapped_def a hhdm_ok_def)
  have "k_mmio sample_kernel = []" by (simp add: sample_kernel_def kernel_start_def)
  with setup_lapic_timer_correct[OF x86_ok_doc m refl, of "\<lambda>_. 0x1ff"] show ?thesis
    by (auto simp: a)
qed

end
