(* ===== verification/Context.thy ===== *)
theory Context
  imports Lapic
begin

text \<open>
  Context switching (src/src/sched/mod.rs): the assembly of \<open>timer_interrupt\<close> and
  \<open>force_switch_to_idle\<close>, instruction by instruction, on a machine with the general registers,
  memory and the kernel state. What the processor does on an interrupt and on \<open>iretq\<close> is the
  64-bit mode of the architecture: an interrupt aligns the stack to 16 bytes and pushes \<open>ss\<close>,
  \<open>rsp\<close>, \<open>rflags\<close>, \<open>cs\<close> and \<open>rip\<close>; the gate clears the interrupt flag.

  A register that holds the address of a thread struct is given both by its number
  (\<open>taddr\<close> of the thread) and by the struct it points to (\<open>rax_ptr\<close>).
\<close>

section \<open>The machine\<close>

datatype reg = R15 | R14 | R13 | R12 | RBP | RBX | R11 | R10 | R9 | R8 | RAX | RCX | RDX | RSI | RDI

record machine =
  m_regs :: cpu_regs
  m_kernel :: kernel
  rax_ptr :: thread_ptr

fun get_reg :: "reg \<Rightarrow> cpu_regs \<Rightarrow> u64" where
  "get_reg R15 r = r15 r" | "get_reg R14 r = r14 r" | "get_reg R13 r = r13 r" | "get_reg R12 r = r12 r"
| "get_reg RBP r = rbp r" | "get_reg RBX r = rbx r" | "get_reg R11 r = r11 r" | "get_reg R10 r = r10 r"
| "get_reg R9 r = r9 r" | "get_reg R8 r = r8 r" | "get_reg RAX r = rax r" | "get_reg RCX r = rcx r"
| "get_reg RDX r = rdx r" | "get_reg RSI r = rsi r" | "get_reg RDI r = rdi r"

fun set_reg :: "reg \<Rightarrow> u64 \<Rightarrow> cpu_regs \<Rightarrow> cpu_regs" where
  "set_reg R15 v r = r\<lparr>r15 := v\<rparr>" | "set_reg R14 v r = r\<lparr>r14 := v\<rparr>" | "set_reg R13 v r = r\<lparr>r13 := v\<rparr>"
| "set_reg R12 v r = r\<lparr>r12 := v\<rparr>" | "set_reg RBP v r = r\<lparr>rbp := v\<rparr>" | "set_reg RBX v r = r\<lparr>rbx := v\<rparr>"
| "set_reg R11 v r = r\<lparr>r11 := v\<rparr>" | "set_reg R10 v r = r\<lparr>r10 := v\<rparr>" | "set_reg R9 v r = r\<lparr>r9 := v\<rparr>"
| "set_reg R8 v r = r\<lparr>r8 := v\<rparr>" | "set_reg RAX v r = r\<lparr>rax := v\<rparr>" | "set_reg RCX v r = r\<lparr>rcx := v\<rparr>"
| "set_reg RDX v r = r\<lparr>rdx := v\<rparr>" | "set_reg RSI v r = r\<lparr>rsi := v\<rparr>" | "set_reg RDI v r = r\<lparr>rdi := v\<rparr>"

datatype instr =
    Push reg
  | Pop reg
  | Mov_rsp u64
  | Mov_rax_gs_thread
  | Mov_regs_rsp
  | Mov_rsp_regs
  | Iretq

definition push_word :: "u64 \<Rightarrow> machine \<Rightarrow> machine" where
  "push_word v m =
     (let a = rsp (m_regs m) - 8 in
      m\<lparr>m_regs := (m_regs m)\<lparr>rsp := a\<rparr>, m_kernel := (m_kernel m)\<lparr>k_ram := (k_ram (m_kernel m))(a := v)\<rparr>\<rparr>)"

definition pop_word :: "machine \<Rightarrow> u64 \<times> machine" where
  "pop_word m = (k_ram (m_kernel m) (rsp (m_regs m)), m\<lparr>m_regs := (m_regs m)\<lparr>rsp := rsp (m_regs m) + 8\<rparr>\<rparr>)"

fun exec :: "(thread_ptr \<Rightarrow> u64) \<Rightarrow> u64 \<Rightarrow> instr \<Rightarrow> machine \<Rightarrow> machine res" where
  "exec taddr gs (Push r) m = Inr (push_word (get_reg r (m_regs m)) m)"
| "exec taddr gs (Pop r) m =
     (case pop_word m of (v, m') \<Rightarrow> Inr (m'\<lparr>m_regs := set_reg r v (m_regs m')\<rparr>))"
| "exec taddr gs (Mov_rsp v) m = Inr (m\<lparr>m_regs := (m_regs m)\<lparr>rsp := v\<rparr>\<rparr>)"
| "exec taddr gs Mov_rax_gs_thread m =
     bind_res (current_cpu (m_kernel m) gs) (\<lambda>cpu.
     Inr (m\<lparr>m_regs := (m_regs m)\<lparr>rax := taddr (thread_addr cpu)\<rparr>, rax_ptr := thread_addr cpu\<rparr>))"
| "exec taddr gs Mov_regs_rsp m =
     bind_res (deref_thread (m_kernel m) (rax_ptr m)) (\<lambda>t.
     bind_res (store_thread (m_kernel m) (rax_ptr m) (t\<lparr>th_regs := rsp (m_regs m)\<rparr>)) (\<lambda>k.
     Inr (m\<lparr>m_kernel := k\<rparr>)))"
| "exec taddr gs Mov_rsp_regs m =
     bind_res (deref_thread (m_kernel m) (rax_ptr m)) (\<lambda>t.
     Inr (m\<lparr>m_regs := (m_regs m)\<lparr>rsp := th_regs t\<rparr>\<rparr>))"
| "exec taddr gs Iretq m =
     (let (ip, m1) = pop_word m; (c, m2) = pop_word m1; (fl, m3) = pop_word m2;
          (sp, m4) = pop_word m3; (s, m5) = pop_word m4
      in Inr (m5\<lparr>m_regs := (m_regs m5)\<lparr>rip := ip, cs := c, rflags := fl, rsp := sp, ss := s\<rparr>\<rparr>))"

definition run :: "(thread_ptr \<Rightarrow> u64) \<Rightarrow> u64 \<Rightarrow> instr list \<Rightarrow> machine \<Rightarrow> machine res" where
  "run taddr gs is m = for_res (exec taddr gs) is m"

text \<open>The processor takes an interrupt through the gate to \<open>handler\<close>.\<close>

definition take_interrupt :: "u64 \<Rightarrow> u64 \<Rightarrow> machine \<Rightarrow> machine" where
  "take_interrupt handler kcs m =
     (let r = m_regs m;
          m0 = m\<lparr>m_regs := r\<lparr>rsp := rsp r AND NOT 0xf\<rparr>\<rparr>;
          m1 = push_word (rip r) (push_word (cs r) (push_word (rflags r) (push_word (rsp r) (push_word (ss r) m0))))
      in m1\<lparr>m_regs := (m_regs m1)\<lparr>rip := handler, cs := kcs, rflags := rflags r AND NOT 0x200\<rparr>\<rparr>)"

section \<open>The assembly\<close>

definition save_asm :: "instr list" where
  "save_asm = [Push RDI, Push RSI, Push RDX, Push RCX, Push RAX, Push R8, Push R9, Push R10, Push R11,
     Push RBX, Push RBP, Push R12, Push R13, Push R14, Push R15, Mov_rax_gs_thread, Mov_regs_rsp]"

definition pop_asm :: "instr list" where
  "pop_asm = [Pop R15, Pop R14, Pop R13, Pop R12, Pop RBP, Pop RBX, Pop R11, Pop R10, Pop R9, Pop R8,
     Pop RAX, Pop RCX, Pop RDX, Pop RSI, Pop RDI, Iretq]"

definition restore_asm :: "instr list" where
  "restore_asm = Mov_rax_gs_thread # Mov_rsp_regs # pop_asm"

text \<open>
  \<open>timer_interrupt\<close> from its first instruction to its \<open>iretq\<close>. The compiled handler may leave
  any values in the registers (\<open>clobber\<close>).
\<close>

definition timer_interrupt ::
  "x86_crate \<Rightarrow> (thread_ptr \<Rightarrow> u64) \<Rightarrow> (cpu_regs \<Rightarrow> cpu_regs) \<Rightarrow> u64 \<Rightarrow> u64 \<Rightarrow> u64 \<Rightarrow> machine \<Rightarrow> machine res" where
  "timer_interrupt X taddr clobber msr tsc gs m =
     bind_res (run taddr gs save_asm m) (\<lambda>m1.
     bind_res (timer_handler X msr tsc (m_kernel m1) gs) (\<lambda>k.
     run taddr gs restore_asm (m1\<lparr>m_kernel := k, m_regs := clobber (m_regs m1)\<rparr>)))"

definition force_switch_to_idle :: "(thread_ptr \<Rightarrow> u64) \<Rightarrow> u64 \<Rightarrow> machine \<Rightarrow> machine res" where
  "force_switch_to_idle taddr gs m =
     bind_res (current_cpu (m_kernel m) gs) (\<lambda>cpu.
     bind_res (enter_idle (m_kernel m) gs) (\<lambda>k.
     run taddr gs (Mov_rsp (th_regs (idle_thread cpu)) # pop_asm) (m\<lparr>m_kernel := k\<rparr>)))"

text \<open>Reading a register frame from its words, the inverse of \<open>regs_words\<close>.\<close>

definition regs_of_words :: "u64 list \<Rightarrow> cpu_regs" where
  "regs_of_words w = \<lparr>r15 = w ! 0, r14 = w ! 1, r13 = w ! 2, r12 = w ! 3, rbp = w ! 4, rbx = w ! 5,
     r11 = w ! 6, r10 = w ! 7, r9 = w ! 8, r8 = w ! 9, rax = w ! 10, rcx = w ! 11, rdx = w ! 12,
     rsi = w ! 13, rdi = w ! 14, rip = w ! 15, cs = w ! 16, rflags = w ! 17, rsp = w ! 18, ss = w ! 19\<rparr>"

text \<open>Where the frame of an interrupted thread is saved.\<close>

definition frame_base :: "cpu_regs \<Rightarrow> u64" where
  "frame_base r = (rsp r AND NOT 0xf) - size_of_regs"

text \<open>A machine that runs thread 0 of the small kernel, for closed instances.\<close>

definition sample_machine :: machine where
  "sample_machine = \<lparr>m_regs = regs_of_words (map word_of_nat [100 ..< 120]), m_kernel = sample_kernel,
     rax_ptr = NullThread\<rparr>"

section \<open>Restoring\<close>

lemma regs_of_words_inverse: "regs_of_words (regs_words r) = r"
  by (simp add: regs_of_words_def regs_words_def)

lemma nth_read_words: "i < n \<Longrightarrow> read_words m a n ! i = m (a + 8 * word_of_nat i)"
  by (simp add: read_words_def)

lemma pop_asm_run:
  "run taddr gs pop_asm m =
     Inr (m\<lparr>m_regs := regs_of_words (read_words (k_ram (m_kernel m)) (rsp (m_regs m)) 20)\<rparr>)"
  by (simp add: run_def pop_asm_def pop_word_def regs_of_words_def nth_read_words Let_def add.assoc)

section \<open>Saving\<close>

lemma write_words_append:
  "write_words m a (xs @ ys) = write_words (write_words m a xs) (a + 8 * word_of_nat (length xs)) ys"
  by (induction xs arbitrary: m a) (simp_all add: algebra_simps)

lemma write_words_local: "m x = m' x \<Longrightarrow> write_words m a ws x = write_words m' a ws x"
proof (induction ws arbitrary: m m' a)
  case (Cons w ws)
  have "(m(a := w)) x = (m'(a := w)) x" using Cons.prems by simp
  from Cons.IH[of "m(a := w)" "m'(a := w)", OF this] show ?case by (simp only: write_words.simps)
qed simp

lemma word8_inj:
  assumes "i < j" "j < 1000"
  shows "8 * word_of_nat i \<noteq> (8 * word_of_nat j :: u64)"
proof -
  have "unat (8 * word_of_nat n :: u64) = 8 * n" if "n < 1000" for n
    using that by (simp add: word_nat)
  from this[of i] this[of j] assms show ?thesis by (metis less_trans mult_cancel1 nat_neq_iff zero_neq_numeral)
qed

lemma write_words_commute:
  assumes "\<And>i. i < length ws \<Longrightarrow> b \<noteq> a + 8 * word_of_nat i"
  shows "write_words (m(b := v)) a ws = (write_words m a ws)(b := v)"
proof -
  have "write_words (m(b := v)) a ws b = v" using write_words_other[of ws b a "m(b := v)"] assms by simp
  moreover have "write_words (m(b := v)) a ws x = write_words m a ws x" if "x \<noteq> b" for x
    using that by (intro write_words_local) simp
  ultimately show ?thesis by auto
qed

text \<open>Pushing a list of words writes them below the stack pointer, the last one lowest.\<close>

definition push_words :: "u64 list \<Rightarrow> machine \<Rightarrow> machine" where
  "push_words vs m = m\<lparr>m_regs := (m_regs m)\<lparr>rsp := rsp (m_regs m) - 8 * word_of_nat (length vs)\<rparr>,
     m_kernel := (m_kernel m)\<lparr>k_ram := write_words (k_ram (m_kernel m))
       (rsp (m_regs m) - 8 * word_of_nat (length vs)) (rev vs)\<rparr>\<rparr>"

lemma push_words_Cons:
  assumes "length vs < 1000"
  shows "push_words vs (push_word v m) = push_words (v # vs) m"
proof -
  let ?sp = "rsp (m_regs m)"
  let ?a = "?sp - 8 * word_of_nat (Suc (length vs))"
  have a: "?sp - 8 - 8 * word_of_nat (length vs) = ?a" by (simp add: algebra_simps)
  have sp: "?a + 8 * word_of_nat (length vs) = ?sp - 8" by (simp add: algebra_simps)
  have "?sp - 8 \<noteq> ?a + 8 * word_of_nat i" if "i < length vs" for i
    unfolding sp[symmetric] add_left_cancel using word8_inj[OF that assms] by (rule not_sym)
  then have "write_words ((k_ram (m_kernel m))(?sp - 8 := v)) ?a (rev vs) =
      write_words (k_ram (m_kernel m)) ?a (rev vs @ [v])"
    using write_words_commute[of "rev vs" "?sp - 8" ?a] sp by (simp add: write_words_append)
  then show ?thesis
    by (simp add: push_words_def push_word_def Let_def a del: of_nat_Suc)
qed

lemma run_append: "run taddr gs (xs @ ys) m = bind_res (run taddr gs xs m) (run taddr gs ys)"
  unfolding run_def by (subst for_res_append) (cases "for_res (exec taddr gs) xs m"; simp add: run_def)

lemma run_push:
  assumes "length rs < 1000"
  shows "run taddr gs (map Push rs) m = Inr (push_words (map (\<lambda>r. get_reg r (m_regs m)) rs) m)"
  using assms
proof (induction rs arbitrary: m)
  case Nil
  then show ?case by (simp add: run_def push_words_def)
next
  case (Cons r rs)
  have regs: "get_reg r' (m_regs (push_word v m)) = get_reg r' (m_regs m)" for r' v
    by (cases r') (simp_all add: push_word_def Let_def)
  have "run taddr gs (map Push rs) (push_word (get_reg r (m_regs m)) m) =
      Inr (push_words (map (\<lambda>r. get_reg r (m_regs m)) rs) (push_word (get_reg r (m_regs m)) m))"
    using Cons.IH[of "push_word (get_reg r (m_regs m)) m"] Cons.prems by (simp add: regs)
  then show ?case
    using push_words_Cons[of "map (\<lambda>r. get_reg r (m_regs m)) rs"] Cons.prems by (simp add: run_def)
qed

lemma frame_pushed:
  "push_words [rdi r, rsi r, rdx r, rcx r, rax r, r8 r, r9 r, r10 r, r11 r, rbx r, rbp r, r12 r, r13 r, r14 r, r15 r]
     (push_word (rip r) (push_word (cs r) (push_word (rflags r) (push_word (rsp r) (push_word (ss r) m))))) =
   push_words (rev (regs_words r)) m"
  by (simp add: push_words_Cons regs_words_def)

text \<open>
  Interrupt entry and the first half of \<open>timer_interrupt\<close>: the frame of the interrupted
  registers stands on the thread's own stack and the thread struct points at it.
\<close>

lemma save_run:
  assumes cpu: "k_tls (m_kernel m) gs = Some cpu" and t: "deref_thread (m_kernel m) (thread_addr cpu) = Inr t"
  obtains m' where "run taddr gs save_asm (take_interrupt h kcs m) = Inr m'"
    "rsp (m_regs m') = frame_base (m_regs m)"
    "store_thread ((m_kernel m)\<lparr>k_ram := write_words (k_ram (m_kernel m)) (frame_base (m_regs m))
       (regs_words (m_regs m))\<rparr>) (thread_addr cpu) (t\<lparr>th_regs := frame_base (m_regs m)\<rparr>) = Inr (m_kernel m')"
proof -
  define r where "r = m_regs m"
  let ?m0 = "m\<lparr>m_regs := r\<lparr>rsp := rsp r AND NOT 0xf\<rparr>\<rparr>"
  let ?rs = "[RDI, RSI, RDX, RCX, RAX, R8, R9, R10, R11, RBX, RBP, R12, R13, R14, R15]"
  let ?K = "(m_kernel m)\<lparr>k_ram := write_words (k_ram (m_kernel m)) (frame_base r) (regs_words r)\<rparr>"
  let ?up = "\<lambda>m. m\<lparr>m_regs := (m_regs m)\<lparr>rip := h, cs := kcs, rflags := rflags r AND NOT 0x200\<rparr>\<rparr>"
  have up: "push_words vs (?up m) = ?up (push_words vs m)" for vs m by (simp add: push_words_def)
  define P where "P = push_word (rip r) (push_word (cs r) (push_word (rflags r) (push_word (rsp r) (push_word (ss r) ?m0))))"
  have enter: "take_interrupt h kcs m = ?up P" by (simp only: take_interrupt_def Let_def r_def P_def)
  have regs: "get_reg q (m_regs (?up P)) = get_reg q r" for q
    by (cases q) (simp_all add: P_def push_word_def Let_def)
  have "run taddr gs (map Push ?rs) (take_interrupt h kcs m) = Inr (push_words (map (\<lambda>q. get_reg q r) ?rs) (?up P))"
    unfolding enter using run_push[of ?rs taddr gs "?up P"] by (simp only: regs) simp
  also have "push_words (map (\<lambda>q. get_reg q r) ?rs) (?up P) = ?up (push_words (rev (regs_words r)) ?m0)"
    unfolding up P_def frame_pushed[symmetric] by simp
  finally have "run taddr gs (map Push ?rs) (take_interrupt h kcs m) = Inr (?up (push_words (rev (regs_words r)) ?m0))" .
  then obtain m1 where m1: "run taddr gs (map Push ?rs) (take_interrupt h kcs m) = Inr m1"
      "rsp (m_regs m1) = frame_base r" "m_kernel m1 = ?K"
    by (simp add: push_words_def frame_base_def size_of_regs_def)
  have t': "deref_thread ?K (thread_addr cpu) = Inr t"
    using t by simp
  obtain k' where k': "store_thread ?K (thread_addr cpu) (t\<lparr>th_regs := frame_base r\<rparr>) = Inr k'"
    by (rule deref_store[OF t'])
  have split: "save_asm = map Push ?rs @ [Mov_rax_gs_thread, Mov_regs_rsp]" by (simp add: save_asm_def)
  have "run taddr gs save_asm (take_interrupt h kcs m) = run taddr gs [Mov_rax_gs_thread, Mov_regs_rsp] m1"
    unfolding split run_append by (subst m1(1)) (rule bind_res.simps)
  also have "\<dots> = Inr (m1\<lparr>m_regs := (m_regs m1)\<lparr>rax := taddr (thread_addr cpu)\<rparr>, rax_ptr := thread_addr cpu, m_kernel := k'\<rparr>)"
    using m1(2,3) k' t' cpu by (simp add: run_def current_cpu_def)
  finally have "run taddr gs save_asm (take_interrupt h kcs m) =
      Inr (m1\<lparr>m_regs := (m_regs m1)\<lparr>rax := taddr (thread_addr cpu)\<rparr>, rax_ptr := thread_addr cpu, m_kernel := k'\<rparr>)" .
  then show thesis by (rule that) (use m1 k' in \<open>simp_all add: r_def\<close>)
qed

lemma restore_run:
  assumes "k_tls (m_kernel m) gs = Some cpu" "deref_thread (m_kernel m) (thread_addr cpu) = Inr t"
    and "read_words (k_ram (m_kernel m)) (th_regs t) 20 = regs_words r"
  shows "\<exists>m'. run taddr gs restore_asm m = Inr m' \<and> m_regs m' = r \<and> m_kernel m' = m_kernel m"
proof -
  let ?m = "m\<lparr>rax_ptr := thread_addr cpu, m_regs := (m_regs m)\<lparr>rax := taddr (thread_addr cpu), rsp := th_regs t\<rparr>\<rparr>"
  have "run taddr gs restore_asm m = run taddr gs pop_asm ?m"
    using assms(1,2) by (simp add: restore_asm_def run_def current_cpu_def)
  then show ?thesis using assms(3) by (simp add: pop_asm_run regs_of_words_inverse)
qed

lemma aligned_sub_160: "((a :: u64) AND NOT 0xf) - 160 AND 0xf = 0"
proof (rule aligned_low_bits)
  have m: "(0xf :: u64) = mask 4" by (simp add: mask_eq_exp_minus_1)
  define x where "x = a AND NOT 0xf"
  have "take_bit 4 x = 0" unfolding x_def m
    by (intro bit_eqI) (auto simp: bit_take_bit_iff bit_and_iff bit_not_iff bit_mask_iff)
  then have "take_bit 4 (unat x) = 0" by (metis unsigned_take_bit_eq unsigned_0)
  then have x: "unat x mod 16 = 0" by (simp add: take_bit_eq_mod)
  have n: "unat (- 160 :: u64) = 18446744073709551456" by simp
  have "unat (x + (- 160)) = (unat x + unat (- 160 :: u64)) mod 18446744073709551616"
    by (simp only: unat_word_ariths) simp
  then have "unat (x + (- 160)) = (unat x + 18446744073709551456) mod 18446744073709551616" by (simp only: n)
  then have "unat (x - 160) mod 16 = (unat x + 18446744073709551456) mod 16"
    using mod_mod_cancel[of 16 18446744073709551616 "unat x + 18446744073709551456"] by simp
  then show "unat ((a AND NOT 0xf) - 160) mod 16 = 0"
    using x unfolding x_def by (simp add: mod_add_eq[symmetric, of _ _ 16])
qed

lemma sample_machine_thread:
  obtains cpu t where "k_tls (m_kernel sample_machine) 4096 = Some cpu" "thread_addr cpu = TableThread 0"
    "deref_thread (m_kernel sample_machine) (thread_addr cpu) = Inr t"
  by (rule that[of "sample_cpu 0 (TableThread 0) [TableThread 1, TableThread 2, TableThread 3]"])
    (simp_all add: sample_machine_def sample_kernel_def sample_cpu_def deref_thread_def sample_table_def nth_append)

section \<open>Properties\<close>

text \<open>
  C22. Saving is isolated: when the timer interrupts a running thread, the code before the call
  of the handler writes nothing but the 160 bytes below the thread's 16-byte aligned stack
  pointer, changes no thread struct but the interrupted one's saved stack pointer, and calls
  the handler with the stack aligned to 16 bytes as the calling convention requires.
\<close>

theorem timer_save_isolated:
  assumes "k_tls (m_kernel m) gs = Some cpu" "deref_thread (m_kernel m) (thread_addr cpu) = Inr t"
  shows "\<exists>m'. run taddr gs save_asm (take_interrupt h kcs m) = Inr m' \<and>
    rsp (m_regs m') = (rsp (m_regs m) AND NOT 0xf) - 160 \<and> rsp (m_regs m') AND 0xf = 0 \<and>
    (\<forall>b. (\<forall>i < 20. b \<noteq> rsp (m_regs m') + 8 * word_of_nat i) \<longrightarrow> k_ram (m_kernel m') b = k_ram (m_kernel m) b) \<and>
    deref_thread (m_kernel m') (thread_addr cpu) = Inr (t\<lparr>th_regs := rsp (m_regs m')\<rparr>) \<and>
    (\<forall>q. q \<noteq> thread_addr cpu \<longrightarrow> deref_thread (m_kernel m') q = deref_thread (m_kernel m) q)"
proof -
  obtain m' where m': "run taddr gs save_asm (take_interrupt h kcs m) = Inr m'"
    "rsp (m_regs m') = frame_base (m_regs m)"
    "store_thread ((m_kernel m)\<lparr>k_ram := write_words (k_ram (m_kernel m)) (frame_base (m_regs m))
       (regs_words (m_regs m))\<rparr>) (thread_addr cpu) (t\<lparr>th_regs := frame_base (m_regs m)\<rparr>) = Inr (m_kernel m')"
    by (rule save_run[OF assms])
  let ?K = "(m_kernel m)\<lparr>k_ram := write_words (k_ram (m_kernel m)) (frame_base (m_regs m)) (regs_words (m_regs m))\<rparr>"
  have t': "deref_thread ?K (thread_addr cpu) = Inr t" using assms(2) by simp
  obtain k' where k': "store_thread ?K (thread_addr cpu) (t\<lparr>th_regs := frame_base (m_regs m)\<rparr>) = Inr k'"
    "deref_thread k' (thread_addr cpu) = Inr (t\<lparr>th_regs := frame_base (m_regs m)\<rparr>)" "k_ram k' = k_ram ?K"
    "\<And>q. q \<noteq> thread_addr cpu \<Longrightarrow> deref_thread k' q = deref_thread ?K q"
    by (rule deref_store[OF t', of "t\<lparr>th_regs := frame_base (m_regs m)\<rparr>"]) blast
  have k: "m_kernel m' = k'" using m'(3) k'(1) by simp
  have "k_ram (m_kernel m') b = k_ram (m_kernel m) b"
    if "\<forall>i < 20. b \<noteq> rsp (m_regs m') + 8 * word_of_nat i" for b
    using write_words_other[of "regs_words (m_regs m)" b "frame_base (m_regs m)"] that m'(2) k k'(3) by simp
  moreover have "rsp (m_regs m') AND 0xf = 0" unfolding m'(2) frame_base_def size_of_regs_def by (rule aligned_sub_160)
  ultimately show ?thesis using m'(1,2) k k'(2,4) by (simp add: frame_base_def size_of_regs_def)
qed

theorem timer_save_isolated_witness:
  "\<exists>m'. run (\<lambda>_. 0) 4096 save_asm (take_interrupt 0x8000 8 sample_machine) = Inr m' \<and> rsp (m_regs m') AND 0xf = 0"
proof (rule sample_machine_thread)
  fix cpu t assume "k_tls (m_kernel sample_machine) 4096 = Some cpu"
    "deref_thread (m_kernel sample_machine) (thread_addr cpu) = Inr t"
  from timer_save_isolated[OF this] show ?thesis by blast
qed

text \<open>
  C4. Context switching is transparent: if the registers of a thread were saved by the timer
  interrupt, and later some CPU runs the second half of \<open>timer_interrupt\<close> with that thread as
  its current one, the thread struct and the saved frame being as they were left, then that CPU
  continues with exactly the registers that were interrupted, all twenty of them, whatever its
  registers were before.
\<close>

theorem timer_context_round_trip:
  assumes "k_tls (m_kernel m) gs = Some cpu" "deref_thread (m_kernel m) (thread_addr cpu) = Inr t"
    and saved: "run taddr gs save_asm (take_interrupt h kcs m) = Inr m1"
    and "deref_thread (m_kernel m1) (thread_addr cpu) = Inr t1"
    and later: "k_tls (m_kernel m2) gs2 = Some cpu2" "thread_addr cpu2 = thread_addr cpu"
      "deref_thread (m_kernel m2) (thread_addr cpu) = Inr t2" "th_regs t2 = th_regs t1"
      "read_words (k_ram (m_kernel m2)) (th_regs t1) 20 = read_words (k_ram (m_kernel m1)) (th_regs t1) 20"
  shows "\<exists>m3. run taddr gs2 restore_asm m2 = Inr m3 \<and> m_regs m3 = m_regs m \<and> m_kernel m3 = m_kernel m2"
proof (rule restore_run[OF later(1)])
  let ?a = "frame_base (m_regs m)" and ?ws = "regs_words (m_regs m)"
  let ?K = "(m_kernel m)\<lparr>k_ram := write_words (k_ram (m_kernel m)) ?a ?ws\<rparr>"
  have st: "store_thread ?K (thread_addr cpu) (t\<lparr>th_regs := ?a\<rparr>) = Inr (m_kernel m1)"
    by (rule save_run[OF assms(1,2), of taddr h kcs]) (use saved in simp)
  have t': "deref_thread ?K (thread_addr cpu) = Inr t" using assms(2) by simp
  have "deref_thread (m_kernel m1) (thread_addr cpu) = Inr (t\<lparr>th_regs := ?a\<rparr>)" "k_ram (m_kernel m1) = k_ram ?K"
    by (rule deref_store[OF t', of "t\<lparr>th_regs := ?a\<rparr>"], use st in simp)+
  then have a: "th_regs t1 = ?a" and ram: "k_ram (m_kernel m1) = write_words (k_ram (m_kernel m)) ?a ?ws"
    using assms(4) by auto
  have "read_words (write_words (k_ram (m_kernel m)) ?a ?ws) ?a 20 = ?ws"
    using read_write_words[of ?ws "k_ram (m_kernel m)" ?a] by simp
  then show "read_words (k_ram (m_kernel m2)) (th_regs t2) 20 = ?ws"
    using later(4,5) a ram by simp
  show "deref_thread (m_kernel m2) (thread_addr cpu2) = Inr t2" using later(2,3) by simp
qed

theorem timer_context_round_trip_witness:
  "\<exists>m1 m3. run (\<lambda>_. 0) 4096 save_asm (take_interrupt 0x8000 8 sample_machine) = Inr m1 \<and>
     run (\<lambda>_. 0) 4096 restore_asm (m1\<lparr>m_regs := regs_of_words (replicate 20 0)\<rparr>) = Inr m3 \<and>
     m_regs m3 = m_regs sample_machine"
proof (rule sample_machine_thread)
  fix cpu t assume c: "k_tls (m_kernel sample_machine) 4096 = Some cpu" "thread_addr cpu = TableThread 0"
    and t: "deref_thread (m_kernel sample_machine) (thread_addr cpu) = Inr t"
  let ?a = "frame_base (m_regs sample_machine)"
  let ?K = "(m_kernel sample_machine)\<lparr>k_ram := write_words (k_ram (m_kernel sample_machine)) ?a
    (regs_words (m_regs sample_machine))\<rparr>"
  obtain m1 where m1: "run (\<lambda>_. 0) 4096 save_asm (take_interrupt 0x8000 8 sample_machine) = Inr m1"
    "store_thread ?K (thread_addr cpu) (t\<lparr>th_regs := ?a\<rparr>) = Inr (m_kernel m1)"
    by (rule save_run[OF c(1) t])
  have i: "0 < length (k_table ?K)" "k_table ?K ! 0 = Some t" using t c(2) by (simp_all add: deref_table)
  have k1: "m_kernel m1 = ?K\<lparr>k_table := (k_table ?K)[0 := Some (t\<lparr>th_regs := ?a\<rparr>)]\<rparr>"
    using m1(2) c(2) store_table[OF i] by simp
  have d: "deref_thread (m_kernel m1) (thread_addr cpu) = Inr (t\<lparr>th_regs := ?a\<rparr>)"
    using i unfolding k1 c(2) by (simp add: deref_table)
  have "\<exists>m3. run (\<lambda>_. 0) 4096 restore_asm (m1\<lparr>m_regs := regs_of_words (replicate 20 0)\<rparr>) = Inr m3 \<and>
      m_regs m3 = m_regs sample_machine \<and> m_kernel m3 = m_kernel (m1\<lparr>m_regs := regs_of_words (replicate 20 0)\<rparr>)"
    by (rule timer_context_round_trip[OF c(1) t m1(1) d, where ?cpu2.0 = cpu and ?t2.0 = "t\<lparr>th_regs := ?a\<rparr>"]) (use c k1 d in simp_all)
  with m1(1) show ?thesis by blast
qed

end
