(* ===== verification/Sched_Inv.thy ===== *)
theory Sched_Inv
  imports Context
begin

text \<open>
  The scheduler as a transition system. A step is one critical section of one CPU, so the steps
  of all CPUs interleave in any order: bringing up a CPU, entering the idle thread, saving the
  stack pointer of an interrupted thread, a switch, a load balancing, spawning a thread,
  allocating frames, writing device registers, printing, recording the descriptor tables of a
  CPU, and threads changing memory. The invariant says
  that every thread of the table is in exactly one place: current on one CPU or in one ready
  queue, once.
\<close>

section \<open>The invariant\<close>

text \<open>The threads that the CPU with its TLS page at \<open>gs\<close> holds.\<close>

definition threads_at :: "kernel \<Rightarrow> u64 \<Rightarrow> thread_ptr list" where
  "threads_at k gs = (case k_tls k gs of None \<Rightarrow> [] | Some cpu \<Rightarrow> cpu_threads cpu)"

text \<open>The CPU recorded in a slot of the table; \<open>None\<close> for an empty slot.\<close>

definition label :: "thread_table \<Rightarrow> nat \<Rightarrow> u32 option option" where
  "label tbl i = (if i < length tbl then map_option (\<lambda>t. ss_cpu (th_sched t)) (tbl ! i) else None)"

definition placed_once :: "kernel \<Rightarrow> bool" where
  "placed_once k \<longleftrightarrow> (\<forall>g. distinct (threads_at k g)) \<and>
     (\<forall>g h. g \<noteq> h \<longrightarrow> set (threads_at k g) \<inter> set (threads_at k h) = {}) \<and>
     (\<Union>g. set (threads_at k g)) = TableThread ` {i. live (k_table k) i}"

text \<open>What one CPU keeps: its queue, a proper current thread, and the labels of its threads.\<close>

definition cpu_ok :: "thread_table \<Rightarrow> u64 \<Rightarrow> tls_data \<Rightarrow> bool" where
  "cpu_ok tbl gs cpu \<longleftrightarrow> queue_ok (ready_queue cpu) \<and>
     (thread_addr cpu = NullThread \<or> thread_addr cpu = IdleThread gs \<or> (\<exists>i. thread_addr cpu = TableThread i)) \<and>
     (\<forall>i. TableThread i \<in> set (cpu_threads cpu) \<longrightarrow> label tbl i = Some (Some (tls_cpu_id cpu)))"

definition ids_ok :: "kernel \<Rightarrow> bool" where
  "ids_ok k \<longleftrightarrow> (\<forall>i j t u. i < length (k_table k) \<and> j < length (k_table k) \<and> k_table k ! i = Some t \<and>
       k_table k ! j = Some u \<and> th_id t = th_id u \<longrightarrow> i = j) \<and>
     (\<forall>t. Some t \<in> set (k_table k) \<longrightarrow> unat (th_id t) < unat (k_next_id k))"

definition cpus_ok :: "kernel \<Rightarrow> bool" where
  "cpus_ok k \<longleftrightarrow> length (k_cpus k) = 256 \<and>
     (\<forall>c < 256. cd_online (k_cpus k ! c) \<longrightarrow>
       (\<exists>cpu. k_tls k (cd_tls (k_cpus k ! c)) = Some cpu \<and> unat (tls_cpu_id cpu) = c))"

text \<open>The frame of no TLS page is free.\<close>

definition pages_ok :: "kernel \<Rightarrow> bool" where
  "pages_ok k \<longleftrightarrow> mem_ok (k_mem k) \<and>
     (\<forall>gs a. k_tls k gs \<noteq> None \<and> a \<in> mem_free (k_mem k) \<longrightarrow> unat gs \<noteq> a + unat (HHDM_OFFSET (k_mem k)))"

definition sched_ok :: "kernel \<Rightarrow> bool" where
  "sched_ok k \<longleftrightarrow> length (k_table k) = 256 \<and> placed_once k \<and>
     (\<forall>gs cpu. k_tls k gs = Some cpu \<longrightarrow> cpu_ok (k_table k) gs cpu) \<and>
     ids_ok k \<and> cpus_ok k \<and> pages_ok k"

section \<open>Steps\<close>

inductive sched_step :: "x86_crate \<Rightarrow> usize \<Rightarrow> u64 \<Rightarrow> kernel \<Rightarrow> kernel \<Rightarrow> bool"
  for X tls_size idle_entry where
  boot: "setup_tls X tls_size idle_entry c k = Inr (gs, k') \<Longrightarrow> sched_step X tls_size idle_entry k k'"
| idle: "k_tls k gs = Some cpu \<Longrightarrow> thread_addr cpu = NullThread \<Longrightarrow> enter_idle k gs = Inr k' \<Longrightarrow>
    sched_step X tls_size idle_entry k k'"
| save: "k_tls k gs = Some cpu \<Longrightarrow> deref_thread k (thread_addr cpu) = Inr t \<Longrightarrow>
    store_thread k (thread_addr cpu) (t\<lparr>th_regs := sp\<rparr>) = Inr k' \<Longrightarrow> sched_step X tls_size idle_entry k k'"
| switch: "k_tls k gs = Some cpu \<Longrightarrow> thread_addr cpu \<noteq> NullThread \<Longrightarrow> switch k gs = Inr k' \<Longrightarrow>
    sched_step X tls_size idle_entry k k'"
| balance: "maybe_load_balance k gs tsc = Inr k' \<Longrightarrow> sched_step X tls_size idle_entry k k'"
| spawn: "k_tls k gs \<noteq> None \<Longrightarrow> unat (k_next_id k) < 2 ^ 64 - 1 \<Longrightarrow> spawn_raw X k gs entry arg = Inr (r, k') \<Longrightarrow>
    sched_step X tls_size idle_entry k k'"
| alloc: "alloc_frames X (k_mem k) n = Inr (r, m) \<Longrightarrow> sched_step X tls_size idle_entry k (k\<lparr>k_mem := m\<rparr>)"
| device: "sched_step X tls_size idle_entry k (lapic_write l off v k)"
| memory: "sched_step X tls_size idle_entry k (k\<lparr>k_ram := ram\<rparr>)"
| print: "sched_step X tls_size idle_entry k (println msg k)"
| descriptors: "k_tls k gs = Some cpu \<Longrightarrow>
    sched_step X tls_size idle_entry k (k\<lparr>k_tls := (k_tls k)(gs \<mapsto> cpu\<lparr>gdt_addr := g, idt_addr := i\<rparr>)\<rparr>)"

inductive reachable :: "x86_crate \<Rightarrow> usize \<Rightarrow> u64 \<Rightarrow> kernel \<Rightarrow> bool" for X tls_size idle_entry where
  start: "mem_ok m \<Longrightarrow> reachable X tls_size idle_entry (kernel_start m ram)"
| step: "reachable X tls_size idle_entry k \<Longrightarrow> sched_step X tls_size idle_entry k k' \<Longrightarrow>
    reachable X tls_size idle_entry k'"

text \<open>
  A machine with eight frames of memory, for closed instances; \<open>d\<close> is the byte of the bitmap.
\<close>

definition small_mem :: "u8 \<Rightarrow> memory_state" where
  "small_mem d = \<lparr>FRAME_ALLOCATOR = Some [\<lparr>mr_start = 0x10000, mr_end = 0x18000,
     mr_bitmap = \<lparr>bv_size = 8, bv_data = [d]\<rparr>\<rparr>], HHDM_OFFSET = 0xffff800000000000\<rparr>"

section \<open>Placement\<close>

lemma label_live: "live tbl i \<longleftrightarrow> label tbl i \<noteq> None"
  by (auto simp: live_def label_def)

lemma placed_once_cong:
  assumes "\<And>g. mset (threads_at k' g) = mset (threads_at k g)" "\<And>i. live (k_table k') i = live (k_table k) i"
  shows "placed_once k' = placed_once k"
proof -
  have "distinct (threads_at k' g) = distinct (threads_at k g)" "set (threads_at k' g) = set (threads_at k g)" for g
    using assms(1) mset_eq_imp_distinct_iff mset_eq_setD by metis+
  then show ?thesis using assms(2) by (simp add: placed_once_def)
qed

lemma placed_live:
  assumes "placed_once k" "p \<in> set (threads_at k g)"
  obtains i where "p = TableThread i" "live (k_table k) i"
proof -
  have "(\<Union>g. set (threads_at k g)) = TableThread ` {i. live (k_table k) i}"
    using assms(1) by (simp add: placed_once_def)
  then have "p \<in> TableThread ` {i. live (k_table k) i}" using assms(2) by blast
  then show thesis using that by blast
qed

lemma threads_live:
  assumes "sched_ok k" "p \<in> set (threads_at k g)"
  obtains i where "p = TableThread i" "live (k_table k) i"
  using placed_live[OF _ assms(2)] assms(1) that by (auto simp: sched_ok_def)

text \<open>Moving threads between two CPUs.\<close>

lemma placed_once_move:
  assumes "placed_once k" "g \<noteq> h" "mset (threads_at k' g @ threads_at k' h) = mset (threads_at k g @ threads_at k h)"
    and other: "\<And>x. x \<noteq> g \<Longrightarrow> x \<noteq> h \<Longrightarrow> threads_at k' x = threads_at k x"
    and live: "\<And>i. live (k_table k') i = live (k_table k) i"
  shows "placed_once k'"
proof -
  let ?T = "threads_at k" and ?T' = "threads_at k'"
  have T: "distinct (?T x)" "x \<noteq> y \<Longrightarrow> set (?T x) \<inter> set (?T y) = {}" for x y
    using assms(1) by (auto simp: placed_once_def)
  have d: "distinct (?T' g @ ?T' h)"
    using assms(2,3) T mset_eq_imp_distinct_iff[OF assms(3)] by (simp add: distinct_append)
  have u: "set (?T' g) \<union> set (?T' h) = set (?T g) \<union> set (?T h)"
    using mset_eq_setD[OF assms(3)] by simp
  have "distinct (?T' x)" for x using d T(1) other by (cases "x = g"; cases "x = h") auto
  moreover have "set (?T' x) \<inter> set (?T' y) = {}" if "x \<noteq> y" for x y
  proof -
    have sub: "set (?T' z) \<subseteq> set (?T g) \<union> set (?T h)" if "z = g \<or> z = h" for z using that u by auto
    consider "x \<in> {g, h}" "y \<in> {g, h}" | "x \<in> {g, h}" "y \<notin> {g, h}" | "x \<notin> {g, h}" "y \<in> {g, h}"
      | "x \<notin> {g, h}" "y \<notin> {g, h}" by blast
    then show ?thesis
    proof cases
      case 1
      then show ?thesis using d that by auto
    next
      case 2
      then show ?thesis using sub[of x] other[of y] T(2)[of g y] T(2)[of h y] by auto
    next
      case 3
      then show ?thesis using sub[of y] other[of x] T(2)[of g x] T(2)[of h x] by auto
    next
      case 4
      then show ?thesis using other[of x] other[of y] T(2)[OF that] by auto
    qed
  qed
  moreover have "(\<Union>x. set (?T' x)) = (\<Union>x. set (?T x))"
  proof -
    have "(\<Union>x. set (S x)) = set (S g) \<union> set (S h) \<union> (\<Union>x \<in> - {g, h}. set (S x))" for S :: "u64 \<Rightarrow> thread_ptr list"
      by auto
    moreover have "(\<Union>x \<in> - {g, h}. set (?T' x)) = (\<Union>x \<in> - {g, h}. set (?T x))"
      using other by auto
    ultimately show ?thesis using u by metis
  qed
  ultimately show ?thesis using assms(1) live by (simp add: placed_once_def)
qed

section \<open>Steps that keep every thread where it is\<close>

lemma threads_at_upd [simp]:
  "threads_at (k\<lparr>k_tls := (k_tls k)(gs \<mapsto> cpu)\<rparr>) g = (if g = gs then cpu_threads cpu else threads_at k g)"
  by (simp add: threads_at_def)

lemma sched_ok_cong:
  assumes "k_table k' = k_table k" "k_tls k' = k_tls k" "k_cpus k' = k_cpus k" "k_next_id k' = k_next_id k"
    and "k_mem k' = k_mem k"
  shows "sched_ok k' = sched_ok k"
  using assms by (simp add: sched_ok_def placed_once_def threads_at_def ids_ok_def cpus_ok_def pages_ok_def)

lemma sched_ok_start: "mem_ok m \<Longrightarrow> sched_ok (kernel_start m ram)"
  by (auto simp: sched_ok_def placed_once_def threads_at_def ids_ok_def cpus_ok_def pages_ok_def kernel_start_def
      thread_table_new_def cpus_new_def live_def in_set_conv_nth)

lemma sched_ok_tls:
  assumes ok: "sched_ok k" and cpu: "k_tls k gs = Some cpu" and id: "tls_cpu_id cpu' = tls_cpu_id cpu"
    and ts: "mset (cpu_threads cpu') = mset (cpu_threads cpu)" and q: "queue_ok (ready_queue cpu')"
    and cur: "thread_addr cpu' = NullThread \<or> thread_addr cpu' = IdleThread gs \<or> (\<exists>i. thread_addr cpu' = TableThread i)"
  shows "sched_ok (k\<lparr>k_tls := (k_tls k)(gs \<mapsto> cpu')\<rparr>)"
proof -
  let ?k = "k\<lparr>k_tls := (k_tls k)(gs \<mapsto> cpu')\<rparr>"
  have "placed_once ?k"
    using placed_once_cong[of ?k k] ts cpu ok by (auto simp: sched_ok_def threads_at_def)
  moreover have "cpu_ok (k_table k) g c" if "k_tls ?k g = Some c" for g c
  proof (cases "g = gs")
    case True
    have "set (cpu_threads cpu') = set (cpu_threads cpu)" using ts by (rule mset_eq_setD)
    then show ?thesis using True that ok cpu q cur id by (auto simp: sched_ok_def cpu_ok_def)
  qed (use that ok in \<open>auto simp: sched_ok_def\<close>)
  moreover have "ids_ok ?k" using ok by (simp add: sched_ok_def ids_ok_def)
  moreover have "cpus_ok ?k" using ok cpu id by (auto simp: sched_ok_def cpus_ok_def)
  moreover have "pages_ok ?k" using ok cpu by (auto simp: sched_ok_def pages_ok_def)
  ultimately show ?thesis using ok by (simp add: sched_ok_def)
qed

lemma ids_ok_cong:
  assumes "map (map_option th_id) (k_table k') = map (map_option th_id) (k_table k)" "k_next_id k' = k_next_id k"
    and ok: "ids_ok k"
  shows "ids_ok k'"
proof -
  have len: "length (k_table k') = length (k_table k)" using arg_cong[OF assms(1), of length] by simp
  have ids: "\<exists>v. k_table k ! j = Some v \<and> th_id v = th_id w"
    if "j < length (k_table k)" "k_table k' ! j = Some w" for j w
    using arg_cong[OF assms(1), of "\<lambda>xs. xs ! j"] that len by (cases "k_table k ! j") auto
  have "unat (th_id w) < unat (k_next_id k)" if w: "Some w \<in> set (k_table k')" for w
  proof -
    obtain j where j: "j < length (k_table k)" "k_table k' ! j = Some w" using w len by (auto simp: in_set_conv_nth)
    obtain v where v: "k_table k ! j = Some v" "th_id v = th_id w" using ids[OF j] by blast
    have "Some v \<in> set (k_table k)" using nth_mem[OF j(1)] v(1) by simp
    then show ?thesis using ok v(2) by (auto simp: ids_ok_def)
  qed
  moreover have "j = l" if j: "j < length (k_table k)" "k_table k' ! j = Some v"
    and l: "l < length (k_table k)" "k_table k' ! l = Some w" and "th_id v = th_id w" for j l v w
    using ids[OF j] ids[OF l] j(1) l(1) that(5) ok by (auto simp: ids_ok_def)
  ultimately show ?thesis using len assms(2) by (auto simp: ids_ok_def)
qed

lemma sched_ok_store:
  assumes ok: "sched_ok k" and i: "i < length (k_table k)" "k_table k ! i = Some t"
    and same: "th_id u = th_id t" "th_sched u = th_sched t"
  shows "sched_ok (k\<lparr>k_table := (k_table k)[i := Some u]\<rparr>)"
proof -
  let ?k = "k\<lparr>k_table := (k_table k)[i := Some u]\<rparr>"
  have lab: "label (k_table ?k) j = label (k_table k) j" for j
    using i same by (cases "j = i") (simp_all add: label_def)
  have "placed_once ?k"
    using placed_once_cong[of ?k k] ok lab by (simp add: label_live sched_ok_def threads_at_def)
  moreover have "cpu_ok (k_table ?k) g c" if "k_tls ?k g = Some c" for g c
    using that ok lab by (simp add: sched_ok_def cpu_ok_def)
  moreover have "ids_ok ?k"
  proof (rule ids_ok_cong)
    show "map (map_option th_id) (k_table ?k) = map (map_option th_id) (k_table k)"
      using i same by (simp add: map_update list_update_same_conv)
  qed (use ok in \<open>simp_all add: sched_ok_def\<close>)
  moreover have "cpus_ok ?k" "pages_ok ?k" using ok by (simp_all add: sched_ok_def cpus_ok_def pages_ok_def)
  ultimately show ?thesis using ok by (simp add: sched_ok_def)
qed

lemma cpu_threads_current:
  "cpu_threads (cpu\<lparr>idle_thread := t\<rparr>) = cpu_threads cpu"
  "thread_addr cpu = NullThread \<Longrightarrow> cpu_threads (cpu\<lparr>thread_addr := IdleThread g\<rparr>) = cpu_threads cpu"
  by (simp_all add: cpu_threads_def)

lemma sched_ok_cpu:
  "sched_ok k \<Longrightarrow> k_tls k gs = Some cpu \<Longrightarrow> cpu_ok (k_table k) gs cpu"
  by (simp add: sched_ok_def)

lemma enter_idle_ok:
  assumes "sched_ok k" "k_tls k gs = Some cpu" "thread_addr cpu = NullThread" "enter_idle k gs = Inr k'"
  shows "sched_ok k'"
proof -
  have "k' = k\<lparr>k_tls := (k_tls k)(gs \<mapsto> cpu\<lparr>thread_addr := IdleThread gs\<rparr>)\<rparr>"
    using assms(2,4) by (simp add: enter_idle_def current_cpu_def)
  moreover have "queue_ok (ready_queue cpu)" using sched_ok_cpu[OF assms(1,2)] by (simp add: cpu_ok_def)
  ultimately show ?thesis using sched_ok_tls[OF assms(1,2)] cpu_threads_current(2)[OF assms(3)] by simp
qed

lemma save_ok:
  assumes ok: "sched_ok k" and t: "deref_thread k p = Inr t"
    and st: "store_thread k p (t\<lparr>th_regs := sp\<rparr>) = Inr k'"
  shows "sched_ok k'"
proof (cases p)
  case NullThread
  then show ?thesis using t by (simp add: deref_thread_def)
next
  case (TableThread i)
  then have i: "i < length (k_table k)" "k_table k ! i = Some t" using t by (auto simp: res_iff)
  then have "k' = k\<lparr>k_table := (k_table k)[i := Some (t\<lparr>th_regs := sp\<rparr>)]\<rparr>"
    using st TableThread by (simp add: store_table)
  then show ?thesis using sched_ok_store[OF ok i] by simp
next
  case (IdleThread g)
  then obtain d where d: "k_tls k g = Some d" using t by (auto simp: deref_thread_def current_cpu_def res_iff)
  then have "k' = k\<lparr>k_tls := (k_tls k)(g \<mapsto> d\<lparr>idle_thread := t\<lparr>th_regs := sp\<rparr>\<rparr>)\<rparr>"
    using st t IdleThread by (simp add: store_thread_def)
  then show ?thesis
    using sched_ok_tls[OF ok d, of "d\<lparr>idle_thread := t\<lparr>th_regs := sp\<rparr>\<rparr>"] sched_ok_cpu[OF ok d]
    by (simp add: cpu_threads_current cpu_ok_def)
qed

lemma switch_ok:
  assumes ok: "sched_ok k" and cpu: "k_tls k gs = Some cpu" and cur: "thread_addr cpu \<noteq> NullThread"
  obtains k' where "switch k gs = Inr k'" "sched_ok k'" "k_mem k' = k_mem k" "k_tls k' gs \<noteq> None"
    "k_mmio k' = k_mmio k"
proof -
  have c: "cpu_ok (k_table k) gs cpu" using sched_ok_cpu[OF ok cpu] .
  then have q: "queue_ok (ready_queue cpu)" by (simp add: cpu_ok_def)
  from cpu q show thesis
  proof (cases rule: switch_cases)
    case stay
    then show thesis using that[of k] ok cpu by simp
  next
    case (swap p ps q')
    let ?c = "cpu\<lparr>ready_queue := q', thread_addr := p\<rparr>"
    have "p \<in> set (threads_at k gs)" using cpu swap(1) by (simp add: threads_at_def cpu_threads_def)
    from threads_live[OF ok this] obtain i where i: "p = TableThread i" by blast
    have "mset (cpu_threads ?c) = mset (cpu_threads cpu)"
      using swap(1,3) i c cur by (auto simp: cpu_threads_def cpu_ok_def)
    then have "sched_ok (k\<lparr>k_tls := (k_tls k)(gs \<mapsto> ?c)\<rparr>)"
      by (intro sched_ok_tls[OF ok cpu]) (use swap(2) i in simp_all)
    then show thesis using that[OF swap(4)] by simp
  qed
qed

section \<open>Load balancing\<close>

lemma label_retarget:
  "label (retarget S c tbl) i = (if TableThread i \<in> S \<and> live tbl i then Some (Some c) else label tbl i)"
  by (auto simp: label_def live_def nth_retarget)

lemma retarget_ids: "map (map_option th_id) (retarget S c tbl) = map (map_option th_id) tbl"
  by (intro nth_equalityI) (auto simp: nth_retarget option.map_comp comp_def)

lemma online_cpu:
  assumes "sched_ok k" "get_cpu_tls k c = Some gs"
  obtains cpu where "k_tls k gs = Some cpu"
proof -
  have cs: "cpus_ok k" using assms(1) by (simp add: sched_ok_def)
  then have c: "unat c < 256" "cd_online (k_cpus k ! unat c)" "gs = cd_tls (k_cpus k ! unat c)"
    using assms(2) by (auto simp: get_cpu_tls_def cpus_ok_def split: if_splits)
  have "cd_online (k_cpus k ! unat c) \<longrightarrow> (\<exists>cpu. k_tls k (cd_tls (k_cpus k ! unat c)) = Some cpu)"
    using cs c(1) unfolding cpus_ok_def by blast
  then show thesis using c that by blast
qed

text \<open>What a completed balancing does to the kernel, as the two queues it leaves.\<close>

lemma sched_ok_balance:
  assumes ok: "sched_ok k" and cpu: "k_tls k gs = Some cpu" and other: "k_tls k og = Some oth" and ne: "gs \<noteq> og"
    and a: "queue_content (ready_queue cpu) = a" and b: "queue_content (ready_queue oth) = b"
    and q: "queue_ok qa" "queue_ok qb" "queue_content qa = a'" "queue_content qb = b'"
    and ms: "mset (a' @ b') = mset (a @ b)"
    and k1: "k_tls k1 = (k_tls k)(gs \<mapsto> cpu\<lparr>ready_queue := qa\<rparr>, og \<mapsto> oth\<lparr>ready_queue := qb\<rparr>)"
      "k_table k1 = retarget (set b' - set b) (tls_cpu_id oth) (retarget (set a' - set a) (tls_cpu_id cpu) (k_table k))"
      "k_cpus k1 = k_cpus k" "k_next_id k1 = k_next_id k" "k_mem k1 = k_mem k"
  shows "sched_ok k1"
proof -
  define cur where "cur c = (case thread_addr c of TableThread i \<Rightarrow> [TableThread i] | _ \<Rightarrow> [])" for c :: tls_data
  have T: "threads_at k gs = cur cpu @ a" "threads_at k og = cur oth @ b"
      "threads_at k1 gs = cur cpu @ a'" "threads_at k1 og = cur oth @ b'"
      "\<And>g. g \<noteq> gs \<Longrightarrow> g \<noteq> og \<Longrightarrow> threads_at k1 g = threads_at k g"
    using cpu other ne a b q k1 by (simp_all add: threads_at_def cpu_threads_def cur_def)
  have live: "live (k_table k1) i = live (k_table k) i" for i by (simp add: k1)
  have placed: "placed_once k1"
    by (rule placed_once_move[OF _ ne]) (use ok ms T live in \<open>simp_all add: sched_ok_def\<close>)
  have sets: "set a' \<union> set b' = set a \<union> set b" using mset_eq_setD[OF ms] by simp
  have disj: "set (threads_at k1 g) \<inter> set (threads_at k1 h) = {}" if "g \<noteq> h" for g h
    using placed that by (auto simp: placed_once_def)
  have dist: "set (cur cpu) \<inter> set a' = {}" "set (cur oth) \<inter> set b' = {}"
    using placed T by (metis distinct_append placed_once_def)+
  have lab: "label (k_table k1) i = Some (Some (tls_cpu_id c))" if c: "k_tls k1 g = Some c"
    and i: "TableThread i \<in> set (cpu_threads c)" for g c i
  proof -
    have mem: "TableThread i \<in> set (threads_at k1 g)" using c i by (simp add: threads_at_def)
    then have lv: "live (k_table k) i" using placed_live[OF placed] live by blast
    have old: "label (k_table k) i = Some (Some (tls_cpu_id d))" if "k_tls k g = Some d" "TableThread i \<in> set (cpu_threads d)"
      for d using sched_ok_cpu[OF ok that(1)] that(2) by (simp add: cpu_ok_def)
    consider "g = gs" | "g = og" | "g \<noteq> gs" "g \<noteq> og" by blast
    then show ?thesis
    proof cases
      case 1
      then have "TableThread i \<notin> set b'" and mem': "TableThread i \<in> set (cur cpu) \<union> set a'"
        using disj[OF ne] mem T by auto
      moreover have "label (k_table k) i = Some (Some (tls_cpu_id cpu))" if "TableThread i \<notin> set a' - set a"
        using old[of cpu] mem' that T cpu 1 by (auto simp: threads_at_def)
      ultimately show ?thesis using c 1 ne lv k1(1,2) by (auto simp: label_retarget)
    next
      case 2
      then have "TableThread i \<notin> set a'" and mem': "TableThread i \<in> set (cur oth) \<union> set b'"
        using disj[OF ne] mem T by auto
      moreover have "label (k_table k) i = Some (Some (tls_cpu_id oth))" if "TableThread i \<notin> set b' - set b"
        using old[of oth] mem' that T other 2 by (auto simp: threads_at_def)
      ultimately show ?thesis using c 2 lv k1(1,2) by (auto simp: label_retarget)
    next
      case 3
      then have "TableThread i \<notin> set a'" "TableThread i \<notin> set b'"
        using disj[of g gs] disj[of g og] mem T by auto
      then show ?thesis using old[of c] c i 3 k1(1,2) by (simp add: label_retarget)
    qed
  qed
  have "cpu_ok (k_table k1) g c" if c: "k_tls k1 g = Some c" for g c
    using lab[OF c] c q sched_ok_cpu[OF ok, of g] sched_ok_cpu[OF ok cpu] sched_ok_cpu[OF ok other] k1(1)
    by (auto simp: cpu_ok_def split: if_splits)
  moreover have "ids_ok k1"
    by (rule ids_ok_cong[of _ k]) (use ok k1 in \<open>simp_all add: retarget_ids sched_ok_def\<close>)
  moreover have "cpus_ok k1" using ok cpu other k1(1,3) by (fastforce simp: sched_ok_def cpus_ok_def)
  moreover have "pages_ok k1" using ok cpu other k1(1,5) by (auto simp: sched_ok_def pages_ok_def)
  ultimately show ?thesis using placed ok k1(2) by (simp add: sched_ok_def)
qed

lemma maybe_load_balance_ok:
  assumes ok: "sched_ok k" and cpu: "k_tls k gs = Some cpu"
  obtains k' where "maybe_load_balance k gs tsc = Inr k'" "sched_ok k'" "k_mem k' = k_mem k" "k_mmio k' = k_mmio k"
    "dom (k_tls k') = dom (k_tls k)"
proof (cases "get_random_online_cpu k tsc")
  case None
  then show thesis using that[of k] ok by (simp add: maybe_load_balance_def)
next
  case (Some og)
  then obtain oth where oth: "k_tls k og = Some oth" using online_cpu[OF ok] by (auto simp: get_random_online_cpu_def)
  show thesis
  proof (cases "tls_cpu_id cpu = tls_cpu_id oth")
    case True
    then show thesis using that[of k] ok cpu oth Some by (simp add: maybe_load_balance_def current_cpu_def)
  next
    case False
    then have ne: "gs \<noteq> og" using cpu oth by auto
    define a b where "a = queue_content (ready_queue cpu)" and "b = queue_content (ready_queue oth)"
    have sub: "set a \<subseteq> set (threads_at k gs)" "set b \<subseteq> set (threads_at k og)"
      using cpu oth by (auto simp: a_def b_def threads_at_def cpu_threads_def)
    have "distinct (threads_at k gs)" "distinct (threads_at k og)" "set (threads_at k gs) \<inter> set (threads_at k og) = {}"
      using ok ne by (auto simp: sched_ok_def placed_once_def)
    then have d: "distinct (a @ b)" using sub cpu oth by (auto simp: a_def b_def threads_at_def cpu_threads_def)
    have l: "\<forall>p \<in> set (a @ b). \<exists>i. p = TableThread i \<and> live (k_table k) i"
      using sub threads_live[OF ok] by (metis (no_types, opaque_lifting) Un_iff set_append subsetD)
    have q: "queue_ok (ready_queue cpu)" "queue_ok (ready_queue oth)"
      using sched_ok_cpu[OF ok cpu] sched_ok_cpu[OF ok oth] by (auto simp: cpu_ok_def)
    obtain a' b' where sp: "balance_spec a b = (a', b')" by fastforce
    obtain qa qb k1 where r:
      "do_load_balance (ready_queue cpu) (ready_queue oth) (tls_cpu_id cpu) (tls_cpu_id oth) k = Inr (qa, qb, k1)"
      "queue_ok qa" "queue_ok qb" "queue_content qa = a'" "queue_content qb = b'"
      "k1 = k\<lparr>k_table := retarget (set b' - set b) (tls_cpu_id oth)
         (retarget (set a' - set a) (tls_cpu_id cpu) (k_table k)), k_log := k_log k1\<rparr>"
      by (rule do_load_balance_spec[OF q d[unfolded a_def b_def] l[unfolded a_def b_def] a_def[symmetric] b_def[symmetric] sp])
    let ?k = "set_queue og qb (set_queue gs qa k1)"
    have k1: "k_tls k1 = k_tls k" "k_cpus k1 = k_cpus k" "k_next_id k1 = k_next_id k" "k_mem k1 = k_mem k"
        "k_mmio k1 = k_mmio k" "k_table k1 = retarget (set b' - set b) (tls_cpu_id oth)
         (retarget (set a' - set a) (tls_cpu_id cpu) (k_table k))"
      by (subst r(6), simp)+
    have tls: "k_tls ?k = (k_tls k)(gs \<mapsto> cpu\<lparr>ready_queue := qa\<rparr>, og \<mapsto> oth\<lparr>ready_queue := qb\<rparr>)"
      using cpu oth ne by (auto simp: set_queue_def k1)
    have okk: "sched_ok ?k"
      by (rule sched_ok_balance[OF ok cpu oth ne a_def[symmetric] b_def[symmetric] r(2-5) balance_spec_props(1)[OF sp] tls])
        (simp_all add: set_queue_def k1)
    have mlb: "maybe_load_balance k gs tsc = Inr ?k"
      using Some oth cpu False r(1) by (simp add: maybe_load_balance_def current_cpu_def)
    have "dom (k_tls ?k) = dom (k_tls k)" unfolding tls using cpu oth by auto
    then show thesis by (intro that[OF mlb okk]) (simp_all add: set_queue_def k1)
  qed
qed

section \<open>Allocation and new CPUs\<close>

lemma sched_ok_alloc:
  assumes ok: "sched_ok k" and m: "mem_ok m" "HHDM_OFFSET m = HHDM_OFFSET (k_mem k)" "mem_free m \<subseteq> mem_free (k_mem k)"
  shows "sched_ok (k\<lparr>k_mem := m\<rparr>)"
  using assms by (auto simp: sched_ok_def placed_once_def threads_at_def ids_ok_def cpus_ok_def pages_ok_def)

lemma alloc_ok:
  assumes "x86_ok X" "sched_ok k" "alloc_frames X (k_mem k) n = Inr (r, m)"
  shows "sched_ok (k\<lparr>k_mem := m\<rparr>)"
proof (rule sched_ok_alloc[OF assms(2)])
  have inv: "x86_ok X \<and> mem_ok (k_mem k)" using assms by (simp add: sched_ok_def pages_ok_def)
  show "HHDM_OFFSET m = HHDM_OFFSET (k_mem k)" using alloc_frames_hhdm[OF assms(3)] .
  from inv show "mem_ok m" by (cases rule: mem.alloc_cases[where n = n]) (use assms(3) inv in auto)
  from inv show "mem_free m \<subseteq> mem_free (k_mem k)"
    by (cases rule: mem.alloc_cases[where n = n]) (use assms(3) inv in auto)
qed

lemma alloc_tls_returns:
  assumes "alloc_tls X sz k = Inr (gs, k1)"
  shows "sz \<le> 4096" "k_cpus k1 = k_cpus k"
proof -
  obtain r m where a: "alloc_frame X (k_mem k) = Inr (r, m)" using assms by (auto simp: alloc_tls_def res_iff)
  show "sz \<le> 4096" "k_cpus k1 = k_cpus k"
    by (cases r; use assms a in \<open>auto simp: alloc_tls_def res_iff\<close>)+
qed

lemma setup_tls_returns:
  assumes "setup_tls X sz e c k = Inr r"
  shows "sz \<le> 4096" "unat c < length (k_cpus k)"
  using assms by (auto simp: setup_tls_def res_iff word_nat dest: alloc_tls_returns)

lemma setup_tls_ok:
  assumes X: "x86_ok X" and ok: "sched_ok k" and st: "setup_tls X sz e c k = Inr (gs, k')"
  shows "sched_ok k'" "k_tls k gs = None" "\<exists>cpu. k_tls k' gs = Some cpu \<and> tls_cpu_id cpu = c \<and> thread_addr cpu = NullThread"
proof -
  have m: "mem_ok (k_mem k)" and pages: "\<And>g a. k_tls k g \<noteq> None \<Longrightarrow> a \<in> mem_free (k_mem k) \<Longrightarrow> unat g \<noteq> a + unat (HHDM_OFFSET (k_mem k))"
    using ok by (auto simp: sched_ok_def pages_ok_def)
  have c: "unat c < length (k_cpus k)" using setup_tls_returns(2)[OF st] .
  have sz: "sz \<le> 4096" using setup_tls_returns(1)[OF st] .
  from X m sz c have "sched_ok k' \<and> k_tls k gs = None \<and>
    (\<exists>cpu. k_tls k' gs = Some cpu \<and> tls_cpu_id cpu = c \<and> thread_addr cpu = NullThread)"
  proof (cases rule: setup_tls_cases[where e = e])
    case oom
    then show ?thesis using st by simp
  next
    case ok': (ok a t m' gs')
    let ?cpu = "\<lparr>tls_cpu_id = c, idt_addr = 0, gdt_addr = 0, thread_addr = NullThread, idle_thread = t, ready_queue = queue_new\<rparr>"
    have gs: "gs' = gs" using ok'(8) st by simp
    have fresh: "k_tls k gs = None" using pages[of gs "unat a"] ok'(2,3) gs by (cases "k_tls k gs") auto
    have e: "cpu_threads ?cpu = []" by (simp add: cpu_threads_def queue_new_ok)
    have k': "k_tls k' = (k_tls k)(gs \<mapsto> ?cpu)" "k_table k' = k_table k" "k_next_id k' = k_next_id k" "k_mem k' = m'"
        "k_cpus k' = (k_cpus k)[unat c := \<lparr>cd_online = True, cd_tls = gs\<rparr>]"
      using ok'(8) st gs by auto
    have "threads_at k' g = threads_at k g" for g using fresh e k'(1) by (simp add: threads_at_def)
    then have "placed_once k'" using ok k'(2) by (simp add: sched_ok_def placed_once_def)
    moreover have "cpu_ok (k_table k') g d" if "k_tls k' g = Some d" for g d
      using that sched_ok_cpu[OF ok, of g] k' e by (cases "g = gs") (auto simp: cpu_ok_def queue_new_ok)
    moreover have "ids_ok k'" using ok k' by (simp add: sched_ok_def ids_ok_def)
    moreover have "cpus_ok k'"
      using ok k' fresh c by (auto simp: sched_ok_def cpus_ok_def nth_list_update)
    moreover have "pages_ok k'"
      using ok'(2-6) k' pages gs by (auto simp: pages_ok_def)
    ultimately show ?thesis using ok k' fresh by (simp add: sched_ok_def)
  qed
  then show "sched_ok k'" "k_tls k gs = None" "\<exists>cpu. k_tls k' gs = Some cpu \<and> tls_cpu_id cpu = c \<and> thread_addr cpu = NullThread"
    by blast+
qed

section \<open>Spawning\<close>

text \<open>While the table has a free slot no ready queue is full: its threads have different slots.\<close>

lemma ready_queue_room:
  assumes ok: "sched_ok k" and cpu: "k_tls k gs = Some cpu" and free: "None \<in> set (k_table k)"
  shows "length (queue_content (ready_queue cpu)) < 256"
proof -
  let ?c = "queue_content (ready_queue cpu)"
  have len: "length (k_table k) = 256" using ok by (simp add: sched_ok_def)
  have d: "distinct (threads_at k gs)" using ok by (simp add: sched_ok_def placed_once_def)
  have dc: "distinct ?c" using d cpu by (simp add: threads_at_def cpu_threads_def)
  obtain j where j: "j < 256" "k_table k ! j = None" using free len by (auto simp: in_set_conv_nth)
  have "set ?c \<subseteq> TableThread ` ({..<256} - {j})"
  proof
    fix p assume "p \<in> set ?c"
    then have "p \<in> set (threads_at k gs)" using cpu by (simp add: threads_at_def cpu_threads_def)
    from threads_live[OF ok this] obtain i where p: "p = TableThread i" "live (k_table k) i" .
    then have "i < 256" "i \<noteq> j" using len j(2) unfolding live_def by auto
    then show "p \<in> TableThread ` ({..<256} - {j})" using p(1) by blast
  qed
  then have "card (set ?c) \<le> card (TableThread ` ({..<256} - {j}))" by (intro card_mono) auto
  also have "\<dots> \<le> card ({..<256} - {j})" by (intro card_image_le) simp
  also have "\<dots> = 255" using j(1) by simp
  finally show ?thesis using distinct_card[OF dc] by simp
qed

lemma ids_fresh:
  assumes "sched_ok k"
  shows "\<forall>t. Some t \<in> set (k_table k) \<longrightarrow> th_id t \<noteq> k_next_id k"
  using assms by (auto simp: sched_ok_def ids_ok_def)

lemma ids_ok_add:
  assumes ok: "ids_ok k" and i: "i < length (k_table k)" "k_table k ! i = None" and t: "th_id t = k_next_id k"
    and n: "unat (k_next_id k) < 2 ^ 64 - 1" and k': "k_table k' = (k_table k)[i := Some t]" "k_next_id k' = k_next_id k + 1"
  shows "ids_ok k'"
proof -
  have nx: "unat (k_next_id k + 1) = unat (k_next_id k) + 1" using n by (simp add: word_nat)
  have old: "unat (th_id u) < unat (k_next_id k)" if "j < length (k_table k)" "k_table k ! j = Some u" for j u
    using ok that nth_mem[OF that(1)] by (auto simp: ids_ok_def)
  have "unat (th_id w) < unat (k_next_id k')" if w: "Some w \<in> set (k_table k')" for w
  proof -
    obtain j where j: "j < length (k_table k)" "k_table k' ! j = Some w" using w k' by (auto simp: in_set_conv_nth)
    then show ?thesis using old[OF j(1)] t k' nx by (cases "j = i") (auto simp: less_Suc_eq)
  qed
  moreover have "j = l" if "j < length (k_table k)" "l < length (k_table k)" "k_table k' ! j = Some v"
      "k_table k' ! l = Some w" "th_id v = th_id w" for j l v w
    using that old[of j v] old[of l w] t k'(1) i ok
    by (cases "j = i"; cases "l = i") (auto simp: ids_ok_def)
  ultimately show ?thesis using k' by (auto simp: ids_ok_def)
qed

lemma sched_ok_spawned:
  assumes ok: "sched_ok k" and cpu: "k_tls k gs = Some cpu" and i: "i < length (k_table k)" "k_table k ! i = None"
    and t: "th_id t = k_next_id k" "ss_cpu (th_sched t) = Some (tls_cpu_id cpu)"
    and n: "unat (k_next_id k) < 2 ^ 64 - 1"
    and q: "queue_ok q" "queue_content q = queue_content (ready_queue cpu) @ [TableThread i]"
    and m: "mem_ok m" "HHDM_OFFSET m = HHDM_OFFSET (k_mem k)" "mem_free m \<subseteq> mem_free (k_mem k)"
    and k': "k_table k' = (k_table k)[i := Some t]" "k_tls k' = (k_tls k)(gs \<mapsto> cpu\<lparr>ready_queue := q\<rparr>)"
      "k_next_id k' = k_next_id k + 1" "k_cpus k' = k_cpus k" "k_mem k' = m"
  shows "sched_ok k'"
proof -
  have T: "threads_at k' g = (if g = gs then threads_at k gs @ [TableThread i] else threads_at k g)" for g
    using cpu q(2) k'(2) by (simp add: threads_at_def cpu_threads_def)
  have new: "TableThread i \<notin> set (threads_at k g)" for g
    using threads_live[OF ok, of "TableThread i" g] i unfolding live_def by (metis thread_ptr.inject(1))
  have live: "live (k_table k') j \<longleftrightarrow> live (k_table k) j \<or> j = i" for j
    using i k'(1) by (cases "j = i") (auto simp: live_def)
  have pl: "placed_once k" using ok by (simp add: sched_ok_def)
  have "(\<Union>g. set (threads_at k' g)) = insert (TableThread i) (\<Union>g. set (threads_at k g))"
    by (auto simp: T split: if_splits)
  also have "\<dots> = TableThread ` {j. live (k_table k') j}" using pl live by (auto simp: placed_once_def)
  finally have "placed_once k'" using pl new by (auto simp: placed_once_def T)
  moreover have "cpu_ok (k_table k') g c" if c: "k_tls k' g = Some c" for g c
  proof -
    have lab: "label (k_table k') j = (if j = i then Some (Some (tls_cpu_id cpu)) else label (k_table k) j)" for j
      using i t k'(1) by (simp add: label_def)
    have "cpu_ok (k_table k) gs cpu" using sched_ok_cpu[OF ok cpu] .
    then show ?thesis
      using c lab q k'(2) sched_ok_cpu[OF ok, of g] new[of g] by (cases "g = gs") (auto simp: cpu_ok_def cpu_threads_def threads_at_def)
  qed
  moreover have "ids_ok k'"
    using ids_ok_add[OF _ i t(1) n k'(1,3)] ok by (simp add: sched_ok_def)
  moreover have "cpus_ok k'" using ok cpu k'(2,4) by (fastforce simp: sched_ok_def cpus_ok_def)
  moreover have "pages_ok k'" using ok cpu m k'(2,5) by (auto simp: sched_ok_def pages_ok_def)
  ultimately show ?thesis using ok k'(1) by (simp add: sched_ok_def)
qed

text \<open>\<open>spawn_raw\<close> panics only when memory is exhausted, and keeps the invariant.\<close>

lemma spawn_raw_ok:
  assumes X: "x86_ok X" and inv: "sched_ok k" and cpu: "k_tls k gs = Some cpu" and n: "unat (k_next_id k) < 2 ^ 64 - 1"
  obtains (oom) "stack_new X (k_mem k) 4 = Inl (ExpectFailed ''Out of memory'')"
      "spawn_raw X k gs entry arg = Inl (ExpectFailed ''Out of memory'')"
    | (full) k' where "spawn_raw X k gs entry arg = Inr (None, k')" "sched_ok k'" "None \<notin> set (k_table k)"
      "k_table k' = k_table k" "k_tls k' = k_tls k"
    | (ok) k' i t cpu' where "spawn_raw X k gs entry arg = Inr (Some (k_next_id k), k')" "sched_ok k'"
      "i < length (k_table k)" "k_table k ! i = None" "k_table k' = (k_table k)[i := Some t]" "th_id t = k_next_id k"
      "k_tls k' = (k_tls k)(gs \<mapsto> cpu')" "cpu_threads cpu' = cpu_threads cpu @ [TableThread i]"
      "read_words (k_ram k') (th_regs t) 20 = regs_words (start_regs X entry arg (get_top_address (kernel_stack t)))"
      "get_top_address (kernel_stack t) AND 0xf = 0"
proof -
  have m: "mem_ok (k_mem k)" using inv by (simp add: sched_ok_def pages_ok_def)
  have q: "queue_ok (ready_queue cpu)" using sched_ok_cpu[OF inv cpu] by (simp add: cpu_ok_def)
  have four: "unat (4 :: usize) < 2 ^ 40" by simp
  have mem: "mem_ok m'" "HHDM_OFFSET m' = HHDM_OFFSET (k_mem k)" "mem_free m' \<subseteq> mem_free (k_mem k)"
      "get_top_address stk AND 0xf = 0" if "stack_new X (k_mem k) 4 = Inr (stk, m')" for stk m'
    using stack_new_cases[OF X m four] that by (metis Diff_subset Inl_Inr_False Pair_inject sum.inject(2))+
  have room: "None \<in> set (k_table k) \<longrightarrow> length (queue_content (ready_queue cpu)) < 256"
    using ready_queue_room[OF inv cpu] by blast
  from X m cpu q ids_fresh[OF inv] room show thesis
  proof (cases rule: spawn_raw_cases[where entry = entry and arg = arg])
    case oom
    then show thesis by (rule that(1))
  next
    case (full stk m')
    let ?k = "k\<lparr>k_next_id := k_next_id k + 1, k_mem := m',
      k_ram := write_words (k_ram k) (get_top_address stk - size_of_regs)
        (regs_words (start_regs X entry arg (get_top_address stk)))\<rparr>"
    have nx: "unat (k_next_id k) < unat (k_next_id k + 1)" using n by (simp add: word_nat)
    have "ids_ok ?k" using inv nx by (auto simp: sched_ok_def ids_ok_def intro: less_trans)
    then have "sched_ok ?k"
      using inv mem[OF full(1)] by (auto simp: sched_ok_def placed_once_def threads_at_def cpus_ok_def pages_ok_def)
    then show thesis using that(2)[OF full(3)] full(2) by simp
  next
    case new: (ok stk m' i q')
    let ?t = "\<lparr>th_regs = get_top_address stk - size_of_regs, th_id = k_next_id k, kernel_stack = stk,
      th_sched = \<lparr>ss_cpu = Some (tls_cpu_id cpu), ss_state = Ready\<rparr>\<rparr>"
    let ?ws = "regs_words (start_regs X entry arg (get_top_address stk))"
    let ?k = "k\<lparr>k_next_id := k_next_id k + 1, k_mem := m',
      k_ram := write_words (k_ram k) (get_top_address stk - size_of_regs) ?ws,
      k_table := (k_table k)[i := Some ?t], k_tls := (k_tls k)(gs \<mapsto> cpu\<lparr>ready_queue := q'\<rparr>)\<rparr>"
    have okk: "sched_ok ?k"
      by (rule sched_ok_spawned[OF inv cpu new(2,3) _ _ n new(4,5) mem(1-3)[OF new(1)]]) simp_all
    have regs: "read_words (k_ram ?k) (th_regs ?t) 20 = ?ws"
      using read_write_words[of ?ws "k_ram k" "get_top_address stk - size_of_regs"] by simp
    have ts: "cpu_threads (cpu\<lparr>ready_queue := q'\<rparr>) = cpu_threads cpu @ [TableThread i]"
      using new(5) by (simp add: cpu_threads_def)
    show thesis
      by (rule that(3)[OF new(6) okk new(2,3), where t = ?t, OF _ _ _ ts])
        (use regs mem(4)[OF new(1)] in simp_all)
  qed
qed

section \<open>Reachable states\<close>

lemma sched_step_ok:
  assumes "sched_step X sz e k k'" "x86_ok X" "sched_ok k"
  shows "sched_ok k'"
  using assms
proof (cases rule: sched_step.cases)
  case (boot c gs)
  then show ?thesis using setup_tls_ok(1) assms(2,3) by blast
next
  case (idle gs cpu)
  then show ?thesis using enter_idle_ok assms(3) by blast
next
  case (save gs cpu t sp)
  then show ?thesis using save_ok assms(3) by blast
next
  case (switch gs cpu)
  show ?thesis by (rule switch_ok[OF assms(3) switch(1,2)]) (use switch(3) in simp)
next
  case (balance gs tsc)
  show ?thesis
  proof (cases "k_tls k gs")
    case None
    then show ?thesis
      using balance assms(3) by (auto simp: maybe_load_balance_def current_cpu_def res_iff split: option.splits)
  next
    case (Some cpu)
    show ?thesis by (rule maybe_load_balance_ok[OF assms(3) Some, of tsc]) (use balance in simp)
  qed
next
  case (spawn gs entry arg r)
  then obtain cpu where "k_tls k gs = Some cpu" by blast
  from assms(2,3) this spawn(2) show ?thesis
    by (cases rule: spawn_raw_ok[where entry = entry and arg = arg]) (use spawn(3) in auto)
next
  case (alloc n r m)
  then show ?thesis using alloc_ok assms(2,3) by blast
next
  case (device l off v)
  then show ?thesis using assms(3) sched_ok_cong[of k' k] by simp
next
  case (memory ram)
  then show ?thesis using assms(3) sched_ok_cong[of k' k] by simp
next
  case (print msg)
  then show ?thesis using assms(3) sched_ok_cong[of k' k] by (simp add: println_def)
next
  case (descriptors gs cpu g i)
  then show ?thesis using sched_ok_tls[OF assms(3) descriptors(2)] sched_ok_cpu[OF assms(3) descriptors(2)]
    by (simp add: cpu_ok_def cpu_threads_def)
qed

lemma reachable_sched_ok:
  assumes "reachable X sz e k" "x86_ok X"
  shows "sched_ok k"
  using assms by (induction rule: reachable.induct) (auto intro: sched_ok_start sched_step_ok)

text \<open>The timer handler, from its parts, with the two register writes at its end.\<close>

lemma timer_handler_reach:
  assumes X: "x86_ok X" and r: "reachable X sz e k" and cpu: "k_tls k gs = Some cpu" "thread_addr cpu \<noteq> NullThread"
    and l: "lapic_mapped (k_mem k) msr" and base: "base = lapic_phys_addr msr + HHDM_OFFSET (k_mem k)"
  obtains k' where "timer_handler X msr tsc k gs = Inr k'" "reachable X sz e k'"
    "k_mmio k' = k_mmio k @ [(base + 0x380, 0x0fff), (base + 0xB0, 0)]"
proof -
  note ok = reachable_sched_ok[OF r X]
  obtain k1 where k1: "switch k gs = Inr k1" "sched_ok k1" "k_mem k1 = k_mem k" "k_tls k1 gs \<noteq> None" "k_mmio k1 = k_mmio k"
    by (rule switch_ok[OF ok cpu])
  then obtain cpu1 where cpu1: "k_tls k1 gs = Some cpu1" by blast
  obtain k2 where k2: "maybe_load_balance k1 gs tsc = Inr k2" "k_mem k2 = k_mem k1" "k_mmio k2 = k_mmio k1"
    by (rule maybe_load_balance_ok[OF k1(2) cpu1, of tsc]) blast
  have r2: "reachable X sz e k2"
    by (rule reachable.step[OF reachable.step[OF r sched_step.switch[OF cpu k1(1)]] sched_step.balance[OF k2(1)]])
  let ?l = "\<lparr>lapic_address = base\<rparr>"
  have lap: "current_lapic X (k_mem k2) msr = Inr ?l"
    using current_lapic_ok[OF X l] k1(3) k2(2) base by simp
  let ?k3 = "lapic_write ?l 0x380 0x0fff k2"
  show thesis
  proof (rule that[of "send_eoi ?l ?k3"])
    show "timer_handler X msr tsc k gs = Inr (send_eoi ?l ?k3)"
      by (simp add: timer_handler_def k1(1) k2(1) lap)
    show "reachable X sz e (send_eoi ?l ?k3)"
      unfolding send_eoi_def by (rule reachable.step[OF reachable.step[OF r2 sched_step.device] sched_step.device])
    show "k_mmio (send_eoi ?l ?k3) = k_mmio k @ [(base + 0x380, 0x0fff), (base + 0xB0, 0)]"
      by (simp add: send_eoi_def k1(5) k2(3))
  qed
qed

text \<open>The small machine, evaluated: one CPU brought up and idle, then one thread spawned.\<close>

lemma small_mem_ok: "mem_ok (small_mem 0)"
  by (simp add: small_mem_def mem_ok_def hhdm_ok_def bfa_ok_def region_ok_def bitmap_ok_def regions_apart_def)

lemma small_mem_allocs:
  "alloc_frame x86_doc (small_mem 0) = Inr (Inr (Frame 0x10000), small_mem 1)"
  "alloc_frames x86_doc (small_mem 1) 1 = Inr (Inr \<lparr>fr_start = 0x11000, fr_count = 1\<rparr>, small_mem 3)"
  "alloc_frames x86_doc (small_mem 3) 4 = Inr (Inr \<lparr>fr_start = 0x12000, fr_count = 4\<rparr>, small_mem 0x3f)"
  by (simp_all add: small_mem_def alloc_frame_def alloc_frames_def bfa_eval frame_new_def
      alloc_one_def start_addr_def)

lemma small_stacks:
  "stack_new x86_doc (small_mem 1) 1 = Inr (\<lparr>st_base = 0xffff800000011000, st_size = 0x1000\<rparr>, small_mem 3)"
  "stack_new x86_doc (small_mem 3) 4 = Inr (\<lparr>st_base = 0xffff800000012000, st_size = 0x4000\<rparr>, small_mem 0x3f)"
  by (simp_all add: stack_new_def small_mem_allocs)
    (simp_all add: small_mem_def phys_to_virt_def x86_doc_def canonical_def start_addr_def)

lemma small_boot:
  obtains k cpu where "reachable x86_doc 4096 0 k" "k_tls k 0xffff800000010000 = Some cpu"
    "thread_addr cpu = IdleThread 0xffff800000010000" "k_mem k = small_mem 3" "k_next_id k = 1"
    "k_table k = thread_table_new" "k_mmio k = []" "cpu_threads cpu = []"
proof -
  let ?gs = "0xffff800000010000 :: u64" and ?k0 = "kernel_start (small_mem 0) (\<lambda>_. 0)"
  have v: "phys_to_virt x86_doc (small_mem 1) 0x10000 = Inr ?gs" "virt_new x86_doc ?gs = Some ?gs"
    by (simp_all add: small_mem_def phys_to_virt_def x86_doc_def canonical_def)
  have k0: "k_mem ?k0 = small_mem 0" "k_cpus ?k0 = cpus_new" by (simp_all add: kernel_start_def)
  have a: "alloc_tls x86_doc 4096 ?k0 = Inr (?gs, ?k0\<lparr>k_mem := small_mem 1, k_tls := (k_tls ?k0)(?gs \<mapsto> tls_zeroed)\<rparr>)"
    by (simp add: alloc_tls_def k0 small_mem_allocs frame_addr_def v(1))
  obtain idle ram where i: "new_idle x86_doc 0 (small_mem 1) (k_ram ?k0) = Inr (idle, small_mem 3, ram)"
    by (simp add: new_idle_def small_stacks get_top_address_def new_inside_kernel_def Let_def)
  let ?cpu = "\<lparr>tls_cpu_id = 0, idt_addr = 0, gdt_addr = 0, thread_addr = NullThread, idle_thread = idle, ready_queue = queue_new\<rparr>"
  let ?k1 = "?k0\<lparr>k_mem := small_mem 3, k_ram := ram, k_tls := (k_tls ?k0)(?gs \<mapsto> ?cpu),
    k_cpus := cpus_new[0 := \<lparr>cd_online = True, cd_tls = ?gs\<rparr>]\<rparr>"
  have "setup_tls x86_doc 4096 0 0 ?k0 = Inr (?gs, ?k1)"
    using i by (simp add: setup_tls_def a k0 v(2) Let_def) (simp add: cpus_new_def)
  then have r1: "reachable x86_doc 4096 0 ?k1"
    by (rule reachable.step[OF reachable.start[OF small_mem_ok] sched_step.boot])
  have t1: "k_tls ?k1 ?gs = Some ?cpu" by simp
  let ?k2 = "?k1\<lparr>k_tls := (k_tls ?k1)(?gs \<mapsto> ?cpu\<lparr>thread_addr := IdleThread ?gs\<rparr>)\<rparr>"
  have "enter_idle ?k1 ?gs = Inr ?k2" by (simp add: enter_idle_def current_cpu_def)
  with t1 have "reachable x86_doc 4096 0 ?k2"
    by (intro reachable.step[OF r1] sched_step.idle[of ?k1 ?gs ?cpu]) simp_all
  then show thesis
    by (rule that[of ?k2 "?cpu\<lparr>thread_addr := IdleThread ?gs\<rparr>"])
      (simp_all add: kernel_start_def cpu_threads_def queue_new_ok)
qed



section \<open>Properties\<close>



text \<open>
  C3. The timer handler never panics: in every reachable state, on every CPU that has entered
  thread context, for every random choice of a partner, switching and balancing go through (the
  panics "Ready queue is full" cannot happen), the timer is armed for the next interrupt and
  then the interrupt is acknowledged, once, and the new state is reachable again.
\<close>

theorem timer_handler_never_panics:
  assumes "x86_ok X" "reachable X tls_size idle_entry k" "k_tls k gs = Some cpu" "thread_addr cpu \<noteq> NullThread"
    and "lapic_mapped (k_mem k) msr" "base = lapic_phys_addr msr + HHDM_OFFSET (k_mem k)"
  shows "\<exists>k'. timer_handler X msr tsc k gs = Inr k' \<and> reachable X tls_size idle_entry k' \<and>
    k_mmio k' = k_mmio k @ [(base + 0x380, 0x0fff), (base + 0xB0, 0)]"
  by (rule timer_handler_reach[OF assms, of tsc]) blast

theorem timer_handler_never_panics_witness:
  "\<exists>k k'. reachable x86_doc 4096 0 k \<and> timer_handler x86_doc 0xfee00900 7 k 0xffff800000010000 = Inr k' \<and>
     k_mmio k' = [(0xffff8000fee00380, 0x0fff), (0xffff8000fee000b0, 0)]"
proof (rule small_boot)
  fix k cpu
  assume k: "reachable x86_doc 4096 0 k" "k_tls k 0xffff800000010000 = Some cpu"
    "thread_addr cpu = IdleThread 0xffff800000010000" "k_mem k = small_mem 3" "k_mmio k = []"
  have m: "lapic_mapped (k_mem k) 0xfee00900"
    by (simp add: k(4) small_mem_def lapic_mapped_def lapic_phys_addr_def hhdm_ok_def)
  have n: "thread_addr cpu \<noteq> NullThread" using k(3) by simp
  from timer_handler_never_panics[OF x86_ok_doc k(1,2) n m refl, of 7] k show ?thesis
    by (auto simp: small_mem_def lapic_phys_addr_def)
qed

text \<open>
  C16. \<open>spawn_raw\<close> delivers a runnable thread: in a reachable state whose thread counter has not
  run out, it panics only if no four contiguous frames are free; it returns \<open>None\<close> only if all
  256 slots are taken; otherwise the thread stands last in the CPU's queue, under a fresh
  identifier, and whichever CPU first runs it starts at the entry point with the argument in
  \<open>rdi\<close>, the whole aligned stack free and interrupts enabled.
\<close>

theorem spawn_raw_runs_entry:
  assumes "x86_ok X" "reachable X tls_size idle_entry k" "k_tls k gs = Some cpu" "unat (k_next_id k) < 2 ^ 64 - 1"
    and "spawn_raw X k gs entry arg \<noteq> Inl (ExpectFailed ''Out of memory'')"
    and "None \<in> set (k_table k)"
  shows "\<exists>k' i t cpu'. spawn_raw X k gs entry arg = Inr (Some (k_next_id k), k') \<and>
    reachable X tls_size idle_entry k' \<and> k_table k' ! i = Some t \<and> th_id t = k_next_id k \<and>
    (\<forall>u. Some u \<in> set (k_table k) \<longrightarrow> th_id u \<noteq> th_id t) \<and>
    k_tls k' gs = Some cpu' \<and> cpu_threads cpu' = cpu_threads cpu @ [TableThread i] \<and>
    get_top_address (kernel_stack t) AND 0xf = 0 \<and>
    (\<forall>m g c taddr. k_ram (m_kernel m) = k_ram k' \<and> k_table (m_kernel m) = k_table k' \<and>
       k_tls (m_kernel m) g = Some c \<and> thread_addr c = TableThread i \<longrightarrow>
       (\<exists>m'. run taddr g restore_asm m = Inr m' \<and> m_kernel m' = m_kernel m \<and>
          m_regs m' = start_regs X entry arg (get_top_address (kernel_stack t))))"
proof -
  note ok = reachable_sched_ok[OF assms(2,1)]
  from assms(1) ok assms(3,4) show ?thesis
  proof (cases rule: spawn_raw_ok[where entry = entry and arg = arg])
    case oom
    then show ?thesis using assms(5) by simp
  next
    case (full k')
    then show ?thesis using assms(6) by simp
  next
    case new: (ok k' i t cpu')
    have "reachable X tls_size idle_entry k'"
      using reachable.step[OF assms(2) sched_step.spawn[OF _ assms(4) new(1)]] assms(3) by simp
    moreover have i: "i < length (k_table k')" "k_table k' ! i = Some t" using new(3,5) by simp_all
    moreover have "\<exists>m'. run taddr g restore_asm m = Inr m' \<and> m_kernel m' = m_kernel m \<and>
        m_regs m' = start_regs X entry arg (get_top_address (kernel_stack t))"
      if "k_ram (m_kernel m) = k_ram k'" "k_table (m_kernel m) = k_table k'" "k_tls (m_kernel m) g = Some c"
        "thread_addr c = TableThread i" for m g c taddr
      using restore_run[of m g c t "start_regs X entry arg (get_top_address (kernel_stack t))" taddr] that i new(9)
      by (auto simp: deref_table)
    ultimately show ?thesis
      using new(1,6,7,8,10) ids_fresh[OF ok] by (intro exI[of _ k'] exI[of _ i] exI[of _ t] exI[of _ cpu']) simp
  qed
qed

theorem spawn_raw_runs_entry_witness:
  "\<exists>k k' i t. spawn_raw x86_doc k 0xffff800000010000 0x400000 42 = Inr (Some 1, k') \<and>
     k_table k' ! i = Some t \<and> th_id t = 1"
proof (rule small_boot)
  fix k cpu
  assume k: "reachable x86_doc 4096 0 k" "k_tls k 0xffff800000010000 = Some cpu" "k_mem k = small_mem 3"
    "k_next_id k = 1" "k_table k = thread_table_new"
  have n: "unat (k_next_id k) < 2 ^ 64 - 1" and f: "None \<in> set (k_table k)"
    by (simp_all add: k thread_table_new_def)
  from x86_ok_doc reachable_sched_ok[OF k(1) x86_ok_doc] k(2) n
  have "spawn_raw x86_doc k 0xffff800000010000 0x400000 42 \<noteq> Inl (ExpectFailed ''Out of memory'')"
    by (cases rule: spawn_raw_ok[where entry = "0x400000" and arg = 42]) (simp_all add: k(3) small_stacks)
  from spawn_raw_runs_entry[OF x86_ok_doc k(1,2) n this f] k(4) show ?thesis by auto
qed

end
