(* ===== verification/Closure.thy ===== *)
theory Closure
  imports Sched_Inv
begin

text \<open>
  Spawning a closure (src/src/sched/thread.rs, \<open>Thread::spawn\<close> and \<open>thread_trampoline\<close>): where the
  captured data of the closure is stored and what the new thread reads.
\<close>

section \<open>The page and the stack\<close>

text \<open>Two frames at different 4096-byte multiples do not overlap.\<close>

lemma page_apart:
  fixes a s :: nat
  assumes "a mod 4096 = 0" "s mod 4096 = 0" "a \<notin> (\<lambda>i. s + 4096 * i) ` {..<n}"
  shows "a + 4096 \<le> s \<or> s + 4096 * n \<le> a"
proof (rule ccontr)
  assume overlap: "\<not> ?thesis"
  obtain q r where q: "a = 4096 * q" "s = 4096 * r" using assms(1,2) by (metis mod_0_imp_dvd dvd_def)
  then have "r \<le> q" "q < r + n" using overlap by auto
  then have "a = s + 4096 * (q - r)" "q - r < n" using q by auto
  then show False using assms(3) by blast
qed

text \<open>The words of the register frame at the top of a new stack lie outside every other page.\<close>

lemma frame_outside_page:
  assumes X: "x86_ok X" and m: "mem_ok m" and st: "stack_new X m 4 = Inr (stk, m')"
    and a: "a mod 4096 = 0" "a \<notin> mem_free m"
    and b: "a + unat (HHDM_OFFSET m) \<le> unat b" "unat b < a + unat (HHDM_OFFSET m) + 4096"
  shows "write_words ram (get_top_address stk - size_of_regs) (regs_words r) b = ram b"
proof (rule write_words_other)
  have four: "unat (4 :: usize) = 4" "unat (4 :: usize) < 2 ^ 40" by simp_all
  from X m four(2) obtain fr where fr: "fr_count fr = 4" "frames_of fr \<subseteq> mem_free m" "unat (fr_start fr) mod 4096 = 0"
      "unat (st_base stk) = unat (fr_start fr) + unat (HHDM_OFFSET m)"
      "unat (get_top_address stk) = unat (st_base stk) + 4096 * 4"
    by (cases rule: stack_new_cases) (use st four(1) in auto)
  have "a \<notin> frames_of fr" using fr(2) a(2) by blast
  then have apart: "a + 4096 \<le> unat (fr_start fr) \<or> unat (fr_start fr) + 4096 * 4 \<le> a"
    using page_apart[OF a(1) fr(3), of 4] fr(1) by (simp add: frames_of_def)
  fix i assume "i < length (regs_words r)"
  then have i: "i < 20" by simp
  have top: "unat (get_top_address stk - size_of_regs) = unat (get_top_address stk) - 160"
    using fr(5) by (simp add: size_of_regs_def word_nat)
  have "unat (8 * word_of_nat i :: u64) = 8 * i" using i by (simp add: word_nat)
  then have "unat (get_top_address stk - size_of_regs + 8 * word_of_nat i) = unat (get_top_address stk) - 160 + 8 * i"
    using top i u64_bound[of "get_top_address stk"] fr(5) by (simp add: unat_add_u64)
  then show "b \<noteq> get_top_address stk - size_of_regs + 8 * word_of_nat i"
    using apart b fr(4,5) i by auto
qed

section \<open>What the page holds\<close>

lemma read_words_eqI: "(\<And>i. i < length ws \<Longrightarrow> m (a + 8 * word_of_nat i) = ws ! i) \<Longrightarrow> read_words m a (length ws) = ws"
  by (intro nth_equalityI) (simp_all add: read_words_def)

lemma page_offset:
  assumes "unat (page :: u64) + 4096 < 2 ^ 64" "n < 4096"
  shows "unat (page + word_of_nat n) = unat page + n"
  using assms by (simp add: word_nat)

lemma page_word_addr: "page + 64 + 8 * word_of_nat i = (page :: u64) + word_of_nat (64 + 8 * i)"
  by simp

text \<open>The page after \<open>spawn\<close> wrote it: the fat pointer at its start, the closure 64 bytes in.\<close>

lemma closure_page:
  assumes page: "unat (page :: u64) + 4096 < 2 ^ 64" and f: "8 * length f < 4096 - 64"
    and ram: "ram = write_words (write_words ram0 (page + 64) f) page [page + 64, vtable]"
  shows "ram page = page + 64" "ram (page + 8) = vtable" "read_words ram (page + 64) (length f) = f"
proof -
  have two: "ram = (write_words ram0 (page + 64) f)(page := page + 64, page + 8 := vtable)" by (simp add: ram)
  show "ram page = page + 64" "ram (page + 8) = vtable" by (simp_all add: two)
  show "read_words ram (page + 64) (length f) = f"
  proof (rule read_words_eqI)
    fix i assume i: "i < length f"
    let ?b = "page + 64 + 8 * word_of_nat i"
    have u: "unat ?b = unat page + (64 + 8 * i)" unfolding page_word_addr
      by (rule page_offset[OF page]) (use i f in simp)
    have e: "unat (page + 8) = unat page + 8" using page_offset[OF page, of 8] by simp
    have "unat ?b \<noteq> unat page" "unat ?b \<noteq> unat (page + 8)" unfolding u e by simp_all
    then have "?b \<noteq> page" "?b \<noteq> page + 8" by metis+
    then have "ram ?b = write_words ram0 (page + 64) f ?b" by (simp add: two)
    also have "\<dots> = read_words (write_words ram0 (page + 64) f) (page + 64) (length f) ! i"
      using i by (simp add: read_words_def)
    also have "\<dots> = f ! i" using f by (simp add: read_write_words)
    finally show "ram ?b = f ! i" .
  qed
qed

lemma spawn_page:
  assumes X: "x86_ok X" and inv: "sched_ok k" and cpu: "k_tls k gs = Some cpu"
    and n: "unat (k_next_id k) < 2 ^ 64 - 1"
    and sp: "spawn X trampoline vtable k gs f = Inr (Some tid, k')"
  obtains page i t where "i < length (k_table k')" "k_table k' ! i = Some t" "th_id t = tid" "8 * length f < 4096 - 64"
    "read_words (k_ram k') (th_regs t) 20 = regs_words (start_regs X trampoline page (get_top_address (kernel_stack t)))"
    "k_ram k' page = page + 64" "k_ram k' (page + 8) = vtable" "read_words (k_ram k') (page + 64) (length f) = f"
proof -
  have m: "mem_ok (k_mem k)" using inv by (simp add: sched_ok_def pages_ok_def)
  have f: "8 * length f < 4096 - 64" using sp by (auto simp: spawn_def res_iff)
  from X m show thesis
  proof (cases rule: alloc_page_cases)
    case (oom e)
    then show thesis using sp by (simp add: spawn_def res_iff)
  next
    case page: (ok a m1)
    let ?page = "a + HHDM_OFFSET (k_mem k)"
    define ram where "ram = write_words (write_words (k_ram k) (?page + 64) f) ?page [?page + 64, vtable]"
    let ?k = "k\<lparr>k_mem := m1, k_ram := ram\<rparr>"
    have sr: "spawn_raw X ?k gs trampoline ?page = Inr (Some tid, k')"
      using sp page f by (simp add: spawn_def ram_def Let_def)
    have "sched_ok (k\<lparr>k_mem := m1\<rparr>)" using sched_ok_alloc[OF inv page(2,3)] page(6) by blast
    then have ok: "sched_ok ?k" using sched_ok_cong[of ?k "k\<lparr>k_mem := m1\<rparr>"] by simp
    have cpu': "k_tls ?k gs = Some cpu" and n': "unat (k_next_id ?k) < 2 ^ 64 - 1" and m': "mem_ok (k_mem ?k)"
      using cpu n page(2) by simp_all
    have q: "queue_ok (ready_queue cpu)" using sched_ok_cpu[OF inv cpu] by (simp add: cpu_ok_def)
    have room: "None \<in> set (k_table ?k) \<longrightarrow> length (queue_content (ready_queue cpu)) < 256"
      using ready_queue_room[OF ok cpu'] by blast
    from X m' cpu' q ids_fresh[OF ok] room show thesis
    proof (cases rule: spawn_raw_cases[where entry = trampoline and arg = ?page])
      case (ok stk m2 i q')
      let ?t = "\<lparr>th_regs = get_top_address stk - size_of_regs, th_id = k_next_id ?k, kernel_stack = stk,
        th_sched = \<lparr>ss_cpu = Some (tls_cpu_id cpu), ss_state = Ready\<rparr>\<rparr>"
      let ?ws = "regs_words (start_regs X trampoline ?page (get_top_address stk))"
      have k': "k_ram k' = write_words ram (get_top_address stk - size_of_regs) ?ws" "tid = k_next_id ?k"
          "k_table k' = (k_table k)[i := Some ?t]"
        using ok(6) sr by auto
      have pg: "unat ?page + 4096 < 2 ^ 64" using page(8,10) by simp
      have keep: "k_ram k' b = ram b" if "unat ?page \<le> unat b" "unat b < unat ?page + 4096" for b
        unfolding k'(1) by (rule frame_outside_page[OF X m' ok(1), of "unat a"]) (use page that in auto)
      note cp = closure_page[OF pg f ram_def]
      have eight: "unat (?page + 8) = unat ?page + 8" using page_offset[OF pg, of 8] by simp
      have "k_ram k' (?page + 64 + 8 * word_of_nat i) = ram (?page + 64 + 8 * word_of_nat i)" if "i < length f" for i
        unfolding page_word_addr by (rule keep; subst page_offset[OF pg]) (use that f in simp_all)
      then have "read_words (k_ram k') (?page + 64) (length f) = read_words ram (?page + 64) (length f)"
        by (intro nth_equalityI) (simp_all add: read_words_def)
      then have "read_words (k_ram k') (?page + 64) (length f) = f" using cp(3) by simp
      moreover have "k_ram k' ?page = ?page + 64" "k_ram k' (?page + 8) = vtable"
        using keep[of ?page] keep[of "?page + 8"] cp(1,2) eight by auto
      moreover have "read_words (k_ram k') (get_top_address stk - size_of_regs) 20 = ?ws"
        using read_write_words[of ?ws ram "get_top_address stk - size_of_regs"] k'(1) by simp
      ultimately show thesis
        by (intro that[of i ?t ?page]) (use ok(2) k'(2,3) f in simp_all)
    qed (use sr in simp_all)
  qed
qed

section \<open>Properties\<close>

text \<open>
  C31. Where a spawned closure ends up. After \<open>spawn\<close> of a closure with captured words \<open>f\<close> the
  new thread starts in the trampoline with a page as its argument; the page holds the right
  vtable, and the captured words stand intact 64 bytes into it. But the trampoline hands the
  start of the page to the gasket: a closure that captures anything is read from there, so its
  first captured word is the address of the closure instead of the word that was captured.
  Only closures without captured data run as written.
\<close>

theorem spawned_closure_misread:
  assumes "x86_ok X" "reachable X tls_size idle_entry k" "k_tls k gs = Some cpu" "unat (k_next_id k) < 2 ^ 64 - 1"
    and "spawn X trampoline vtable k gs f = Inr (Some tid, k')"
  shows "\<exists>page i t. k_table k' ! i = Some t \<and> th_id t = tid \<and>
    read_words (k_ram k') (th_regs t) 20 = regs_words (start_regs X trampoline page (get_top_address (kernel_stack t))) \<and>
    read_words (k_ram k') (page + 64) (length f) = f \<and>
    fst (thread_trampoline (k_ram k') page (length f)) = vtable \<and>
    (f = [] \<longrightarrow> snd (thread_trampoline (k_ram k') page (length f)) = f) \<and>
    (f \<noteq> [] \<longrightarrow> hd (snd (thread_trampoline (k_ram k') page (length f))) = page + 64)"
proof -
  obtain page i t where p: "k_table k' ! i = Some t" "th_id t = tid" "8 * length f < 4096 - 64"
    "read_words (k_ram k') (th_regs t) 20 = regs_words (start_regs X trampoline page (get_top_address (kernel_stack t)))"
    "k_ram k' page = page + 64" "k_ram k' (page + 8) = vtable" "read_words (k_ram k') (page + 64) (length f) = f"
    by (rule spawn_page[OF assms(1) reachable_sched_ok[OF assms(2,1)] assms(3-5)])
  have "hd (read_words (k_ram k') page (length f)) = page + 64" if "f \<noteq> []"
    using that p(5) by (simp add: read_words_def hd_map)
  then show ?thesis
    using p by (intro exI[of _ page] exI[of _ i] exI[of _ t]) (simp add: thread_trampoline_def read_words_def)
qed

theorem spawned_closure_misread_witness:
  "\<exists>(k' :: kernel) page. fst (thread_trampoline (k_ram k') page 1) = 0x500000 \<and> read_words (k_ram k') (page + 64) 1 = [77] \<and>
     hd (snd (thread_trampoline (k_ram k') page 1)) = page + 64"
proof (rule small_boot)
  fix k cpu
  assume k: "reachable x86_doc 4096 0 k" "k_tls k 0xffff800000010000 = Some cpu" "k_mem k = small_mem 3"
    "k_next_id k = 1" "k_table k = thread_table_new"
  let ?gs = "0xffff800000010000 :: u64" and ?page = "0xffff800000012000 :: u64"
  have al: "alloc_frame x86_doc (small_mem 3) = Inr (Inr (Frame 0x12000), small_mem 7)"
      "alloc_frames x86_doc (small_mem 7) 4 = Inr (Inr \<lparr>fr_start = 0x13000, fr_count = 4\<rparr>, small_mem 0x7f)"
    by (simp_all add: small_mem_def alloc_frame_def alloc_frames_def bfa_eval frame_new_def alloc_one_def start_addr_def)
  have vp: "phys_to_virt x86_doc (small_mem 7) 0x12000 = Inr ?page" "phys_to_virt x86_doc (small_mem 0x7f) 0x13000 = Inr (?page + 0x1000)"
    by (simp_all add: small_mem_def phys_to_virt_def x86_doc_def canonical_def)
  have st: "stack_new x86_doc (small_mem 7) 4 = Inr (\<lparr>st_base = ?page + 0x1000, st_size = 4 * 4096\<rparr>, small_mem 0x7f)"
    by (simp add: stack_new_def al vp start_addr_def)
  let ?k = "k\<lparr>k_mem := small_mem 7, k_ram := write_words (write_words (k_ram k) (?page + 64) [77]) ?page [?page + 64, 0x500000]\<rparr>"
  have sp: "spawn x86_doc 0x400000 0x500000 k ?gs [77] = spawn_raw x86_doc ?k ?gs 0x400000 ?page"
    by (simp add: spawn_def k(3) al vp Let_def)
  have n: "unat (k_next_id k) < 2 ^ 64 - 1" by (simp add: k(4))
  have "reachable x86_doc 4096 0 (k\<lparr>k_mem := small_mem 7\<rparr>)"
    by (rule reachable.step[OF k(1) sched_step.alloc[of _ _ 1]])
      (simp add: k(3), simp add: small_mem_def alloc_frames_def bfa_eval)
  then have "reachable x86_doc 4096 0 ?k" using reachable.step[OF _ sched_step.memory] by fastforce
  from x86_ok_doc reachable_sched_ok[OF this x86_ok_doc] obtain k' where
    "spawn x86_doc 0x400000 0x500000 k ?gs [77] = Inr (Some 1, k')"
    by (cases rule: spawn_raw_ok[where gs = ?gs and cpu = cpu and entry = "0x400000" and arg = ?page])
      (use k st n sp in \<open>auto simp: thread_table_new_def\<close>)
  from spawned_closure_misread[OF x86_ok_doc k(1,2) n this] show ?thesis by auto
qed

end
