(* ===== verification/Vmm.thy ===== *)
theory Vmm
  imports Sched_Inv
begin

text \<open>
  Paging (src/src/memory/vmm.rs): \<open>map_page\<close>, which enters one 4 KiB page into the page tables
  that \<open>cr3\<close> points at. The tables are words of RAM that the kernel reaches through the direct
  map. The processor's own walk of the tables (\<open>walk\<close>), with its large pages, is what the
  mapping is judged by.
\<close>

section \<open>Mapping a page\<close>

text \<open>The block that the code repeats for two levels: an entry that is not present gets a new frame.\<close>

definition ensure_table :: "x86_crate \<Rightarrow> u64 \<Rightarrow> kernel \<Rightarrow> kernel res" where
  "ensure_table X entry k =
     (if \<not> pte_present X (k_ram k entry) then
        bind_res (alloc_frame X (k_mem k)) (\<lambda>(r, m).
          case r of
            Inl _ \<Rightarrow> Inl UnwrapFailed
          | Inr new_page \<Rightarrow>
              bind_res (expect_some AssertFailed (pte_set_addr X (frame_addr new_page) 3)) (\<lambda>e.
              Inr (k\<lparr>k_mem := m, k_ram := (k_ram k)(entry := e)\<rparr>)))
      else Inr k)"

definition map_page :: "x86_crate \<Rightarrow> u64 \<Rightarrow> u64 \<Rightarrow> u64 \<Rightarrow> kernel \<Rightarrow> kernel res" where
  "map_page X cr3 phys virt k =
     bind_res (phys_to_virt X (k_mem k) cr3) (\<lambda>pml4.
     let pml4_entry = pml4 + 8 * (drop_bit 39 virt AND 0x1ff) in
     bind_res (phys_to_virt X (k_mem k) (pte_addr X (k_ram k pml4_entry))) (\<lambda>pdpt.
     let pdpt_entry = pdpt + 8 * (drop_bit 30 virt AND 0x1ff) in
     bind_res (ensure_table X pdpt_entry k) (\<lambda>k1.
     bind_res (phys_to_virt X (k_mem k1) (pte_addr X (k_ram k1 pdpt_entry))) (\<lambda>pd.
     let pd_entry = pd + 8 * (drop_bit 21 virt AND 0x1ff) in
     bind_res (ensure_table X pd_entry k1) (\<lambda>k2.
     bind_res (phys_to_virt X (k_mem k2) (pte_addr X (k_ram k2 pd_entry))) (\<lambda>pt.
     let pt_entry = pt + 8 * (drop_bit 12 virt AND 0x1ff) in
     bind_res (expect_some AddrInvalid (phys_new X phys)) (\<lambda>p.
     bind_res (expect_some AssertFailed (pte_set_addr X p 3)) (\<lambda>e.
     Inr (k2\<lparr>k_ram := (k_ram k2)(pt_entry := e)\<rparr>)))))))))"

section \<open>The walk of the processor\<close>

definition idx :: "nat \<Rightarrow> u64 \<Rightarrow> u64" where
  "idx l v = drop_bit (12 + 9 * l) v AND 0x1ff"

definition entry_at :: "u64 \<Rightarrow> nat \<Rightarrow> u64 \<Rightarrow> u64 \<Rightarrow> u64" where
  "entry_at off l t v = t + off + 8 * idx l v"

definition large :: "nat \<Rightarrow> u64 \<Rightarrow> bool" where
  "large l e \<longleftrightarrow> (l = 1 \<or> l = 2) \<and> bit e 7"

fun walk :: "ram \<Rightarrow> u64 \<Rightarrow> nat \<Rightarrow> u64 \<Rightarrow> u64 \<Rightarrow> u64 option" where
  "walk ram off 0 page v = Some (page OR (v AND 0xfff))"
| "walk ram off (Suc l) t v =
     (let e = ram (entry_at off l t v) in
      if \<not> bit e 0 then None
      else if large l e then
        Some ((e AND 0x000ffffffffff000 AND NOT (mask (12 + 9 * l))) OR (v AND mask (12 + 9 * l)))
      else walk ram off l (e AND 0x000ffffffffff000) v)"

definition translate :: "kernel \<Rightarrow> u64 \<Rightarrow> u64 \<Rightarrow> u64 option" where
  "translate k cr3 v = walk (k_ram k) (HHDM_OFFSET (k_mem k)) 4 cr3 v"


text \<open>The tables that exist on the way to a page, and that no entry on it maps a large page.\<close>

fun tables :: "ram \<Rightarrow> u64 \<Rightarrow> nat \<Rightarrow> u64 \<Rightarrow> u64 \<Rightarrow> u64 list" where
  "tables ram off 0 t v = []"
| "tables ram off (Suc l) t v =
     (let e = ram (entry_at off l t v) in
      t # (if bit e 0 then tables ram off l (e AND 0x000ffffffffff000) v else []))"

fun no_large :: "ram \<Rightarrow> u64 \<Rightarrow> nat \<Rightarrow> u64 \<Rightarrow> u64 \<Rightarrow> bool" where
  "no_large ram off 0 t v = True"
| "no_large ram off (Suc l) t v =
     (let e = ram (entry_at off l t v) in
      bit e 0 \<longrightarrow> \<not> large l e \<and> no_large ram off l (e AND 0x000ffffffffff000) v)"

definition table_page :: "u64 \<Rightarrow> u64 \<Rightarrow> bool" where
  "table_page off t \<longleftrightarrow> unat t mod 4096 = 0 \<and> unat t < 2 ^ 52 \<and> unat t + unat off + 4096 \<le> 2 ^ 64"

text \<open>The words of a table, and those of the frames that are free.\<close>

definition page_words :: "u64 \<Rightarrow> u64 \<Rightarrow> u64 set" where
  "page_words off t = {t + off + 8 * i | i. unat i < 512}"

definition free_words :: "memory_state \<Rightarrow> u64 set" where
  "free_words m = (\<Union>t \<in> {t. unat t \<in> mem_free m}. page_words (HHDM_OFFSET m) t)"

text \<open>
  The tables on the way from table \<open>t\<close> of level \<open>l\<close> down to a page are sound: they are distinct
  pages in the direct map, none of them is free, and none of their entries maps a large page.
\<close>

definition path_ok :: "kernel \<Rightarrow> nat \<Rightarrow> u64 \<Rightarrow> u64 \<Rightarrow> bool" where
  "path_ok k l t v \<longleftrightarrow>
     (let off = HHDM_OFFSET (k_mem k); ts = tables (k_ram k) off l t v in
      distinct ts \<and> (\<forall>t \<in> set ts. table_page off t \<and> unat t \<notin> mem_free (k_mem k)) \<and> no_large (k_ram k) off l t v)"

text \<open>The free frames are zeroed.\<close>

definition free_zeroed :: "kernel \<Rightarrow> bool" where
  "free_zeroed k \<longleftrightarrow> (\<forall>a \<in> free_words (k_mem k). k_ram k a = 0)"

section \<open>Entries\<close>

lemma unat_idx: "unat (idx l v) < 512"
proof -
  have "idx l v = take_bit 9 (drop_bit (12 + 9 * l) v)" by (simp add: idx_def take_bit_eq_mask mask_eq_exp_minus_1)
  then have "unat (idx l v) = unat (drop_bit (12 + 9 * l) v) mod 512" by (simp add: take_bit_eq_mod unat_mod)
  then show ?thesis by simp
qed

lemma entry_in_page: "entry_at off l t v \<in> page_words off t"
  using unat_idx by (auto simp: entry_at_def page_words_def)

lemma page_words_disjoint:
  assumes "table_page off t" "table_page off u" "t \<noteq> u"
  shows "page_words off t \<inter> page_words off u = {}"
proof -
  have "False" if i: "unat i < 512" "unat j < 512" and eq: "t + off + 8 * i = u + off + 8 * j" for i j :: u64
  proof -
    have "unat (x + off + 8 * n) = unat x + unat off + 8 * unat n" if "unat n < 512" "table_page off x" for x n
      using that by (simp add: word_nat table_page_def)
    from this[OF i(1) assms(1)] this[OF i(2) assms(2)] eq
    have s: "unat t + 8 * unat i = unat u + 8 * unat j" by simp
    have "unat t div 4096 = (unat t + 8 * unat i) div 4096" "unat u div 4096 = (unat u + 8 * unat j) div 4096"
      using assms(1,2) i by (auto simp: table_page_def div_add1_eq[of "unat t"] div_add1_eq[of "unat u"])
    then have "unat t div 4096 = unat u div 4096" using s by simp
    then have "unat t = unat u" using assms(1,2) by (metis table_page_def add.right_neutral div_mult_mod_eq)
    then show False using assms(3) by (simp add: word_unat_eq_iff)
  qed
  then show ?thesis by (auto simp: page_words_def)
qed

lemma free_page:
  assumes "mem_ok m" "unat t \<in> mem_free m"
  shows "table_page (HHDM_OFFSET m) t"
proof -
  obtain r i where r: "r \<in> set (bfa_regions (FRAME_ALLOCATOR m))" and i: "i < region_size r" "unat t = frame_at r i"
    using assms(2) by (auto simp: mem_free_def bfa_free_def region_free_def)
  have ok: "region_ok r" "unat (mr_end r) + unat (HHDM_OFFSET m) < 2 ^ 64"
    using assms(1) r by (auto simp: mem_ok_def bfa_ok_def list_all_iff)
  then have "unat t + 4096 \<le> unat (mr_end r)" using i by (simp add: region_ok_def frame_at_def region_size_def)
  then show ?thesis using ok i by (auto simp: table_page_def region_ok_def frame_at_def)
qed



lemma free_words_page:
  "mem_ok m \<Longrightarrow> table_page (HHDM_OFFSET m) t \<Longrightarrow> unat t \<notin> mem_free m \<Longrightarrow> page_words (HHDM_OFFSET m) t \<inter> free_words m = {}"
  using page_words_disjoint free_page unfolding free_words_def by fastforce

lemma free_words_mono:
  "mem_free m' \<subseteq> mem_free m \<Longrightarrow> HHDM_OFFSET m' = HHDM_OFFSET m \<Longrightarrow> free_words m' \<subseteq> free_words m"
  by (auto simp: free_words_def)

section \<open>Descending the levels\<close>

text \<open>The part of \<open>map_page\<close> below a table of level \<open>l\<close>, as a recursion over the levels.\<close>

fun map_from :: "x86_crate \<Rightarrow> u64 \<Rightarrow> u64 \<Rightarrow> nat \<Rightarrow> u64 \<Rightarrow> kernel \<Rightarrow> kernel res" where
  "map_from X phys virt 0 t k = Inr k"
| "map_from X phys virt (Suc 0) t k =
     bind_res (phys_to_virt X (k_mem k) t) (\<lambda>pt.
     bind_res (expect_some AddrInvalid (phys_new X phys)) (\<lambda>p.
     bind_res (expect_some AssertFailed (pte_set_addr X p 3)) (\<lambda>e.
     Inr (k\<lparr>k_ram := (k_ram k)(pt + 8 * idx 0 virt := e)\<rparr>))))"
| "map_from X phys virt (Suc (Suc l)) t k =
     bind_res (phys_to_virt X (k_mem k) t) (\<lambda>table.
     bind_res (ensure_table X (table + 8 * idx (Suc l) virt) k) (\<lambda>k1.
     map_from X phys virt (Suc l) (pte_addr X (k_ram k1 (table + 8 * idx (Suc l) virt))) k1))"

lemma map_page_from:
  "map_page X cr3 phys virt k =
     bind_res (phys_to_virt X (k_mem k) cr3) (\<lambda>pml4.
     map_from X phys virt 3 (pte_addr X (k_ram k (pml4 + 8 * idx 3 virt))) k)"
  by (simp add: map_page_def idx_def numeral_3_eq_3 Let_def bind_res_assoc)

lemma ensure_table_cases:
  assumes X: "x86_ok X" and m: "mem_ok (k_mem k)" and card: "1 \<le> card (mem_free (k_mem k))"
  obtains (present) "bit (k_ram k a) 0" "ensure_table X a k = Inr k"
    | (fresh) f m' where "\<not> bit (k_ram k a) 0" "alloc_frame X (k_mem k) = Inr (Inr (Frame f), m')"
      "ensure_table X a k = Inr (k\<lparr>k_mem := m', k_ram := (k_ram k)(a := f OR 3)\<rparr>)"
      "unat f \<in> mem_free (k_mem k)" "mem_free m' = mem_free (k_mem k) - {unat f}" "mem_ok m'"
      "HHDM_OFFSET m' = HHDM_OFFSET (k_mem k)"
proof (cases "bit (k_ram k a) 0")
  case True
  then show thesis using present X by (simp add: ensure_table_def x86_ok_simps)
next
  case False
  from X m show thesis
  proof (cases rule: alloc_page_cases)
    case (oom e)
    then show thesis using card by simp
  next
    case (ok f m')
    have t: "unat f mod 4096 = 0" "unat f < 2 ^ 52" using free_page[OF m ok(5)] by (simp_all add: table_page_def)
    show thesis
      by (rule fresh[of f m']) (use ok False t X in \<open>simp_all add: ensure_table_def x86_ok_simps\<close>)
  qed
qed

text \<open>
  What mapping below a table changes: words of free frames and of the tables on the way, and, if
  the page was not mapped, only entries that were not present.
\<close>

definition changes_ok :: "kernel \<Rightarrow> nat \<Rightarrow> u64 \<Rightarrow> u64 \<Rightarrow> ram \<Rightarrow> bool" where
  "changes_ok k l t v ram' \<longleftrightarrow>
     (let off = HHDM_OFFSET (k_mem k) in
      \<forall>a. ram' a \<noteq> k_ram k a \<longrightarrow>
        (a \<in> free_words (k_mem k) \<or> (\<exists>u \<in> set (tables (k_ram k) off l t v). a \<in> page_words off u)) \<and>
        (walk (k_ram k) off l t v = None \<longrightarrow> a \<in> free_words (k_mem k) \<or> \<not> bit (k_ram k a) 0))"

definition mapped_from :: "kernel \<Rightarrow> u64 \<Rightarrow> u64 \<Rightarrow> nat \<Rightarrow> u64 \<Rightarrow> memory_state \<Rightarrow> ram \<Rightarrow> bool" where
  "mapped_from k phys v l t m' ram' \<longleftrightarrow>
     walk ram' (HHDM_OFFSET (k_mem k)) l t v = Some (phys OR (v AND 0xfff)) \<and> mem_ok m' \<and>
     HHDM_OFFSET m' = HHDM_OFFSET (k_mem k) \<and> mem_free m' \<subseteq> mem_free (k_mem k) \<and>
     card (mem_free (k_mem k)) \<le> card (mem_free m') + (l - 1) \<and> changes_ok k l t v ram'"

lemma path_okD:
  assumes "path_ok k (Suc l) t v"
  shows "table_page (HHDM_OFFSET (k_mem k)) t" "unat t \<notin> mem_free (k_mem k)"
    "bit (k_ram k (entry_at (HHDM_OFFSET (k_mem k)) l t v)) 0 \<Longrightarrow>
      \<not> large l (k_ram k (entry_at (HHDM_OFFSET (k_mem k)) l t v)) \<and>
      path_ok k l (k_ram k (entry_at (HHDM_OFFSET (k_mem k)) l t v) AND 0x000ffffffffff000) v \<and>
      t \<notin> set (tables (k_ram k) (HHDM_OFFSET (k_mem k)) l (k_ram k (entry_at (HHDM_OFFSET (k_mem k)) l t v) AND 0x000ffffffffff000) v)"
  using assms by (auto simp: path_ok_def Let_def)

lemma entry_virt:
  assumes X: "x86_ok X" and m: "mem_ok m" and t: "table_page (HHDM_OFFSET m) t"
  shows "phys_to_virt X m t = Inr (t + HHDM_OFFSET m)"
    "t + HHDM_OFFSET m + 8 * idx l v = entry_at (HHDM_OFFSET m) l t v"
  using phys_to_virt_hhdm(1)[OF X, of m t] m t by (simp_all add: mem_ok_def table_page_def entry_at_def)

text \<open>The entry of a table is not among the words that are changed below it.\<close>

lemma entry_kept:
  assumes m: "mem_ok (k_mem k)" and t: "table_page (HHDM_OFFSET (k_mem k)) t" "unat t \<notin> mem_free (k_mem k)"
    and c: "changes_ok k l u v ram'" and a: "a \<in> page_words (HHDM_OFFSET (k_mem k)) t"
    and tabs: "t \<notin> set (tables (k_ram k) (HHDM_OFFSET (k_mem k)) l u v)"
      "\<forall>x \<in> set (tables (k_ram k) (HHDM_OFFSET (k_mem k)) l u v). table_page (HHDM_OFFSET (k_mem k)) x"
  shows "ram' a = k_ram k a"
proof (rule ccontr)
  assume "ram' a \<noteq> k_ram k a"
  then have "a \<in> free_words (k_mem k) \<or> (\<exists>x \<in> set (tables (k_ram k) (HHDM_OFFSET (k_mem k)) l u v). a \<in> page_words (HHDM_OFFSET (k_mem k)) x)"
    using c by (simp add: changes_ok_def Let_def)
  moreover have "a \<notin> free_words (k_mem k)" using free_words_page[OF m t] a by blast
  moreover have "a \<notin> page_words (HHDM_OFFSET (k_mem k)) x" if "x \<in> set (tables (k_ram k) (HHDM_OFFSET (k_mem k)) l u v)" for x
    using page_words_disjoint[OF t(1)] tabs that a by blast
  ultimately show False by blast
qed

lemma map_leaf:
  assumes X: "x86_ok X" and phys: "unat phys mod 4096 = 0" "unat phys < 2 ^ 52"
    and m: "mem_ok (k_mem k)" and p: "path_ok k (Suc 0) t v"
  shows "\<exists>ram'. map_from X phys v (Suc 0) t k = Inr (k\<lparr>k_mem := k_mem k, k_ram := ram'\<rparr>) \<and>
    mapped_from k phys v (Suc 0) t (k_mem k) ram'"
proof -
  let ?off = "HHDM_OFFSET (k_mem k)"
  let ?a = "entry_at ?off 0 t v"
  let ?ram = "(k_ram k)(?a := phys OR 3)"
  note t = path_okD(1,2)[OF p]
  have run: "map_from X phys v (Suc 0) t k = Inr (k\<lparr>k_mem := k_mem k, k_ram := ?ram\<rparr>)"
    using entry_virt(1)[OF X m t(1)] entry_virt(2)[OF X m t(1), of 0 v] X phys by (simp add: x86_ok_simps)
  have "walk ?ram ?off (Suc 0) t v = Some (phys OR (v AND 0xfff))"
    using pte_bits[OF phys] by (simp add: large_def Let_def)
  moreover have "changes_ok k (Suc 0) t v ?ram"
    using entry_in_page[of ?off 0 t v] by (auto simp: changes_ok_def Let_def large_def split: if_splits)
  ultimately show ?thesis using run m by (auto simp: mapped_from_def)
qed

text \<open>A present entry: the work below its table does not touch it.\<close>

lemma mapped_present:
  assumes m: "mem_ok (k_mem k)" and p: "path_ok k (Suc l) t v"
    and e: "bit (k_ram k (entry_at (HHDM_OFFSET (k_mem k)) l t v)) 0"
    and sub: "mapped_from k phys v l (k_ram k (entry_at (HHDM_OFFSET (k_mem k)) l t v) AND 0x000ffffffffff000) m' ram'"
  shows "mapped_from k phys v (Suc l) t m' ram'"
proof -
  let ?off = "HHDM_OFFSET (k_mem k)"
  let ?a = "entry_at ?off l t v"
  let ?u = "k_ram k ?a AND 0x000ffffffffff000"
  note t = path_okD(1,2)[OF p]
  have u: "\<not> large l (k_ram k ?a)" "path_ok k l ?u v" "t \<notin> set (tables (k_ram k) ?off l ?u v)"
    using path_okD(3)[OF p e] by blast+
  have c: "changes_ok k l ?u v ram'" using sub by (simp add: mapped_from_def)
  have keep: "ram' ?a = k_ram k ?a"
    by (rule entry_kept[OF m t c entry_in_page u(3)]) (use u(2) in \<open>simp add: path_ok_def Let_def\<close>)
  have "changes_ok k (Suc l) t v ram'" using c e u(1) by (auto simp: changes_ok_def Let_def)
  moreover have "card (mem_free (k_mem k)) \<le> card (mem_free m') + (Suc l - 1)"
    using sub unfolding mapped_from_def by linarith
  ultimately show ?thesis using sub keep e u(1) by (simp add: mapped_from_def Let_def)
qed

text \<open>A new table: a free, zeroed frame, which has no entries yet.\<close>

lemma fresh_path:
  assumes m: "mem_ok (k_mem k)" and z: "free_zeroed k" and t: "table_page (HHDM_OFFSET (k_mem k)) t" "unat t \<notin> mem_free (k_mem k)"
    and f: "unat f \<in> mem_free (k_mem k)" "mem_free m' = mem_free (k_mem k) - {unat f}"
      "HHDM_OFFSET m' = HHDM_OFFSET (k_mem k)" and a: "a \<in> page_words (HHDM_OFFSET (k_mem k)) t"
    and k1: "k1 = k\<lparr>k_mem := m', k_ram := (k_ram k)(a := e)\<rparr>"
  shows "path_ok k1 (Suc l) f v" "free_zeroed k1" "tables (k_ram k1) (HHDM_OFFSET (k_mem k)) (Suc l) f v = [f]"
    "walk (k_ram k1) (HHDM_OFFSET (k_mem k)) (Suc l) f v = None"
proof -
  let ?off = "HHDM_OFFSET (k_mem k)"
  have off: "a \<notin> free_words (k_mem k)" using free_words_page[OF m t] a by blast
  have "entry_at ?off l f v \<in> free_words (k_mem k)" using f(1) entry_in_page[of ?off l f v] by (auto simp: free_words_def)
  then have "k_ram k1 (entry_at ?off l f v) = 0" using z off by (auto simp: free_zeroed_def k1)
  then show tab: "tables (k_ram k1) ?off (Suc l) f v = [f]" "walk (k_ram k1) ?off (Suc l) f v = None"
    and "path_ok k1 (Suc l) f v"
    using free_page[OF m f(1)] f by (simp_all add: path_ok_def k1 Let_def)
  have "free_words m' \<subseteq> free_words (k_mem k)" by (rule free_words_mono) (use f in auto)
  then show "free_zeroed k1" using z off by (auto simp: free_zeroed_def k1)
qed

lemma mapped_fresh:
  assumes m: "mem_ok (k_mem k)" and z: "free_zeroed k" and p: "path_ok k (Suc (Suc l)) t v"
    and e: "\<not> bit (k_ram k (entry_at (HHDM_OFFSET (k_mem k)) (Suc l) t v)) 0"
    and f: "unat f \<in> mem_free (k_mem k)" "mem_free m1 = mem_free (k_mem k) - {unat f}"
      "HHDM_OFFSET m1 = HHDM_OFFSET (k_mem k)" "mem_ok m1"
    and k1: "k1 = k\<lparr>k_mem := m1, k_ram := (k_ram k)(entry_at (HHDM_OFFSET (k_mem k)) (Suc l) t v := f OR 3)\<rparr>"
    and sub: "mapped_from k1 phys v (Suc l) f m' ram'"
  shows "mapped_from k phys v (Suc (Suc l)) t m' ram'"
proof -
  let ?off = "HHDM_OFFSET (k_mem k)"
  let ?a = "entry_at ?off (Suc l) t v"
  note t = path_okD(1,2)[OF p]
  note fp = fresh_path[OF m z t f(1-3) entry_in_page k1]
  have fo: "table_page ?off f" using free_page[OF m f(1)] .
  have c: "changes_ok k1 (Suc l) f v ram'" using sub by (simp add: mapped_from_def)
  have kk: "k_mem k1 = m1" "HHDM_OFFSET (k_mem k1) = ?off" using k1 f(3) by simp_all
  have keep: "ram' ?a = k_ram k1 ?a"
    by (rule entry_kept[OF _ _ _ c, where t = t]) (use f t fp(3) fo entry_in_page[of ?off "Suc l" t v] in \<open>auto simp: kk\<close>)
  have fr: "free_words m1 \<subseteq> free_words (k_mem k)" by (rule free_words_mono) (use f in auto)
  have pf: "page_words ?off f \<subseteq> free_words (k_mem k)" using f(1) by (auto simp: free_words_def)
  have ch: "b = ?a \<or> b \<in> free_words (k_mem k)" if "ram' b \<noteq> k_ram k b" for b
  proof (cases "b = ?a")
    case False
    then have "ram' b \<noteq> k_ram k1 b" using that k1 by simp
    then have "b \<in> free_words m1 \<or> b \<in> page_words ?off f"
      using c by (auto simp: changes_ok_def kk(1) f(3) fp(3) Let_def simp del: tables.simps walk.simps)
    then show ?thesis using fr pf by blast
  qed simp
  have "changes_ok k (Suc (Suc l)) t v ram'"
    unfolding changes_ok_def Let_def using ch e entry_in_page[of ?off "Suc l" t v] by auto
  moreover have "walk ram' ?off (Suc (Suc l)) t v = walk ram' ?off (Suc l) f v"
    using keep pte_bits[of f] fo k1 by (subst walk.simps(2)) (simp add: table_page_def large_def)
  moreover have "card (mem_free (k_mem k)) \<le> card (mem_free m1) + 1"
    using diff_card_le_card_Diff[of "{unat f}" "mem_free (k_mem k)"] f(2) by simp
  ultimately show ?thesis using sub f by (auto simp: mapped_from_def kk simp del: walk.simps)
qed

lemma map_from_step:
  assumes "x86_ok X" "mem_ok (k_mem k)" "table_page (HHDM_OFFSET (k_mem k)) t"
  shows "map_from X phys v (Suc (Suc l)) t k =
    bind_res (ensure_table X (entry_at (HHDM_OFFSET (k_mem k)) (Suc l) t v) k) (\<lambda>k1.
    map_from X phys v (Suc l) (k_ram k1 (entry_at (HHDM_OFFSET (k_mem k)) (Suc l) t v) AND 0x000ffffffffff000) k1)"
  using entry_virt(1)[OF assms] entry_virt(2)[OF assms, of "Suc l" v] by (simp add: x86_ok_simps[OF assms(1)])

lemma map_page_step:
  assumes "x86_ok X" "mem_ok (k_mem k)" "table_page (HHDM_OFFSET (k_mem k)) cr3"
  shows "map_page X cr3 phys v k =
    map_from X phys v 3 (k_ram k (entry_at (HHDM_OFFSET (k_mem k)) 3 cr3 v) AND 0x000ffffffffff000) k"
  using entry_virt(1)[OF assms] entry_virt(2)[OF assms, of 3 v] by (simp add: map_page_from x86_ok_simps[OF assms(1)])

lemma map_from_ok:
  assumes X: "x86_ok X" and phys: "unat phys mod 4096 = 0" "unat phys < 2 ^ 52"
    and "mem_ok (k_mem k)" "path_ok k (Suc l) t v" "free_zeroed k" "l \<le> card (mem_free (k_mem k))"
  shows "\<exists>m' ram'. map_from X phys v (Suc l) t k = Inr (k\<lparr>k_mem := m', k_ram := ram'\<rparr>) \<and>
    mapped_from k phys v (Suc l) t m' ram'"
  using assms(4-)
proof (induction l arbitrary: t k)
  case 0
  then show ?case using map_leaf[OF X phys 0(1,2)] by blast
next
  case (Suc l)
  let ?off = "HHDM_OFFSET (k_mem k)"
  let ?a = "entry_at ?off (Suc l) t v"
  note t = path_okD(1,2)[OF Suc.prems(2)]
  have unf: "map_from X phys v (Suc (Suc l)) t k = bind_res (ensure_table X ?a k) (\<lambda>k1.
      map_from X phys v (Suc l) (k_ram k1 ?a AND 0x000ffffffffff000) k1)"
    by (rule map_from_step[OF X Suc.prems(1) t(1)])
  have "1 \<le> card (mem_free (k_mem k))" using Suc.prems(4) by simp
  from X Suc.prems(1) this show ?case
  proof (cases rule: ensure_table_cases[where a = ?a])
    case present
    have sub: "path_ok k (Suc l) (k_ram k ?a AND 0x000ffffffffff000) v"
      using path_okD(3)[OF Suc.prems(2) present(1)] by blast
    have "l \<le> card (mem_free (k_mem k))" using Suc.prems(4) by simp
    from Suc.IH[OF Suc.prems(1) sub Suc.prems(3) this] obtain m' ram' where
      i: "map_from X phys v (Suc l) (k_ram k ?a AND 0x000ffffffffff000) k = Inr (k\<lparr>k_mem := m', k_ram := ram'\<rparr>)"
        "mapped_from k phys v (Suc l) (k_ram k ?a AND 0x000ffffffffff000) m' ram'" by blast
    have "map_from X phys v (Suc (Suc l)) t k = Inr (k\<lparr>k_mem := m', k_ram := ram'\<rparr>)"
      by (simp only: unf present(2) bind_res.simps i(1))
    with mapped_present[OF Suc.prems(1,2) present(1) i(2)] show ?thesis by blast
  next
    case (fresh f m1)
    define k1 where "k1 = k\<lparr>k_mem := m1, k_ram := (k_ram k)(?a := f OR 3)\<rparr>"
    note fp = fresh_path[OF Suc.prems(1,3) t fresh(4,5,7) entry_in_page k1_def]
    have fb: "unat f mod 4096 = 0" "unat f < 2 ^ 52" using free_page[OF Suc.prems(1) fresh(4)] by (simp_all add: table_page_def)
    have u: "k_ram k1 ?a AND 0x000ffffffffff000 = f" using pte_bits(1)[OF fb] by (simp add: k1_def)
    have m1: "mem_ok (k_mem k1)" "l \<le> card (mem_free (k_mem k1))" using fresh(4-6) Suc.prems(4) by (simp_all add: k1_def)
    from Suc.IH[OF m1(1) fp(1,2) m1(2)] obtain m' ram' where
      "map_from X phys v (Suc l) f k1 = Inr (k1\<lparr>k_mem := m', k_ram := ram'\<rparr>)" "mapped_from k1 phys v (Suc l) f m' ram'" by blast
    moreover from this(2) have "mapped_from k phys v (Suc (Suc l)) t m' ram'"
      by (rule mapped_fresh[OF Suc.prems(1,3,2) fresh(1,4,5,7,6) k1_def])
    moreover have "map_from X phys v (Suc (Suc l)) t k = map_from X phys v (Suc l) f k1"
      using unf fresh(3) u by (simp add: k1_def)
    ultimately show ?thesis by (auto simp: k1_def)
  qed
qed

text \<open>The small machine with a page map: one top-level entry, for closed instances.\<close>

definition small_tables :: "(u64 \<times> u64) list \<Rightarrow> kernel" where
  "small_tables ws = kernel_start (small_mem 0) (\<lambda>a. case map_of ws a of None \<Rightarrow> 0 | Some w \<Rightarrow> w)"

lemma small_free: "mem_free (small_mem 0) = (\<lambda>i. 0x10000 + 4096 * i) ` {..<8}"
proof -
  have "{i. i < region_size r \<and> \<not> used (mr_bitmap r) i} = {..<8}"
    if "r = \<lparr>mr_start = 0x10000, mr_end = 0x18000, mr_bitmap = \<lparr>bv_size = 8, bv_data = [0]\<rparr>\<rparr>" for r
    using that by (auto simp: region_size_def used_def)
  then show ?thesis by (simp add: small_mem_def mem_free_def bfa_free_def region_free_def frame_at_def[abs_def])
qed

lemma small_tables_simps:
  "k_mem (small_tables ws) = small_mem 0" "HHDM_OFFSET (small_mem d) = 0xffff800000000000"
  "k_ram (small_tables ws) a = (case map_of ws a of None \<Rightarrow> 0 | Some w \<Rightarrow> w)"
  by (simp_all add: small_tables_def small_mem_def kernel_start_def)

lemma four_levels: "(4 :: nat) = Suc (Suc (Suc (Suc 0)))" by simp

text \<open>Tables outside of the free frames leave these zeroed.\<close>

lemma small_zeroed:
  assumes "\<forall>a \<in> fst ` set ws. \<exists>t. table_page 0xffff800000000000 t \<and> unat t \<notin> mem_free (small_mem 0) \<and>
    a \<in> page_words 0xffff800000000000 t"
  shows "free_zeroed (small_tables ws)"
proof -
  have "map_of ws a = None" if "a \<in> free_words (small_mem 0)" for a
  proof (rule ccontr)
    assume "map_of ws a \<noteq> None"
    then have "a \<in> fst ` set ws" by (simp add: map_of_eq_None_iff)
    then obtain t where "table_page 0xffff800000000000 t" "unat t \<notin> mem_free (small_mem 0)" "a \<in> page_words 0xffff800000000000 t"
      using assms by blast
    with free_words_page[OF small_mem_ok, unfolded small_tables_simps] that show False by blast
  qed
  then show ?thesis by (simp add: free_zeroed_def small_tables_simps)
qed

lemma small_card: "2 \<le> card (mem_free (small_mem 0))"
  unfolding small_free by (subst card_image) (auto simp: inj_on_def)


lemma three_tables:
  assumes "length (tables ram off 4 t v) = 3"
  shows "bit (ram (entry_at off (Suc (Suc (Suc 0))) t v)) 0"
    "bit (ram (entry_at off (Suc (Suc 0)) (ram (entry_at off (Suc (Suc (Suc 0))) t v) AND 0x000ffffffffff000) v)) 0"
    "\<not> bit (ram (entry_at off (Suc 0) (ram (entry_at off (Suc (Suc 0)) (ram (entry_at off (Suc (Suc (Suc 0))) t v) AND 0x000ffffffffff000) v) AND 0x000ffffffffff000) v)) 0"
  using assms unfolding four_levels by (auto simp: Let_def split: if_splits)

lemma path_distinct:
  assumes "path_ok k 4 t v" "length (tables (k_ram k) (HHDM_OFFSET (k_mem k)) 4 t v) = 3"
  shows "distinct [t, k_ram k (entry_at (HHDM_OFFSET (k_mem k)) (Suc (Suc (Suc 0))) t v) AND 0x000ffffffffff000,
    k_ram k (entry_at (HHDM_OFFSET (k_mem k)) (Suc (Suc 0)) (k_ram k (entry_at (HHDM_OFFSET (k_mem k)) (Suc (Suc (Suc 0))) t v) AND 0x000ffffffffff000) v)
      AND 0x000ffffffffff000]"
  using assms three_tables[OF assms(2)] unfolding four_levels path_ok_def
  by (simp add: Let_def)

lemma entry_index_inj:
  assumes "idx l v \<noteq> idx l w"
  shows "entry_at off l t v \<noteq> entry_at off l t w"
proof -
  have "unat (8 * idx l x) = 8 * unat (idx l x)" for x using unat_idx[of l x] by (simp add: word_nat)
  from this[of v] this[of w] assms have "8 * idx l v \<noteq> 8 * idx l w"
    by (metis mult_cancel1 word_unat_eq_iff zero_neq_numeral)
  then show ?thesis by (simp add: entry_at_def)
qed

lemma same_large_page:
  assumes "drop_bit 21 v = drop_bit 21 (w :: u64)"
  shows "idx (Suc l) v = idx (Suc l) w"
proof -
  have "drop_bit (12 + 9 * Suc l) x = drop_bit (9 * l) (drop_bit 21 x)" for x :: u64 by (simp add: add.commute)
  then show ?thesis using assms by (simp only: idx_def)
qed


section \<open>Properties\<close>



text \<open>
  C32. New page tables are not cleared. If the last-level table of a page is missing, its frame
  is taken from the allocator and used with what it happens to contain: an address in the same
  2 MiB whose entry in that frame looks present was not mapped before and afterwards translates
  to whatever the stale word says.
\<close>

theorem map_page_stale_entries:
  assumes "x86_ok X" "mem_ok (k_mem k)" "path_ok k 4 cr3 virt"
    and "length (tables (k_ram k) (HHDM_OFFSET (k_mem k)) 4 cr3 virt) = 3"
    and "alloc_frame X (k_mem k) = Inr (Inr (Frame f), m')" "unat phys mod 4096 = 0" "unat phys < 2 ^ 52"
    and "drop_bit 21 v = drop_bit 21 virt" "idx 0 v \<noteq> idx 0 virt"
    and "bit (k_ram k (entry_at (HHDM_OFFSET (k_mem k)) 0 f v)) 0"
  shows "translate k cr3 v = None \<and> (\<exists>k'. map_page X cr3 phys virt k = Inr k' \<and> translate k' cr3 v =
    Some ((k_ram k (entry_at (HHDM_OFFSET (k_mem k)) 0 f v) AND 0x000ffffffffff000) OR (v AND 0xfff)))"
proof -
  define off where "off = HHDM_OFFSET (k_mem k)"
  define a4 where "a4 = entry_at off (Suc (Suc (Suc 0))) cr3 virt"
  define t3 where "t3 = k_ram k a4 AND 0x000ffffffffff000"
  define a3 where "a3 = entry_at off (Suc (Suc 0)) t3 virt"
  define t2 where "t2 = k_ram k a3 AND 0x000ffffffffff000"
  define a2 where "a2 = entry_at off (Suc 0) t2 virt"
  note D = off_def[symmetric] a4_def[symmetric] t3_def[symmetric] a3_def[symmetric] t2_def[symmetric] a2_def[symmetric]
  have tabs: "bit (k_ram k a4) 0" "bit (k_ram k a3) 0" "\<not> bit (k_ram k a2) 0"
    using three_tables[OF assms(4), unfolded D] by blast+
  have p4: "path_ok k (Suc (Suc (Suc (Suc 0)))) cr3 virt" using assms(3) unfolding four_levels .
  note o4 = path_okD(1,2)[OF p4, unfolded D] path_okD(3)[OF p4, unfolded D, OF tabs(1)]
  have p3: "path_ok k (Suc (Suc (Suc 0))) t3 virt" using o4(3) by blast
  note o3 = path_okD(1,2)[OF p3, unfolded D] path_okD(3)[OF p3, unfolded D, OF tabs(2)]
  have p2: "path_ok k (Suc (Suc 0)) t2 virt" using o3(3) by blast
  note o2 = path_okD(1,2)[OF p2, unfolded D]
  have f: "unat f \<in> mem_free (k_mem k) \<and> mem_ok m' \<and> HHDM_OFFSET m' = off"
    using assms(1,2) by (cases rule: alloc_page_cases) (use assms(5) D in auto)
  have fo: "table_page off f" using free_page[OF assms(2)] f D by simp
  have fb: "(f OR 3) AND 0x000ffffffffff000 = f" "bit (f OR 3) 0" "\<not> bit (f OR 3) 7"
    using pte_bits[of f] fo by (simp_all add: table_page_def)
  define ram' where "ram' = (k_ram k)(a2 := f OR 3, entry_at off 0 f virt := phys OR 3)"
  let ?k = "k\<lparr>k_mem := m', k_ram := ram'\<rparr>"
  have distinct: "distinct [cr3, t3, t2, f]"
    using path_distinct[OF assms(3,4), unfolded D] o4(2) o3(2) o2(2) f by auto
  have apart: "x \<notin> page_words off u" if "x \<in> page_words off t" "t \<noteq> u" "table_page off t" "table_page off u" for x t u
    using page_words_disjoint[OF that(3,4,2)] that(1) by blast
  have keep: "ram' a4 = k_ram k a4" "ram' a3 = k_ram k a3" "ram' a2 = f OR 3"
    using apart[of a4 cr3 t2] apart[of a4 cr3 f] apart[of a3 t3 t2] apart[of a3 t3 f] apart[of a2 t2 f] distinct
      o4(1) o3(1) o2(1) fo entry_in_page[of off]
    by (auto simp: ram'_def a4_def a3_def a2_def)
  have other: "ram' (entry_at off 0 f v) = k_ram k (entry_at off 0 f v)"
    using apart[of "entry_at off 0 f v" f t2] distinct fo o2(1) entry_in_page[of off] entry_index_inj[OF assms(9)]
    by (auto simp: ram'_def a2_def)
  have ens: "ensure_table X a2 k = Inr (k\<lparr>k_mem := m', k_ram := (k_ram k)(a2 := f OR 3)\<rparr>)"
    using tabs(3) fo assms(5) by (simp add: ensure_table_def x86_ok_simps[OF assms(1)] table_page_def)
  have "map_page X cr3 phys virt k = map_from X phys virt (Suc (Suc (Suc 0))) t3 k"
    using map_page_step[OF assms(1,2), of cr3 phys virt] o4(1) unfolding numeral_3_eq_3 D by simp
  also have "\<dots> = map_from X phys virt (Suc (Suc 0)) t2 k"
    using map_from_step[OF assms(1,2), of t3 phys virt "Suc 0", unfolded D] o3(1) tabs(2)
    by (simp only: ensure_table_def x86_ok_simps[OF assms(1)] simp_thms if_False bind_res.simps t2_def)
  also have "\<dots> = map_from X phys virt (Suc 0) f (k\<lparr>k_mem := m', k_ram := (k_ram k)(a2 := f OR 3)\<rparr>)"
    using map_from_step[OF assms(1,2), of t2 phys virt 0, unfolded D] o2(1) ens fb(1) by simp
  also have "\<dots> = Inr ?k"
    using entry_virt(1)[OF assms(1), of m' f] entry_virt(2)[OF assms(1), of m' f 0 virt] f fo assms(6,7)
    by (simp add: x86_ok_simps[OF assms(1)] ram'_def)
  finally have run: "map_page X cr3 phys virt k = Inr ?k" .
  have same: "entry_at off (Suc l) t v = entry_at off (Suc l) t virt" for l t
    using same_large_page[OF assms(8), of l] by (simp add: entry_at_def)
  have w: "walk r off (Suc (Suc (Suc (Suc 0)))) cr3 v = walk r off (Suc (Suc 0)) t2 v"
    if "r a4 = k_ram k a4" "r a3 = k_ram k a3" for r
    using that tabs o4(3) o3(3) by (simp add: same D Let_def del: walk.simps) (simp add: same D Let_def)
  have "translate k cr3 v = None"
    using w[of "k_ram k"] tabs(3) unfolding translate_def four_levels by (simp add: same D)
  moreover have "translate ?k cr3 v = Some ((k_ram k (entry_at off 0 f v) AND 0x000ffffffffff000) OR (v AND 0xfff))"
    using w[of ram'] keep other assms(10) fb f unfolding translate_def four_levels
    by (simp add: same D large_def Let_def)
  ultimately show ?thesis using run D by auto
qed

theorem map_page_stale_entries_witness:
  "\<exists>k'. map_page x86_doc 0x1000 0xfee00000 0xffff8000fee00000 (small_tables
       [(0xffff800000001800, 0x2003), (0xffff800000002018, 0x3003), (0xffff800000010028, 0xbad001)]) = Inr k' \<and>
     translate k' 0x1000 0xffff8000fee05010 = Some 0xbad010"
proof -
  let ?k = "small_tables [(0xffff800000001800, 0x2003), (0xffff800000002018, 0x3003), (0xffff800000010028, 0xbad001)]"
  let ?v = "0xffff8000fee00000 :: u64" and ?w = "0xffff8000fee05010 :: u64"
  have i: "idx (Suc (Suc (Suc 0))) ?v = 256" "idx (Suc (Suc 0)) ?v = 3" "idx (Suc 0) ?v = 0x1f7" "idx 0 ?v = 0" "idx 0 ?w = 5"
    by (simp_all add: idx_def)
  have tabs: "tables (k_ram ?k) 0xffff800000000000 4 0x1000 ?v = [0x1000, 0x2000, 0x3000]"
      "no_large (k_ram ?k) 0xffff800000000000 4 0x1000 ?v"
    unfolding four_levels by (simp_all add: entry_at_def i small_tables_simps Let_def large_def)
  have p: "path_ok ?k 4 0x1000 ?v"
    unfolding path_ok_def small_tables_simps(1,2) tabs(1) Let_def using tabs(2) by (auto simp: table_page_def small_free)
  have st: "k_ram ?k (entry_at 0xffff800000000000 0 0x10000 ?w) = 0xbad001"
    by (simp add: entry_at_def i small_tables_simps)
  have "unat (0xfee00000 :: u64) mod 4096 = 0" "unat (0xfee00000 :: u64) < 2 ^ 52" "drop_bit 21 ?w = drop_bit 21 ?v"
    "idx 0 ?w \<noteq> idx 0 ?v" "length (tables (k_ram ?k) 0xffff800000000000 4 0x1000 ?v) = 3"
    "bit (k_ram ?k (entry_at 0xffff800000000000 0 0x10000 ?w)) 0"
    by (simp_all add: i tabs(1) st)
  with map_page_stale_entries[OF x86_ok_doc, of ?k "0x1000" ?v "0x10000" "small_mem 1" "0xfee00000" ?w, unfolded small_tables_simps(1,2)]
    small_mem_ok p small_mem_allocs(1) st show ?thesis by auto
qed

text \<open>
  C33. A missing top-level entry is not noticed. If the entry of the page in the top-level table
  is empty, \<open>map_page\<close> follows it to physical address 0: it makes an entry in the frame there,
  which belongs to nobody, returns without an error, and the page is not mapped.
\<close>

theorem map_page_missing_top_level:
  assumes "x86_ok X" "mem_ok (k_mem k)" "free_zeroed k" "2 \<le> card (mem_free (k_mem k))"
    and "unat phys mod 4096 = 0" "unat phys < 2 ^ 52"
    and "table_page (HHDM_OFFSET (k_mem k)) cr3" "unat cr3 \<notin> mem_free (k_mem k)" "cr3 \<noteq> 0" "0 \<notin> mem_free (k_mem k)"
    and "k_ram k (entry_at (HHDM_OFFSET (k_mem k)) 3 cr3 virt) = 0"
    and "\<not> bit (k_ram k (entry_at (HHDM_OFFSET (k_mem k)) 2 0 virt)) 0"
  shows "\<exists>k'. map_page X cr3 phys virt k = Inr k' \<and> translate k' cr3 virt = None \<and>
    bit (k_ram k' (entry_at (HHDM_OFFSET (k_mem k)) 2 0 virt)) 0"
proof -
  let ?off = "HHDM_OFFSET (k_mem k)"
  have "hhdm_ok ?off" using assms(2) by (simp add: mem_ok_def)
  then have "unat ?off mod 4096 = 0" by (simp add: hhdm_ok_def)
  then obtain q where q: "unat ?off = 4096 * q" by (metis mod_0_imp_dvd dvd_def)
  then have "q < 4503599627370496" using u64_bound[of ?off] by linarith
  then have "unat ?off + 4096 \<le> 18446744073709551616" using q by linarith
  then have z: "table_page ?off 0" by (simp add: table_page_def)
  have tab: "tables (k_ram k) ?off (Suc 2) 0 virt = [0]" unfolding tables.simps Let_def using assms(12) by simp
  have p: "path_ok k (Suc 2) 0 virt" unfolding path_ok_def Let_def tab no_large.simps using z assms(10,12) by simp
  from map_from_ok[OF assms(1,5,6,2) p assms(3,4)] obtain m' ram' where
    run: "map_from X phys virt 3 0 k = Inr (k\<lparr>k_mem := m', k_ram := ram'\<rparr>)" and mf: "mapped_from k phys virt (Suc 2) 0 m' ram'"
    by auto
  let ?k = "k\<lparr>k_mem := m', k_ram := ram'\<rparr>"
  have mp: "map_page X cr3 phys virt k = Inr ?k"
    using run map_page_step[OF assms(1,2,7), of phys virt] assms(11) by simp
  have c: "changes_ok k (Suc 2) 0 virt ram'" using mf by (simp add: mapped_from_def)
  have "ram' (entry_at ?off 3 cr3 virt) = 0"
    using entry_kept[OF assms(2,7,8) c entry_in_page] z assms(9,11) unfolding tab by simp
  then have "translate ?k cr3 virt = None"
    using mf unfolding translate_def four_levels by (simp add: mapped_from_def numeral_3_eq_3)
  moreover have "walk ram' ?off (Suc 2) 0 virt \<noteq> None" using mf by (simp add: mapped_from_def)
  then have "bit (ram' (entry_at ?off 2 0 virt)) 0" unfolding walk.simps Let_def by presburger
  ultimately show ?thesis using mp by (intro exI[of _ ?k]) simp
qed

theorem map_page_missing_top_level_witness:
  "\<exists>k'. map_page x86_doc 0x1000 0xfee00000 0xffff8000fee00000 (small_tables []) = Inr k' \<and>
     bit (k_ram k' 0xffff800000000018) 0 \<and> translate k' 0x1000 0xffff8000fee00000 = None"
proof -
  let ?v = "0xffff8000fee00000 :: u64"
  have i: "idx 2 ?v = 3" by (simp add: idx_def)
  have e: "entry_at 0xffff800000000000 2 0 ?v = 0xffff800000000018" by (simp add: entry_at_def i)
  have z: "free_zeroed (small_tables [])" by (rule small_zeroed) simp
  have f: "unat (0x1000 :: u64) \<notin> mem_free (small_mem 0)" "0 \<notin> mem_free (small_mem 0)" by (auto simp: small_free)
  have n: "table_page 0xffff800000000000 0x1000" "(0x1000 :: u64) \<noteq> 0" "unat (0xfee00000 :: u64) mod 4096 = 0"
    "unat (0xfee00000 :: u64) < 2 ^ 52" by (simp_all add: table_page_def)
  have r: "k_ram (small_tables []) a = 0" for a by (simp add: small_tables_simps)
  from map_page_missing_top_level[OF x86_ok_doc, of "small_tables []" "0xfee00000" "0x1000" ?v, unfolded small_tables_simps(1,2),
      OF small_mem_ok z small_card n(3,4,1) f(1) n(2) f(2)] r
  show ?thesis unfolding e by auto
qed

end
