(* ===== verification/Descriptors.thy ===== *)
theory Descriptors
  imports Sched_Inv
begin

text \<open>
  Descriptor tables (src/src/arch/x86_64/gdt.rs and src/src/arch/x86_64/idt.rs): each CPU gets
  its own global descriptor table and interrupt descriptor table, each in a page of its own.

  The table types are those of the \<^verbatim>\<open>x86_64\<close> crate. Their operations are the fields of
  \<open>gdt_crate\<close> and \<open>idt_crate\<close>, arguments of the definitions; \<open>gdt_ok\<close> and \<open>idt_ok\<close> say what
  their documentation promises.
\<close>

section \<open>The table types of the crate\<close>

text \<open>
  \<open>GlobalDescriptorTable::empty\<close>, \<open>append\<close> (\<open>None\<close>: no room, it panics), the raw \<open>entries\<close>,
  and the four descriptors.
\<close>

record 'g gdt_crate =
  gdt_empty :: 'g
  gdt_append :: "'g \<Rightarrow> u64 \<Rightarrow> (u16 \<times> 'g) option"
  gdt_entries :: "'g \<Rightarrow> u64 list"
  kernel_code_segment :: u64
  kernel_data_segment :: u64
  user_data_segment :: u64
  user_code_segment :: u64

definition gdt_ok :: "'g gdt_crate \<Rightarrow> bool" where
  "gdt_ok G \<longleftrightarrow> gdt_entries G (gdt_empty G) = [0] \<and>
     (\<forall>g d. length (gdt_entries G g) < 7 \<longrightarrow>
        (\<exists>s g'. gdt_append G g d = Some (s, g') \<and> gdt_entries G g' = gdt_entries G g @ [d]))"

text \<open>
  The entries of an interrupt descriptor table: a missing one, \<open>set_handler_fn\<close>, which uses the
  current code segment, \<open>set_privilege_level\<close>, and what an entry says: handler, code segment,
  privilege level, whether it is present and whether interrupts are off in the handler.
\<close>

record 'e idt_crate =
  entry_missing :: 'e
  set_handler_fn :: "u16 \<Rightarrow> u64 \<Rightarrow> 'e \<Rightarrow> 'e"
  set_privilege_level :: "u16 \<Rightarrow> 'e \<Rightarrow> 'e"
  entry_gate :: "'e \<Rightarrow> (u64 \<times> u16 \<times> u16 \<times> bool) option"

definition idt_ok :: "'e idt_crate \<Rightarrow> bool" where
  "idt_ok I \<longleftrightarrow> entry_gate I (entry_missing I) = None \<and>
     (\<forall>cs h e. entry_gate I (set_handler_fn I cs h e) = Some (h, cs, 0, True)) \<and>
     (\<forall>dpl e. entry_gate I (set_privilege_level I dpl e) =
        map_option (\<lambda>(h, cs, _, off). (h, cs, dpl, off)) (entry_gate I e))"

text \<open>Tables with the documented behaviour, for closed instances: lists of entries, optional gates.\<close>

definition gdt_doc :: "u64 list gdt_crate" where
  "gdt_doc = \<lparr>gdt_empty = [0],
     gdt_append = (\<lambda>g d. if length g < 7 then Some (word_of_nat (8 * length g), g @ [d]) else None),
     gdt_entries = (\<lambda>g. g), kernel_code_segment = 0x00af9b000000ffff, kernel_data_segment = 0x00cf93000000ffff,
     user_data_segment = 0x00cff3000000ffff, user_code_segment = 0x00affb000000ffff\<rparr>"

definition idt_doc :: "(u64 \<times> u16 \<times> u16 \<times> bool) option idt_crate" where
  "idt_doc = \<lparr>entry_missing = None, set_handler_fn = (\<lambda>seg h _. Some (h, seg, 0, True)),
     set_privilege_level = (\<lambda>dpl. map_option (\<lambda>(h, seg, _, off). (h, seg, dpl, off))), entry_gate = (\<lambda>e. e)\<rparr>"

section \<open>State\<close>

text \<open>The registers of a CPU that the set-up touches, and the tables, by the address of their page.\<close>

record hw =
  hw_cs :: u16
  hw_ds :: u16
  hw_ss :: u16
  hw_es :: u16
  hw_fs :: u16
  hw_gs :: u16
  hw_gs_base :: u64
  hw_gdtr :: u64
  hw_idtr :: u64

record ('g, 'e) boot_state =
  bs_kernel :: kernel
  bs_hw :: hw
  bs_gdts :: "u64 \<rightharpoonup> 'g"
  bs_idts :: "u64 \<rightharpoonup> (u8 \<Rightarrow> 'e)"

text \<open>The addresses of the interrupt handlers.\<close>

record handlers =
  h_breakpoint :: u64
  h_page_fault :: u64
  h_timer :: u64

section \<open>The global descriptor table\<close>

text \<open>A new page for a table: its address and the state.\<close>

definition alloc_page :: "x86_crate \<Rightarrow> kernel \<Rightarrow> (u64 \<times> kernel) res" where
  "alloc_page X k =
     bind_res (alloc_frame X (k_mem k)) (\<lambda>(r, m).
       case r of
         Inl _ \<Rightarrow> Inl (ExpectFailed ''Out of memory'')
       | Inr f \<Rightarrow> bind_res (phys_to_virt X m (frame_addr f)) (\<lambda>a. Inr (a, k\<lparr>k_mem := m\<rparr>)))"

definition alloc_gdt :: "x86_crate \<Rightarrow> 'g gdt_crate \<Rightarrow> usize \<Rightarrow> ('g, 'e) boot_state \<Rightarrow> (u64 \<times> ('g, 'e) boot_state) res" where
  "alloc_gdt X G gdt_size st =
     bind_res (alloc_page X (bs_kernel st)) (\<lambda>(gdt_addr, k).
     bind_res (assert_res (gdt_size < 4096)) (\<lambda>_.
     Inr (gdt_addr, st\<lparr>bs_kernel := k, bs_gdts := (bs_gdts st)(gdt_addr \<mapsto> gdt_empty G)\<rparr>)))"

definition append :: "'g gdt_crate \<Rightarrow> u64 \<Rightarrow> u64 \<Rightarrow> ('g, 'e) boot_state \<Rightarrow> ('g, 'e) boot_state res" where
  "append G gdt d st =
     bind_res (expect_some Undefined (bs_gdts st gdt)) (\<lambda>g.
     bind_res (expect_some (Panicked ''GDT full'') (gdt_append G g d)) (\<lambda>(_, g').
     Inr (st\<lparr>bs_gdts := (bs_gdts st)(gdt \<mapsto> g')\<rparr>)))"

text \<open>\<open>reload\<close> is the base that loading \<open>gs\<close> leaves in \<open>GsBase\<close>.\<close>

definition load_segments :: "x86_crate \<Rightarrow> u64 \<Rightarrow> u64 \<Rightarrow> hw \<Rightarrow> hw" where
  "load_segments X reload gdt h =
     (let h1 = h\<lparr>hw_gdtr := gdt, hw_cs := KERNEL_CS X, hw_ds := KERNEL_DS X, hw_ss := KERNEL_DS X,
                 hw_es := KERNEL_DS X, hw_fs := KERNEL_DS X\<rparr>;
          gs_base = hw_gs_base h1;
          h2 = h1\<lparr>hw_gs := KERNEL_DS X, hw_gs_base := reload\<rparr>
      in h2\<lparr>hw_gs_base := gs_base\<rparr>)"

text \<open>The store to the TLS page through \<open>gs\<close>.\<close>

definition store_tls :: "(tls_data \<Rightarrow> tls_data) \<Rightarrow> ('g, 'e) boot_state \<Rightarrow> ('g, 'e) boot_state res" where
  "store_tls f st =
     bind_res (current_cpu (bs_kernel st) (hw_gs_base (bs_hw st))) (\<lambda>cpu.
     Inr (st\<lparr>bs_kernel := (bs_kernel st)\<lparr>k_tls := (k_tls (bs_kernel st))(hw_gs_base (bs_hw st) \<mapsto> f cpu)\<rparr>\<rparr>))"

definition setup_gdt :: "x86_crate \<Rightarrow> 'g gdt_crate \<Rightarrow> usize \<Rightarrow> u64 \<Rightarrow> ('g, 'e) boot_state \<Rightarrow> ('g, 'e) boot_state res" where
  "setup_gdt X G gdt_size reload st =
     bind_res (alloc_gdt X G gdt_size st) (\<lambda>(gdt, st1).
     bind_res (append G gdt (kernel_code_segment G) st1) (\<lambda>st2.
     bind_res (append G gdt (kernel_data_segment G) st2) (\<lambda>st3.
     bind_res (append G gdt (user_data_segment G) st3) (\<lambda>st4.
     bind_res (append G gdt (user_code_segment G) st4) (\<lambda>st5.
     store_tls (\<lambda>cpu. cpu\<lparr>gdt_addr := gdt\<rparr>) (st5\<lparr>bs_hw := load_segments X reload gdt (bs_hw st5)\<rparr>))))))"

section \<open>The interrupt descriptor table\<close>

definition alloc_idt :: "x86_crate \<Rightarrow> 'e idt_crate \<Rightarrow> usize \<Rightarrow> ('g, 'e) boot_state \<Rightarrow> (u64 \<times> ('g, 'e) boot_state) res" where
  "alloc_idt X I idt_size st =
     bind_res (alloc_page X (bs_kernel st)) (\<lambda>(idt_addr, k).
     bind_res (assert_res (idt_size = 4096)) (\<lambda>_.
     Inr (idt_addr, st\<lparr>bs_kernel := k, bs_idts := (bs_idts st)(idt_addr \<mapsto> (\<lambda>_. entry_missing I))\<rparr>)))"

text \<open>Vector 3 is the breakpoint exception, 14 the page fault.\<close>

definition fill_idt :: "'e idt_crate \<Rightarrow> handlers \<Rightarrow> u16 \<Rightarrow> (u8 \<Rightarrow> 'e) \<Rightarrow> u8 \<Rightarrow> 'e" where
  "fill_idt I H seg t =
     (let t1 = t(3 := set_privilege_level I 3 (set_handler_fn I seg (h_breakpoint H) (t 3)));
          t2 = t1(14 := set_handler_fn I seg (h_page_fault H) (t1 14))
      in t2(32 := set_handler_fn I seg (h_timer H) (t2 32)))"

definition setup_idt :: "x86_crate \<Rightarrow> 'e idt_crate \<Rightarrow> usize \<Rightarrow> handlers \<Rightarrow> ('g, 'e) boot_state \<Rightarrow> ('g, 'e) boot_state res" where
  "setup_idt X I idt_size H st =
     bind_res (alloc_idt X I idt_size st) (\<lambda>(idt, st1).
     bind_res (expect_some Undefined (bs_idts st1 idt)) (\<lambda>t.
     let st2 = st1\<lparr>bs_idts := (bs_idts st1)(idt \<mapsto> fill_idt I H (hw_cs (bs_hw st1)) t),
                   bs_hw := (bs_hw st1)\<lparr>hw_idtr := idt\<rparr>\<rparr> in
     store_tls (\<lambda>cpu. cpu\<lparr>idt_addr := idt\<rparr>) st2))"

text \<open>The exception handlers panic; \<open>error\<close> is the debug form of the error code.\<close>

definition breakpoint_handler :: "kernel \<Rightarrow> u64 \<Rightarrow> unit res" where
  "breakpoint_handler k gs =
     bind_res (current_cpu_id k gs) (\<lambda>id.
     Inl (Panicked (''Breakpoint Exception triggered on CPU '' @ show_dec (unat id))))"

definition page_fault_handler :: "kernel \<Rightarrow> u64 \<Rightarrow> string \<Rightarrow> unit res" where
  "page_fault_handler k gs error =
     bind_res (current_cpu_id k gs) (\<lambda>id.
     Inl (Panicked (''Page Fault Exception triggered on CPU '' @ show_dec (unat id) @ '': '' @ error)))"

section \<open>Lemmas\<close>

lemma alloc_page_ok:
  assumes X: "x86_ok X" and m: "mem_ok (k_mem k)"
  obtains (oom) "alloc_page X k = Inl (ExpectFailed ''Out of memory'')" "mem_free (k_mem k) = {}"
    | (ok) a m' where "alloc_page X k = Inr (a + HHDM_OFFSET (k_mem k), k\<lparr>k_mem := m'\<rparr>)" "unat a \<in> mem_free (k_mem k)"
      "mem_ok m'" "HHDM_OFFSET m' = HHDM_OFFSET (k_mem k)" "mem_free m' = mem_free (k_mem k) - {unat a}"
      "\<exists>r. alloc_frames X (k_mem k) 1 = Inr (r, m')"
proof -
  from X m show thesis
  proof (cases rule: alloc_page_cases)
    case (oom e)
    then show thesis using that(1) by (simp add: alloc_page_def)
  next
    case (ok a m')
    have "\<exists>r. alloc_frames X (k_mem k) 1 = Inr (r, m')"
      using ok(1) by (auto simp: alloc_frame_eq alloc_one_def res_iff split: sum.splits) (metis sum.exhaust)
    with ok show thesis using that(2)[of a m'] by (simp add: alloc_page_def)
  qed
qed

lemma append_ok:
  assumes "gdt_ok G" "bs_gdts st a = Some g" "length (gdt_entries G g) < 7"
  obtains g' where "append G a d st = Inr (st\<lparr>bs_gdts := (bs_gdts st)(a \<mapsto> g')\<rparr>)"
    "gdt_entries G g' = gdt_entries G g @ [d]"
proof -
  from assms(1,3) obtain s g' where "gdt_append G g d = Some (s, g')" "gdt_entries G g' = gdt_entries G g @ [d]"
    unfolding gdt_ok_def by blast
  then show thesis using that[of g'] assms(2) by (simp add: append_def)
qed

lemma load_segments_eq:
  "load_segments X reload gdt h = h\<lparr>hw_cs := KERNEL_CS X, hw_ds := KERNEL_DS X, hw_ss := KERNEL_DS X,
     hw_es := KERNEL_DS X, hw_fs := KERNEL_DS X, hw_gs := KERNEL_DS X, hw_gdtr := gdt\<rparr>"
  by (simp add: load_segments_def Let_def)

lemma setup_gdt_ok:
  assumes X: "x86_ok X" and G: "gdt_ok G" and m: "mem_ok (k_mem (bs_kernel st))" and sz: "gdt_size < 4096"
    and cpu: "k_tls (bs_kernel st) (hw_gs_base (bs_hw st)) = Some cpu"
  obtains (oom) "setup_gdt X G gdt_size reload st = Inl (ExpectFailed ''Out of memory'')" "mem_free (k_mem (bs_kernel st)) = {}"
    | (ok) a m' g where "unat a \<in> mem_free (k_mem (bs_kernel st))" "mem_ok m'"
      "HHDM_OFFSET m' = HHDM_OFFSET (k_mem (bs_kernel st))" "mem_free m' = mem_free (k_mem (bs_kernel st)) - {unat a}"
      "\<exists>r. alloc_frames X (k_mem (bs_kernel st)) 1 = Inr (r, m')"
      "gdt_entries G g = [0, kernel_code_segment G, kernel_data_segment G, user_data_segment G, user_code_segment G]"
      "setup_gdt X G gdt_size reload st = Inr (st\<lparr>
         bs_kernel := (bs_kernel st)\<lparr>k_mem := m', k_tls := (k_tls (bs_kernel st))(hw_gs_base (bs_hw st) \<mapsto>
           cpu\<lparr>gdt_addr := a + HHDM_OFFSET (k_mem (bs_kernel st))\<rparr>)\<rparr>,
         bs_hw := load_segments X reload (a + HHDM_OFFSET (k_mem (bs_kernel st))) (bs_hw st),
         bs_gdts := (bs_gdts st)(a + HHDM_OFFSET (k_mem (bs_kernel st)) \<mapsto> g)\<rparr>)"
proof -
  from X m show thesis
  proof (cases rule: alloc_page_ok)
    case oom
    then show thesis using that(1) by (simp add: setup_gdt_def alloc_gdt_def)
  next
    case (ok a m')
    let ?a = "a + HHDM_OFFSET (k_mem (bs_kernel st))"
    let ?st = "\<lambda>g. st\<lparr>bs_kernel := (bs_kernel st)\<lparr>k_mem := m'\<rparr>, bs_gdts := (bs_gdts st)(?a \<mapsto> g)\<rparr>"
    have al: "alloc_gdt X G gdt_size st = Inr (?a, ?st (gdt_empty G))" using ok(1) sz by (simp add: alloc_gdt_def)
    have step: "\<exists>g'. append G ?a d (?st g) = Inr (?st g') \<and> gdt_entries G g' = gdt_entries G g @ [d]"
      if "length (gdt_entries G g) < 7" for g d
      by (rule append_ok[OF G _ that, of "?st g" ?a d]) auto
    have e0: "gdt_entries G (gdt_empty G) = [0]" using G by (simp add: gdt_ok_def)
    obtain g1 where g1: "append G ?a (kernel_code_segment G) (?st (gdt_empty G)) = Inr (?st g1)"
        "gdt_entries G g1 = [0, kernel_code_segment G]" using step[of "gdt_empty G"] e0 by auto
    obtain g2 where g2: "append G ?a (kernel_data_segment G) (?st g1) = Inr (?st g2)"
        "gdt_entries G g2 = [0, kernel_code_segment G, kernel_data_segment G]" using step[of g1] g1(2) by auto
    obtain g3 where g3: "append G ?a (user_data_segment G) (?st g2) = Inr (?st g3)"
        "gdt_entries G g3 = [0, kernel_code_segment G, kernel_data_segment G, user_data_segment G]"
      using step[of g2] g2(2) by auto
    obtain g4 where g4: "append G ?a (user_code_segment G) (?st g3) = Inr (?st g4)"
        "gdt_entries G g4 = [0, kernel_code_segment G, kernel_data_segment G, user_data_segment G, user_code_segment G]"
      using step[of g3] g3(2) by auto
    show thesis
      by (rule that(2)[OF ok(2-6) g4(2)])
        (use al g1(1) g2(1) g3(1) g4(1) cpu in \<open>simp add: setup_gdt_def store_tls_def current_cpu_def load_segments_eq\<close>)
  qed
qed

lemma setup_idt_ok:
  assumes X: "x86_ok X" and m: "mem_ok (k_mem (bs_kernel st))"
    and cpu: "k_tls (bs_kernel st) (hw_gs_base (bs_hw st)) = Some cpu"
  obtains (oom) "setup_idt X I 4096 H st = Inl (ExpectFailed ''Out of memory'')" "mem_free (k_mem (bs_kernel st)) = {}"
    | (ok) a m' where "unat a \<in> mem_free (k_mem (bs_kernel st))" "mem_ok m'"
      "HHDM_OFFSET m' = HHDM_OFFSET (k_mem (bs_kernel st))" "mem_free m' = mem_free (k_mem (bs_kernel st)) - {unat a}"
      "\<exists>r. alloc_frames X (k_mem (bs_kernel st)) 1 = Inr (r, m')"
      "setup_idt X I 4096 H st = Inr (st\<lparr>
         bs_kernel := (bs_kernel st)\<lparr>k_mem := m', k_tls := (k_tls (bs_kernel st))(hw_gs_base (bs_hw st) \<mapsto>
           cpu\<lparr>idt_addr := a + HHDM_OFFSET (k_mem (bs_kernel st))\<rparr>)\<rparr>,
         bs_hw := (bs_hw st)\<lparr>hw_idtr := a + HHDM_OFFSET (k_mem (bs_kernel st))\<rparr>,
         bs_idts := (bs_idts st)(a + HHDM_OFFSET (k_mem (bs_kernel st)) \<mapsto>
           fill_idt I H (hw_cs (bs_hw st)) (\<lambda>_. entry_missing I))\<rparr>)"
proof -
  from X m show thesis
  proof (cases rule: alloc_page_ok)
    case oom
    then show thesis using that(1) by (simp add: setup_idt_def alloc_idt_def)
  next
    case (ok a m')
    show thesis
      by (rule that(2)[OF ok(2-6)])
        (use ok(1) cpu in \<open>simp add: setup_idt_def alloc_idt_def store_tls_def current_cpu_def Let_def\<close>)
  qed
qed

text \<open>Both tables, one after the other.\<close>

lemma setup_tables:
  assumes X: "x86_ok X" and G: "gdt_ok G" and m: "mem_ok (k_mem (bs_kernel st))" and sz: "gdt_size < 4096"
    and cpu: "k_tls (bs_kernel st) (hw_gs_base (bs_hw st)) = Some cpu" and free: "2 \<le> card (mem_free (k_mem (bs_kernel st)))"
  obtains st1 a b m1 m2 g where "setup_gdt X G gdt_size reload st = Inr st1"
    "setup_idt X I 4096 H st1 = Inr (st\<lparr>
       bs_kernel := (bs_kernel st)\<lparr>k_mem := m2, k_tls := (k_tls (bs_kernel st))(hw_gs_base (bs_hw st) \<mapsto>
         cpu\<lparr>gdt_addr := a, idt_addr := b\<rparr>)\<rparr>,
       bs_hw := (load_segments X reload a (bs_hw st))\<lparr>hw_idtr := b\<rparr>, bs_gdts := (bs_gdts st)(a \<mapsto> g),
       bs_idts := (bs_idts st)(b \<mapsto> fill_idt I H (KERNEL_CS X) (\<lambda>_. entry_missing I))\<rparr>)"
    "a \<noteq> b" "gdt_entries G g = [0, kernel_code_segment G, kernel_data_segment G, user_data_segment G, user_code_segment G]"
    "\<exists>r. alloc_frames X (k_mem (bs_kernel st)) 1 = Inr (r, m1)" "\<exists>r. alloc_frames X m1 1 = Inr (r, m2)"
    "HHDM_OFFSET m2 = HHDM_OFFSET (k_mem (bs_kernel st))"
proof -
  let ?off = "HHDM_OFFSET (k_mem (bs_kernel st))"
  from X G m sz cpu show thesis
  proof (cases rule: setup_gdt_ok[where reload = reload])
    case oom
    then show thesis using free by simp
  next
    case gdt: (ok a m1 g)
    define st1 where "st1 = st\<lparr>bs_kernel := (bs_kernel st)\<lparr>k_mem := m1, k_tls := (k_tls (bs_kernel st))(hw_gs_base (bs_hw st) \<mapsto>
        cpu\<lparr>gdt_addr := a + ?off\<rparr>)\<rparr>, bs_hw := load_segments X reload (a + ?off) (bs_hw st),
      bs_gdts := (bs_gdts st)(a + ?off \<mapsto> g)\<rparr>"
    have s1: "mem_ok (k_mem (bs_kernel st1))" "k_tls (bs_kernel st1) (hw_gs_base (bs_hw st1)) = Some (cpu\<lparr>gdt_addr := a + ?off\<rparr>)"
      "HHDM_OFFSET (k_mem (bs_kernel st1)) = ?off" "k_mem (bs_kernel st1) = m1"
      using gdt(2,3) by (simp_all add: st1_def load_segments_eq)
    have run1: "setup_gdt X G gdt_size reload st = Inr st1" using gdt(7) by (simp add: st1_def)
    from X s1(1,2) show thesis
    proof (cases rule: setup_idt_ok[where I = I and H = H])
      case oom
      then have "card (mem_free (k_mem (bs_kernel st))) \<le> card {unat a}" using gdt(4) s1(4) by (intro card_mono) auto
      then show thesis using free by simp
    next
      case idt: (ok b m2)
      have "unat b \<noteq> unat a" using idt(1) gdt(4) s1(4) by simp
      then have ne: "a + ?off \<noteq> b + ?off" by auto
      have al: "\<exists>r. alloc_frames X m1 1 = Inr (r, m2)" "HHDM_OFFSET m2 = ?off" using idt(3,5) s1(3,4) by simp_all
      show thesis
        by (rule that[OF run1 _ ne gdt(6,5) al]) (use idt(6) s1(3) in \<open>simp add: st1_def load_segments_eq\<close>)
    qed
  qed
qed

text \<open>The gates of a filled table.\<close>

lemma fill_idt_gates:
  assumes "idt_ok I"
  shows "entry_gate I (fill_idt I H seg (\<lambda>_. entry_missing I) v) =
    (if v = 3 then Some (h_breakpoint H, seg, 3, True) else if v = 14 then Some (h_page_fault H, seg, 0, True)
     else if v = 32 then Some (h_timer H, seg, 0, True) else None)"
  using assms by (simp add: fill_idt_def Let_def idt_ok_def)

lemma selectors:
  assumes "x86_ok X"
  shows "KERNEL_CS X = 8" "KERNEL_DS X = 16" "USER_DS X = 27" "USER_CS X = 35"
  by (simp_all add: KERNEL_CS_def KERNEL_DS_def USER_DS_def USER_CS_def x86_ok_simps[OF assms])

lemma table_docs: "gdt_ok gdt_doc" "idt_ok idt_doc"
  by (simp_all add: gdt_ok_def gdt_doc_def idt_ok_def idt_doc_def)

section \<open>Properties\<close>

text \<open>
  C23. The descriptor tables of a CPU: with two free frames \<open>setup_gdt\<close> and then \<open>setup_idt\<close>
  return; the selectors of the code index the descriptors they are meant for; all segment
  registers are loaded and the base of \<open>gs\<close> survives the reload, whatever that leaves; exactly
  the vectors 3, 14 and 32 have a handler, in the kernel code segment and with interrupts off,
  and only the breakpoint may be raised from user mode; the two pages are different and the TLS
  page records both.
\<close>

theorem descriptor_tables_correct:
  assumes "x86_ok X" "gdt_ok G" "idt_ok I" "mem_ok (k_mem (bs_kernel st))" "2 \<le> card (mem_free (k_mem (bs_kernel st)))"
    and "gdt_size < 4096" "k_tls (bs_kernel st) gs = Some cpu" "gs = hw_gs_base (bs_hw st)"
  shows "\<exists>st1 st2 gdt idt. setup_gdt X G gdt_size reload st = Inr st1 \<and> setup_idt X I 4096 H st1 = Inr st2 \<and>
    bs_gdts st2 (hw_gdtr (bs_hw st2)) = Some gdt \<and> bs_idts st2 (hw_idtr (bs_hw st2)) = Some idt \<and>
    map (\<lambda>sel. gdt_entries G gdt ! (unat sel div 8)) [KERNEL_CS X, KERNEL_DS X, USER_DS X, USER_CS X] =
      [kernel_code_segment G, kernel_data_segment G, user_data_segment G, user_code_segment G] \<and>
    hw_cs (bs_hw st2) = KERNEL_CS X \<and> (\<forall>reg \<in> {hw_ds, hw_ss, hw_es, hw_fs, hw_gs}. reg (bs_hw st2) = KERNEL_DS X) \<and>
    hw_gs_base (bs_hw st2) = gs \<and>
    (\<forall>v. entry_gate I (idt v) =
      (if v = 3 then Some (h_breakpoint H, KERNEL_CS X, 3, True) else if v = 14 then Some (h_page_fault H, KERNEL_CS X, 0, True)
       else if v = 32 then Some (h_timer H, KERNEL_CS X, 0, True) else None)) \<and>
    hw_gdtr (bs_hw st2) \<noteq> hw_idtr (bs_hw st2) \<and>
    k_tls (bs_kernel st2) gs = Some (cpu\<lparr>gdt_addr := hw_gdtr (bs_hw st2), idt_addr := hw_idtr (bs_hw st2)\<rparr>)"
proof -
  have cpu: "k_tls (bs_kernel st) (hw_gs_base (bs_hw st)) = Some cpu" using assms(7,8) by simp
  let ?idt = "fill_idt I H (KERNEL_CS X) (\<lambda>_. entry_missing I)"
  obtain st1 st2 a b m2 g where runs: "setup_gdt X G gdt_size reload st = Inr st1" "setup_idt X I 4096 H st1 = Inr st2"
    and st2: "st2 = st\<lparr>bs_kernel := (bs_kernel st)\<lparr>k_mem := m2, k_tls := (k_tls (bs_kernel st))(hw_gs_base (bs_hw st) \<mapsto>
         cpu\<lparr>gdt_addr := a, idt_addr := b\<rparr>)\<rparr>,
       bs_hw := (load_segments X reload a (bs_hw st))\<lparr>hw_idtr := b\<rparr>, bs_gdts := (bs_gdts st)(a \<mapsto> g),
       bs_idts := (bs_idts st)(b \<mapsto> ?idt)\<rparr>" and ne: "a \<noteq> b"
    and g: "gdt_entries G g = [0, kernel_code_segment G, kernel_data_segment G, user_data_segment G, user_code_segment G]"
    by (rule setup_tables[OF assms(1,2,4,6) cpu assms(5), of reload I H]) blast
  have "map (\<lambda>sel. gdt_entries G g ! (unat sel div 8)) [KERNEL_CS X, KERNEL_DS X, USER_DS X, USER_CS X] =
      [kernel_code_segment G, kernel_data_segment G, user_data_segment G, user_code_segment G]"
    by (simp add: selectors[OF assms(1)] g)
  with ne show ?thesis
    by (intro exI[of _ st1] exI[of _ st2] exI[of _ g] exI[of _ ?idt] conjI runs allI fill_idt_gates[OF assms(3)])
      (simp_all add: st2 load_segments_eq assms(8))
qed

theorem descriptor_tables_correct_witness:
  "\<exists>k cpu st1 st2. k_tls k 0xffff800000010000 = Some cpu \<and>
     setup_gdt x86_doc gdt_doc 64 0 \<lparr>bs_kernel = k, bs_hw = \<lparr>hw_cs = 0x28, hw_ds = 0x30, hw_ss = 0x30, hw_es = 0x30, hw_fs = 0x30,
       hw_gs = 0x30, hw_gs_base = 0xffff800000010000, hw_gdtr = 0, hw_idtr = 0\<rparr>, bs_gdts = Map.empty, bs_idts = Map.empty\<rparr> = Inr st1 \<and>
     setup_idt x86_doc idt_doc 4096 \<lparr>h_breakpoint = 1, h_page_fault = 2, h_timer = 3\<rparr> st1 = Inr st2 \<and>
     hw_gs_base (bs_hw st2) = 0xffff800000010000 \<and> hw_cs (bs_hw st2) = 8"
proof (rule small_boot)
  fix k cpu
  assume k: "reachable x86_doc 4096 0 k" "k_tls k 0xffff800000010000 = Some cpu" "k_mem k = small_mem 3"
  let ?st = "\<lparr>bs_kernel = k, bs_hw = \<lparr>hw_cs = 0x28, hw_ds = 0x30, hw_ss = 0x30, hw_es = 0x30, hw_fs = 0x30,
    hw_gs = 0x30, hw_gs_base = 0xffff800000010000, hw_gdtr = 0, hw_idtr = 0\<rparr>, bs_gdts = Map.empty, bs_idts = Map.empty\<rparr>"
  have "{0x12000, 0x13000} \<subseteq> mem_free (small_mem 3)" "finite (mem_free (small_mem 3))"
    by (auto simp: small_mem_def mem_free_def bfa_free_def region_free_def frame_at_def region_size_def used_def image_iff
        intro!: exI[of _ 2] exI[of _ 3])
  then have two: "2 \<le> card (mem_free (k_mem (bs_kernel ?st)))"
    using card_mono[of "mem_free (small_mem 3)" "{0x12000, 0x13000}"] k(3) by simp
  have m: "mem_ok (k_mem (bs_kernel ?st))"
    using reachable_sched_ok[OF k(1) x86_ok_doc] by (simp add: sched_ok_def pages_ok_def)
  have sel: "KERNEL_CS x86_doc = 8" using selectors[OF x86_ok_doc] by blast
  have small: "(64 :: usize) < 4096" and c: "k_tls (bs_kernel ?st) 0xffff800000010000 = Some cpu" using k(2) by simp_all
  from descriptor_tables_correct[OF x86_ok_doc table_docs m two small c, of 0 "\<lparr>h_breakpoint = 1, h_page_fault = 2, h_timer = 3\<rparr>"] k(2) sel
  show ?thesis by auto
qed

end
