(* ===== verification/Framebuffer.thy ===== *)
theory Framebuffer
  imports Font
begin

text \<open>
  The framebuffer (src/src/dev/console/terminal.rs, \<open>Framebuffer\<close>): pixels in a slice of 32-bit
  words, row after row, \<open>pitch / 4\<close> words per row, and the drawing of a glyph as a cell of 8 by
  10 pixels, one blank row above and one below the eight rows of the font.
\<close>

record framebuffer =
  fb_addr :: "u32 list"
  fb_width :: usize
  fb_height :: usize
  fb_pitch :: usize

text \<open>
  The framebuffer that the bootloader reports: its size, its pitch in bytes, and the words that
  video memory holds from its address on.
\<close>

record limine_framebuffer =
  lf_memory :: "nat \<Rightarrow> u32"
  lf_width :: u64
  lf_height :: u64
  lf_pitch :: u64

definition framebuffer_from :: "limine_framebuffer \<Rightarrow> framebuffer" where
  "framebuffer_from fb = \<lparr>fb_addr = map (lf_memory fb) [0 ..< unat (lf_pitch fb div 4 * lf_height fb)],
     fb_width = lf_width fb, fb_height = lf_height fb, fb_pitch = lf_pitch fb\<rparr>"

definition put_pixel :: "usize \<Rightarrow> usize \<Rightarrow> u32 \<Rightarrow> framebuffer \<Rightarrow> framebuffer res" where
  "put_pixel x y color fb =
     (let index = y * (fb_pitch fb div 4) + x in
      bind_res (slice_set (fb_addr fb) index color) (\<lambda>a. Inr (fb\<lparr>fb_addr := a\<rparr>)))"

text \<open>One row of eight pixels, in the colour that \<open>color\<close> gives for the column.\<close>

definition draw_row :: "usize \<Rightarrow> usize \<Rightarrow> (usize \<Rightarrow> u32) \<Rightarrow> framebuffer \<Rightarrow> framebuffer res" where
  "draw_row x y color fb = for_res (\<lambda>col. put_pixel (x + col) y (color col)) (range_usize 0 8) fb"

definition glyph_slice :: "u8 \<Rightarrow> u8 list res" where
  "glyph_slice glyph =
     (let a = (ucast glyph :: usize) * 8; b = ((ucast glyph :: usize) + 1) * 8 in
      if a \<le> b \<and> unat b \<le> length FONT_BITMAP_8X8
      then Inr (take (unat (b - a)) (drop (unat a) FONT_BITMAP_8X8)) else Inl OutOfBounds)"

definition draw_glyph :: "usize \<Rightarrow> usize \<Rightarrow> u8 \<Rightarrow> u32 \<Rightarrow> u32 \<Rightarrow> framebuffer \<Rightarrow> framebuffer res" where
  "draw_glyph x y glyph fg_color bg_color fb =
     (if glyph \<ge> 128 then Inr fb
      else
        bind_res (draw_row x y (\<lambda>_. bg_color) fb) (\<lambda>fb1.
        bind_res (glyph_slice glyph) (\<lambda>glyph_bitmap.
        bind_res (for_res (\<lambda>(row, byte). draw_row x (y + row + 1)
            (\<lambda>col. let pixel_on = (drop_bit (unat col) byte) AND 1 in if pixel_on \<noteq> 0 then fg_color else bg_color))
          (zip (range_usize 0 8) glyph_bitmap) fb1) (\<lambda>fb2.
        draw_row x (y + 9) (\<lambda>_. bg_color) fb2))))"

section \<open>Specification\<close>

text \<open>
  A framebuffer with sizes that the hardware can have: rows at least as long as the width, and
  the number of words does not overflow.
\<close>

definition stride :: "framebuffer \<Rightarrow> nat" where
  "stride fb = unat (fb_pitch fb) div 4"

definition fb_ok :: "framebuffer \<Rightarrow> bool" where
  "fb_ok fb \<longleftrightarrow> unat (fb_width fb) \<le> stride fb \<and> stride fb * unat (fb_height fb) < 2 ^ 63 \<and>
     length (fb_addr fb) = stride fb * unat (fb_height fb)"

definition pixel :: "framebuffer \<Rightarrow> nat \<Rightarrow> nat \<Rightarrow> u32" where
  "pixel fb x y = fb_addr fb ! (y * stride fb + x)"

text \<open>A framebuffer that differs from another only in the pixels inside its bounds.\<close>

definition redrawn :: "framebuffer \<Rightarrow> (nat \<Rightarrow> nat \<Rightarrow> u32) \<Rightarrow> framebuffer \<Rightarrow> bool" where
  "redrawn fb p fb' \<longleftrightarrow> fb_width fb' = fb_width fb \<and> fb_height fb' = fb_height fb \<and> fb_pitch fb' = fb_pitch fb \<and>
     length (fb_addr fb') = length (fb_addr fb) \<and>
     (\<forall>x y. x < stride fb \<and> y < unat (fb_height fb) \<longrightarrow> pixel fb' x y = p x y)"

text \<open>The pixel in column \<open>c\<close>, row \<open>r\<close> of the cell of a character.\<close>

definition cell_pixel :: "u8 \<Rightarrow> u32 \<Rightarrow> u32 \<Rightarrow> nat \<Rightarrow> nat \<Rightarrow> u32" where
  "cell_pixel g fg bg c r = (if 1 \<le> r \<and> r \<le> 8 \<and> glyph_bit g (r - 1) c then fg else bg)"

section \<open>Pixels\<close>

lemma redrawnD:
  assumes "redrawn fb p fb'"
  shows "stride fb' = stride fb" "fb_width fb' = fb_width fb" "fb_height fb' = fb_height fb" "fb_ok fb' = fb_ok fb"
    "fb_pitch fb' = fb_pitch fb"
  using assms by (auto simp: redrawn_def stride_def fb_ok_def)

lemma redrawn_refl: "redrawn fb (pixel fb) fb"
  by (simp add: redrawn_def)

lemma redrawn_trans: "redrawn fb p fb1 \<Longrightarrow> redrawn fb1 q fb2 \<Longrightarrow> redrawn fb q fb2"
  by (auto simp: redrawn_def stride_def)

lemma redrawn_cong:
  "redrawn fb p fb' \<Longrightarrow> (\<And>x y. x < stride fb \<Longrightarrow> y < unat (fb_height fb) \<Longrightarrow> p x y = q x y) \<Longrightarrow> redrawn fb q fb'"
  by (simp add: redrawn_def)

lemma pixel_index:
  assumes "fb_ok fb" "x < stride fb" "y < unat (fb_height fb)"
  shows "y * stride fb + x < length (fb_addr fb)"
proof -
  have "y * stride fb + x < Suc y * stride fb" using assms(2) by simp
  also have "\<dots> \<le> unat (fb_height fb) * stride fb" using assms(3) by (intro mult_le_mono1) simp
  finally show ?thesis using assms(1) by (simp add: fb_ok_def mult.commute)
qed

lemma pixel_index_inj:
  fixes x x' y y' w :: nat
  assumes "x < w" "x' < w" "y * w + x = y' * w + x'"
  shows "x = x' \<and> y = y'"
proof -
  have "(y * w + x) mod w = x" "(y' * w + x') mod w = x'" "(y * w + x) div w = y" "(y' * w + x') div w = y'"
    using assms(1,2) by auto
  then show ?thesis using assms(3) by metis
qed

lemma put_pixel_ok:
  assumes ok: "fb_ok fb" and x: "unat x < stride fb" and y: "unat y < unat (fb_height fb)"
  obtains fb' where "put_pixel x y color fb = Inr fb'"
    "redrawn fb (\<lambda>a b. if a = unat x \<and> b = unat y then color else pixel fb a b) fb'"
proof -
  have i: "unat y * stride fb + unat x < length (fb_addr fb)" using pixel_index[OF ok x y] .
  then have b: "unat y * stride fb + unat x < 2 ^ 63" using ok by (simp add: fb_ok_def)
  have p: "unat (fb_pitch fb div 4) = stride fb" by (simp add: stride_def unat_div)
  have "unat (y * (fb_pitch fb div 4)) = unat y * stride fb" using b p by (subst unat_mult_u64) simp_all
  then have idx: "unat (y * (fb_pitch fb div 4) + x) = unat y * stride fb + unat x"
    using b by (subst unat_add_u64) simp_all
  let ?fb = "fb\<lparr>fb_addr := (fb_addr fb)[unat y * stride fb + unat x := color]\<rparr>"
  show thesis
  proof (rule that[of ?fb])
    show "put_pixel x y color fb = Inr ?fb" using i idx by (simp add: put_pixel_def Let_def)
    have "pixel ?fb a b = (if a = unat x \<and> b = unat y then color else pixel fb a b)" if "a < stride fb" for a b
      using pixel_index_inj[OF that x, of b "unat y"] i
      by (auto simp: pixel_def nth_list_update stride_def)
    then show "redrawn fb (\<lambda>a b. if a = unat x \<and> b = unat y then color else pixel fb a b) ?fb"
      by (simp add: redrawn_def)
  qed
qed

section \<open>Rows and glyphs\<close>

lemma draw_row_ok:
  assumes ok: "fb_ok fb" and x: "unat x + 8 \<le> stride fb" and y: "unat y < unat (fb_height fb)"
  obtains fb' where "draw_row x y color fb = Inr fb'"
    "redrawn fb (\<lambda>a b. if b = unat y \<and> unat x \<le> a \<and> a < unat x + 8 then color (word_of_nat (a - unat x))
       else pixel fb a b) fb'"
proof -
  define P where "P k = (\<lambda>a b. if b = unat y \<and> unat x \<le> a \<and> a < unat x + k then color (word_of_nat (a - unat x))
    else pixel fb a b)" for k
  have "\<exists>s'. draw_row x y color fb = Inr s' \<and> redrawn fb (P (length (range_usize 0 8))) s'"
    unfolding draw_row_def
  proof (rule for_res_inv)
    show "redrawn fb (P 0) fb" by (rule redrawn_cong[OF redrawn_refl]) (auto simp: P_def)
  next
    fix k s assume "k < length (range_usize 0 8)" and s: "redrawn fb (P k) s"
    then have k: "k < 8" by simp
    have col: "range_usize 0 8 ! k = word_of_nat k" using k by (simp add: nth_range_usize)
    have "8 \<le> stride fb" "stride fb < 2 ^ 62" using x by (simp_all add: stride_def) (use u64_bound[of "fb_pitch fb"] in simp)
    then have ux: "unat (x + word_of_nat k) = unat x + k" using x k by (simp add: word_nat)
    note D = redrawnD[OF s]
    have pre: "fb_ok s" "unat (x + word_of_nat k) < stride s" "unat y < unat (fb_height s)"
      unfolding ux D(1,3,4) using ok x y k by simp_all
    obtain s' where s': "put_pixel (x + word_of_nat k) y (color (word_of_nat k)) s = Inr s'"
      "redrawn s (\<lambda>a b. if a = unat (x + word_of_nat k) \<and> b = unat y then color (word_of_nat k) else pixel s a b) s'"
      by (rule put_pixel_ok[OF pre])
    have "redrawn fb (P (Suc k)) s'"
    proof (rule redrawn_cong[OF redrawn_trans[OF s s'(2)]])
      fix a b assume "a < stride fb" "b < unat (fb_height fb)"
      then have "pixel s a b = P k a b" using s by (simp add: redrawn_def)
      then show "(if a = unat (x + word_of_nat k) \<and> b = unat y then color (word_of_nat k) else pixel s a b) = P (Suc k) a b"
        using ux by (auto simp: P_def)
    qed
    then show "\<exists>s'. put_pixel (x + range_usize 0 8 ! k) y (color (range_usize 0 8 ! k)) s = Inr s' \<and> redrawn fb (P (Suc k)) s'"
      using s'(1) col by auto
  qed
  then show thesis using that by (auto simp: P_def)
qed

lemma pixel_on_bit: "(drop_bit n byte AND 1 \<noteq> 0) = bit (byte :: u8) n"
  by (simp add: and_one_eq bit_iff_odd_drop_bit mod_2_eq_odd)

lemma glyph_slice_ok:
  assumes "g < 128"
  shows "\<exists>bs. glyph_slice g = Inr bs \<and> length bs = 8 \<and> (\<forall>r < 8. \<forall>c. bit (bs ! r) c = glyph_bit g r c)"
proof -
  have g: "unat g < 128" using assms by (simp add: word_less_nat_alt)
  have u: "unat (ucast g :: usize) = unat g"
    using unsigned_less[of g, where ?'a = nat] by (simp add: unsigned_ucast_eq take_bit_nat_eq_self_iff)
  let ?a = "(ucast g :: usize) * 8" and ?b = "((ucast g :: usize) + 1) * 8"
  have a: "unat ?a = 8 * unat g" using u g by (simp add: word_nat)
  have b: "unat ?b = 8 * unat g + 8" using u g by (simp add: word_nat)
  have "unat (?b - ?a) = 8" using a b by (simp add: unat_sub_u64)
  then have "glyph_slice g = Inr (take 8 (drop (8 * unat g) FONT_BITMAP_8X8))"
    using a b g by (simp add: glyph_slice_def Let_def word_le_nat_alt)
  then show ?thesis using g by (simp add: glyph_bit_def)
qed

lemma draw_glyph_ok:
  assumes ok: "fb_ok fb" and x: "unat x + 8 \<le> stride fb" and y: "unat y + 10 \<le> unat (fb_height fb)" and g: "g < 128"
  obtains fb' where "draw_glyph x y g fg bg fb = Inr fb'"
    "redrawn fb (\<lambda>a b. if unat x \<le> a \<and> a < unat x + 8 \<and> unat y \<le> b \<and> b < unat y + 10
       then cell_pixel g fg bg (a - unat x) (b - unat y) else pixel fb a b) fb'"
proof -
  define P where "P k = (\<lambda>a b. if unat x \<le> a \<and> a < unat x + 8 \<and> unat y \<le> b \<and> b < unat y + k
    then cell_pixel g fg bg (a - unat x) (b - unat y) else pixel fb a b)" for k
  have h: "unat y + 10 < 18446744073709551616" using y u64_bound[of "fb_height fb"] by simp
  obtain bs where bs: "glyph_slice g = Inr bs" "length bs = 8" "\<forall>r < 8. \<forall>c. bit (bs ! r) c = glyph_bit g r c"
    using glyph_slice_ok[OF g] by blast
  have y0: "unat y < unat (fb_height fb)" using y by simp
  obtain fb1 where fb1: "draw_row x y (\<lambda>_. bg) fb = Inr fb1"
    "redrawn fb (\<lambda>a b. if b = unat y \<and> unat x \<le> a \<and> a < unat x + 8 then bg else pixel fb a b) fb1"
    by (rule draw_row_ok[OF ok x y0])
  have r1: "redrawn fb (P 1) fb1" by (rule redrawn_cong[OF fb1(2)]) (auto simp: P_def cell_pixel_def)
  let ?color = "\<lambda>byte (col :: usize). if (drop_bit (unat col) byte) AND 1 \<noteq> 0 then fg else bg"
  let ?rows = "zip (range_usize 0 8) bs"
  have rows: "length ?rows = 8" using bs(2) by simp
  have "\<exists>s'. for_res (\<lambda>(row, byte). draw_row x (y + row + 1) (?color byte)) ?rows fb1 = Inr s' \<and>
      redrawn fb (P (1 + length ?rows)) s'"
  proof (rule for_res_inv)
    show "redrawn fb (P (1 + 0)) fb1" using r1 by simp
  next
    fix k s assume "k < length ?rows" and s: "redrawn fb (P (1 + k)) s"
    then have k: "k < 8" using rows by simp
    then have nth: "?rows ! k = (word_of_nat k, bs ! k)" using bs(2) by (simp add: nth_range_usize)
    have uy: "unat (y + word_of_nat k + 1) = unat y + k + 1" using h k by (simp add: word_nat)
    note D = redrawnD[OF s]
    have pre: "fb_ok s" "unat x + 8 \<le> stride s" "unat (y + word_of_nat k + 1) < unat (fb_height s)"
      unfolding uy D(1,3,4) using ok x y k by simp_all
    obtain s' where s': "draw_row x (y + word_of_nat k + 1) (?color (bs ! k)) s = Inr s'"
      "redrawn s (\<lambda>a b. if b = unat (y + word_of_nat k + 1) \<and> unat x \<le> a \<and> a < unat x + 8
         then ?color (bs ! k) (word_of_nat (a - unat x)) else pixel s a b) s'"
      by (rule draw_row_ok[OF pre, of "?color (bs ! k)"])
    have "redrawn fb (P (1 + Suc k)) s'"
    proof (rule redrawn_cong[OF redrawn_trans[OF s s'(2)]])
      fix a b assume ab: "a < stride fb" "b < unat (fb_height fb)"
      then have old: "pixel s a b = P (1 + k) a b" using s by (simp add: redrawn_def)
      have "?color (bs ! k) (word_of_nat (a - unat x)) = cell_pixel g fg bg (a - unat x) (k + 1)"
        if "unat x \<le> a" "a < unat x + 8"
      proof -
        have "unat (word_of_nat (a - unat x) :: usize) = a - unat x"
          by (rule unat_of_nat_u64) (use that in simp)
        then show ?thesis using bs(3) k unfolding cell_pixel_def pixel_on_bit by simp
      qed
      then show "(if b = unat (y + word_of_nat k + 1) \<and> unat x \<le> a \<and> a < unat x + 8
         then ?color (bs ! k) (word_of_nat (a - unat x)) else pixel s a b) = P (1 + Suc k) a b"
        unfolding old uy by (auto simp: P_def)
    qed
    then show "\<exists>s'. (case ?rows ! k of (row, byte) \<Rightarrow> draw_row x (y + row + 1) (?color byte)) s = Inr s' \<and>
        redrawn fb (P (1 + Suc k)) s'"
      using s'(1) nth by auto
  qed
  then obtain fb2 where fb2: "for_res (\<lambda>(row, byte). draw_row x (y + row + 1) (?color byte)) ?rows fb1 = Inr fb2"
    "redrawn fb (P 9) fb2" using rows by auto
  have uy: "unat (y + 9) = unat y + 9" using h by (simp add: word_nat)
  note D = redrawnD[OF fb2(2)]
  have pre: "fb_ok fb2" "unat x + 8 \<le> stride fb2" "unat (y + 9) < unat (fb_height fb2)"
    unfolding uy D(1,3,4) using ok x y by simp_all
  obtain fb3 where fb3: "draw_row x (y + 9) (\<lambda>_. bg) fb2 = Inr fb3"
    "redrawn fb2 (\<lambda>a b. if b = unat (y + 9) \<and> unat x \<le> a \<and> a < unat x + 8 then bg else pixel fb2 a b) fb3"
    by (rule draw_row_ok[OF pre])
  show thesis
  proof (rule that[of fb3])
    show "draw_glyph x y g fg bg fb = Inr fb3"
      using g fb1(1) bs(1) fb2(1) fb3(1) by (simp add: draw_glyph_def Let_def linorder_not_le)
    show "redrawn fb (\<lambda>a b. if unat x \<le> a \<and> a < unat x + 8 \<and> unat y \<le> b \<and> b < unat y + 10
       then cell_pixel g fg bg (a - unat x) (b - unat y) else pixel fb a b) fb3"
    proof (rule redrawn_cong[OF redrawn_trans[OF fb2(2) fb3(2)]])
      fix a b assume "a < stride fb" "b < unat (fb_height fb)"
      then have old: "pixel fb2 a b = P 9 a b" using fb2(2) by (simp add: redrawn_def)
      show "(if b = unat (y + 9) \<and> unat x \<le> a \<and> a < unat x + 8 then bg else pixel fb2 a b) =
        (if unat x \<le> a \<and> a < unat x + 8 \<and> unat y \<le> b \<and> b < unat y + 10
         then cell_pixel g fg bg (a - unat x) (b - unat y) else pixel fb a b)"
        unfolding old uy by (auto simp: P_def cell_pixel_def)
    qed
  qed
qed

end
