(* ===== verification/Terminal.thy ===== *)
theory Terminal
  imports Framebuffer
begin

text \<open>
  The terminal (src/src/dev/console/terminal.rs): themes, cursor, the ANSI escape state machine
  and the drawing of text. Bytes and colours are words; the escape parameters are \<open>usize\<close> values
  that wrap around like those of the code.
\<close>

section \<open>State\<close>

record ansi_args =
  aa_count :: usize
  aa_args :: "usize list"

definition ansi_args_default :: ansi_args where
  "ansi_args_default = \<lparr>aa_count = 1, aa_args = replicate 8 0\<rparr>"

datatype ansi_state = Ground | Escape | Arg ansi_args

record terminal =
  t_fb :: framebuffer
  cursor_x :: usize
  cursor_y :: usize
  fg_color :: u32
  bg_color :: u32
  ansi :: ansi_state

record theme =
  default_fg :: u32
  default_bg :: u32
  colors :: "u32 list"
  bright_colors :: "u32 list"

definition VGA_THEME :: theme where
  "VGA_THEME = \<lparr>default_fg = 0xC0C0C0, default_bg = 0x000000,
     colors = [0x000000, 0xAA0000, 0x00AA00, 0xAA5500, 0x0000AA, 0xAA00AA, 0x00AAAA, 0xAAAAAA],
     bright_colors = [0x555555, 0xFF5555, 0x55FF55, 0xFFFF55, 0x5555FF, 0xFF55FF, 0x55FFFF, 0xFFFFFF]\<rparr>"

definition GRUVBOX_THEME :: theme where
  "GRUVBOX_THEME = \<lparr>default_fg = 0xEBDBB2, default_bg = 0x282828,
     colors = [0x282828, 0xCC241D, 0x98971A, 0xD79921, 0x458588, 0xB16286, 0x689D6A, 0xEBDBB2],
     bright_colors = [0x665C54, 0xFB4934, 0xB8BB26, 0xFABD2F, 0x83A598, 0xD3869B, 0x8EC07C, 0xEBDBB2]\<rparr>"

definition TOKYO_NIGHT_THEME :: theme where
  "TOKYO_NIGHT_THEME = \<lparr>default_fg = 0xC0C0C0, default_bg = 0x1A1B26,
     colors = [0x1A1B26, 0xF7768E, 0x9ECE6A, 0xE0AF68, 0x7AA2F7, 0xBB9AF7, 0x7DCFFF, 0xC0C0C0],
     bright_colors = [0x414868, 0xFF7A93, 0xB9F27C, 0xE6C384, 0x7AA2F7, 0xBB9AF7, 0x7DCFFF, 0xFFFFFF]\<rparr>"

definition DEFAULT_THEME :: theme where
  "DEFAULT_THEME = TOKYO_NIGHT_THEME"

section \<open>Operations\<close>

definition terminal_new :: "limine_framebuffer \<Rightarrow> terminal" where
  "terminal_new fb = \<lparr>t_fb = framebuffer_from fb, cursor_x = 0, cursor_y = 0,
     fg_color = default_fg DEFAULT_THEME, bg_color = default_bg DEFAULT_THEME, ansi = Ground\<rparr>"

definition terminal_clear :: "terminal \<Rightarrow> terminal" where
  "terminal_clear t = t\<lparr>t_fb := (t_fb t)\<lparr>fb_addr := replicate (length (fb_addr (t_fb t))) (bg_color t)\<rparr>,
     cursor_x := 0, cursor_y := 0\<rparr>"

definition terminal_scroll :: "usize \<Rightarrow> terminal \<Rightarrow> terminal" where
  "terminal_scroll n t = (terminal_clear t)\<lparr>cursor_y := 0\<rparr>"

definition put_char :: "u8 \<Rightarrow> terminal \<Rightarrow> terminal res" where
  "put_char c t =
     (if c = 0x0A then
        let t1 = t\<lparr>cursor_x := 0, cursor_y := cursor_y t + 10\<rparr> in
        Inr (if cursor_y t1 + 10 > fb_height (t_fb t1) then terminal_scroll 1 t1 else t1)
      else
        bind_res (draw_glyph (cursor_x t) (cursor_y t) c (fg_color t) (bg_color t) (t_fb t)) (\<lambda>fb.
        let t1 = t\<lparr>t_fb := fb, cursor_x := cursor_x t + 8\<rparr> in
        Inr (if cursor_x t1 + 8 > fb_width (t_fb t1) then
               let t2 = t1\<lparr>cursor_x := 0, cursor_y := cursor_y t1 + 10\<rparr> in
               if cursor_y t2 + 10 > fb_height (t_fb t2) then terminal_scroll 1 t2 else t2
             else t1)))"

text \<open>One parameter of a select-graphic-rendition sequence.\<close>

definition sgr_param :: "usize \<Rightarrow> terminal \<Rightarrow> terminal res" where
  "sgr_param param t =
     (if param = 0 then Inr (t\<lparr>fg_color := default_fg DEFAULT_THEME, bg_color := default_bg DEFAULT_THEME\<rparr>)
      else if 30 \<le> param \<and> param \<le> 37 then
        bind_res (slice_get (colors DEFAULT_THEME) (param - 30)) (\<lambda>c. Inr (t\<lparr>fg_color := c\<rparr>))
      else if param = 39 then Inr (t\<lparr>fg_color := default_fg DEFAULT_THEME\<rparr>)
      else if 40 \<le> param \<and> param \<le> 47 then
        bind_res (slice_get (colors DEFAULT_THEME) (param - 40)) (\<lambda>c. Inr (t\<lparr>bg_color := c\<rparr>))
      else if param = 49 then Inr (t\<lparr>bg_color := default_bg DEFAULT_THEME\<rparr>)
      else if 90 \<le> param \<and> param \<le> 97 then
        bind_res (slice_get (bright_colors DEFAULT_THEME) (param - 90)) (\<lambda>c. Inr (t\<lparr>fg_color := c\<rparr>))
      else if 100 \<le> param \<and> param \<le> 107 then
        bind_res (slice_get (bright_colors DEFAULT_THEME) (param - 100)) (\<lambda>c. Inr (t\<lparr>bg_color := c\<rparr>))
      else Inr t)"

definition recv_byte :: "u8 \<Rightarrow> terminal \<Rightarrow> terminal res" where
  "recv_byte c t =
     (case ansi t of
        Ground \<Rightarrow> if c = 0x1B then Inr (t\<lparr>ansi := Escape\<rparr>) else put_char c t
      | Escape \<Rightarrow> if c = 0x5B then Inr (t\<lparr>ansi := Arg ansi_args_default\<rparr>) else Inr (t\<lparr>ansi := Ground\<rparr>)
      | Arg a \<Rightarrow>
          if c \<ge> 0x30 \<and> c \<le> 0x39 then
            bind_res (slice_get (aa_args a) (aa_count a - 1)) (\<lambda>last.
            let new_val = last * 10 + ucast (c - 0x30) in
            bind_res (slice_set (aa_args a) (aa_count a - 1) new_val) (\<lambda>args.
            Inr (t\<lparr>ansi := Arg (a\<lparr>aa_args := args\<rparr>)\<rparr>)))
          else if c = 0x3B then
            Inr (if unat (aa_count a) < length (aa_args a) then t\<lparr>ansi := Arg (a\<lparr>aa_count := aa_count a + 1\<rparr>)\<rparr> else t)
          else if c = 0x6D then
            (if unat (aa_count a) > length (aa_args a) then Inl OutOfBounds
             else bind_res (for_res sgr_param (take (unat (aa_count a)) (aa_args a)) t) (\<lambda>t1.
               Inr (t1\<lparr>ansi := Ground\<rparr>)))
          else Inr t)"

definition recv_bytes :: "u8 list \<Rightarrow> terminal \<Rightarrow> terminal res" where
  "recv_bytes buf t = for_res recv_byte buf t"

definition write_str :: "u8 list \<Rightarrow> terminal \<Rightarrow> terminal res" where
  "write_str s t = recv_bytes s t"

section \<open>Specification\<close>

text \<open>
  What is on the screen: a grid of cells, each blank since the last clearing or holding a
  character with its two colours.
\<close>

record screen =
  cells :: "nat \<Rightarrow> nat \<Rightarrow> (u8 \<times> u32 \<times> u32) option"
  blank :: u32
  s_col :: nat
  s_row :: nat
  s_fg :: u32
  s_bg :: u32

definition screen_pixel :: "(nat \<Rightarrow> nat \<Rightarrow> (u8 \<times> u32 \<times> u32) option) \<Rightarrow> u32 \<Rightarrow> nat \<Rightarrow> nat \<Rightarrow> u32" where
  "screen_pixel cs bl x y =
     (case cs (x div 8) (y div 10) of None \<Rightarrow> bl | Some (g, f, b) \<Rightarrow> cell_pixel g f b (x mod 8) (y mod 10))"

definition screen_clear :: "screen \<Rightarrow> screen" where
  "screen_clear s = s\<lparr>cells := (\<lambda>_ _. None), blank := s_bg s, s_col := 0, s_row := 0\<rparr>"

definition screen_newline :: "nat \<Rightarrow> screen \<Rightarrow> screen" where
  "screen_newline rows s = (if s_row s + 1 < rows then s\<lparr>s_col := 0, s_row := s_row s + 1\<rparr> else screen_clear s)"

definition screen_put :: "nat \<Rightarrow> nat \<Rightarrow> u8 \<Rightarrow> screen \<Rightarrow> screen" where
  "screen_put cols rows c s =
     (if c = 0x0A then screen_newline rows s
      else
        let s1 = (if c < 128 then s\<lparr>cells := (cells s)(s_col s := (cells s (s_col s))(s_row s := Some (c, s_fg s, s_bg s)))\<rparr> else s)
        in if s_col s + 1 < cols then s1\<lparr>s_col := s_col s + 1\<rparr> else screen_newline rows s1)"

text \<open>The screen after the console was set up, and the framebuffers it can be set up on.\<close>

definition screen_start :: screen where
  "screen_start = \<lparr>cells = (\<lambda>_ _. None), blank = default_bg DEFAULT_THEME, s_col = 0, s_row = 0,
     s_fg = default_fg DEFAULT_THEME, s_bg = default_bg DEFAULT_THEME\<rparr>"

definition limine_ok :: "limine_framebuffer \<Rightarrow> bool" where
  "limine_ok lf \<longleftrightarrow> unat (lf_width lf) \<le> unat (lf_pitch lf) div 4 \<and> 8 \<le> unat (lf_width lf) \<and> 10 \<le> unat (lf_height lf) \<and>
     unat (lf_pitch lf) div 4 * unat (lf_height lf) < 2 ^ 63"

text \<open>Text and colour sequences, how they are sent, and what they mean.\<close>

datatype token = Text u8 | Sgr "nat list"

fun dec_bytes :: "nat \<Rightarrow> u8 list" where
  "dec_bytes n = (if n < 10 then [0x30 + word_of_nat n] else dec_bytes (n div 10) @ [0x30 + word_of_nat (n mod 10)])"

declare dec_bytes.simps [simp del]

fun params_bytes :: "nat list \<Rightarrow> u8 list" where
  "params_bytes [] = []"
| "params_bytes [p] = dec_bytes p"
| "params_bytes (p # ps) = dec_bytes p @ 0x3B # params_bytes ps"

fun token_bytes :: "token \<Rightarrow> u8 list" where
  "token_bytes (Text c) = [c]"
| "token_bytes (Sgr ps) = [0x1B, 0x5B] @ params_bytes ps @ [0x6D]"

fun token_ok :: "token \<Rightarrow> bool" where
  "token_ok (Text c) = (c \<noteq> 0x1B)"
| "token_ok (Sgr ps) = (ps \<noteq> [] \<and> length ps \<le> 8 \<and> (\<forall>p \<in> set ps. p < 2 ^ 64))"

definition sgr_colors :: "theme \<Rightarrow> nat \<Rightarrow> u32 \<times> u32 \<Rightarrow> u32 \<times> u32" where
  "sgr_colors th p = (\<lambda>(f, b).
     if p = 0 then (default_fg th, default_bg th)
     else if p \<in> {30 .. 37} then (colors th ! (p - 30), b)
     else if p = 39 then (default_fg th, b)
     else if p \<in> {40 .. 47} then (f, colors th ! (p - 40))
     else if p = 49 then (f, default_bg th)
     else if p \<in> {90 .. 97} then (bright_colors th ! (p - 90), b)
     else if p \<in> {100 .. 107} then (f, bright_colors th ! (p - 100))
     else (f, b))"

fun screen_token :: "nat \<Rightarrow> nat \<Rightarrow> token \<Rightarrow> screen \<Rightarrow> screen" where
  "screen_token cols rows (Text c) s = screen_put cols rows c s"
| "screen_token cols rows (Sgr ps) s =
     (let (f, b) = fold (sgr_colors DEFAULT_THEME) ps (s_fg s, s_bg s) in s\<lparr>s_fg := f, s_bg := b\<rparr>)"

text \<open>The state the code keeps, and that it shows a screen.\<close>

definition args_ok :: "ansi_state \<Rightarrow> bool" where
  "args_ok st = (case st of Arg a \<Rightarrow> 1 \<le> unat (aa_count a) \<and> unat (aa_count a) \<le> 8 \<and> length (aa_args a) = 8 | _ \<Rightarrow> True)"

definition term_ok :: "terminal \<Rightarrow> bool" where
  "term_ok t \<longleftrightarrow> fb_ok (t_fb t) \<and> unat (cursor_x t) + 8 \<le> unat (fb_width (t_fb t)) \<and>
     unat (cursor_y t) + 10 \<le> unat (fb_height (t_fb t)) \<and> args_ok (ansi t)"

definition term_cols :: "terminal \<Rightarrow> nat" where
  "term_cols t = unat (fb_width (t_fb t)) div 8"

definition term_rows :: "terminal \<Rightarrow> nat" where
  "term_rows t = unat (fb_height (t_fb t)) div 10"

definition shows_screen :: "terminal \<Rightarrow> screen \<Rightarrow> bool" where
  "shows_screen t s \<longleftrightarrow> unat (cursor_x t) = 8 * s_col s \<and> unat (cursor_y t) = 10 * s_row s \<and>
     fg_color t = s_fg s \<and> bg_color t = s_bg s \<and>
     (\<forall>x y. x < stride (t_fb t) \<and> y < unat (fb_height (t_fb t)) \<longrightarrow>
        pixel (t_fb t) x y = screen_pixel (cells s) (blank s) x y)"

section \<open>Moving the cursor\<close>

definition newline_at :: "terminal \<Rightarrow> terminal" where
  "newline_at t =
     (let t1 = t\<lparr>cursor_x := 0, cursor_y := cursor_y t + 10\<rparr> in
      if cursor_y t1 + 10 > fb_height (t_fb t1) then terminal_scroll 1 t1 else t1)"

lemma put_char_eq:
  "put_char c t =
     (if c = 0x0A then Inr (newline_at t)
      else bind_res (draw_glyph (cursor_x t) (cursor_y t) c (fg_color t) (bg_color t) (t_fb t)) (\<lambda>fb.
        let t1 = t\<lparr>t_fb := fb, cursor_x := cursor_x t + 8\<rparr> in
        Inr (if cursor_x t1 + 8 > fb_width (t_fb t1) then newline_at t1 else t1)))"
  unfolding put_char_def newline_at_def Let_def ..

lemma cell_fits: "(i :: nat) + 1 < h div 10 \<longleftrightarrow> 10 * i + 20 \<le> h" "i + 1 < w div 8 \<longleftrightarrow> 8 * i + 16 \<le> w"
  using less_eq_div_iff_mult_less_eq[of 10 "i + 2" h] less_eq_div_iff_mult_less_eq[of 8 "i + 2" w] by auto

text \<open>Everything \<open>shows_screen\<close> says but the column.\<close>

definition shows_body :: "terminal \<Rightarrow> screen \<Rightarrow> bool" where
  "shows_body t s \<longleftrightarrow> unat (cursor_y t) = 10 * s_row s \<and> fg_color t = s_fg s \<and> bg_color t = s_bg s \<and>
     (\<forall>x y. x < stride (t_fb t) \<and> y < unat (fb_height (t_fb t)) \<longrightarrow>
        pixel (t_fb t) x y = screen_pixel (cells s) (blank s) x y)"

lemma shows_screen_body: "shows_screen t s \<longleftrightarrow> unat (cursor_x t) = 8 * s_col s \<and> shows_body t s"
  by (auto simp: shows_screen_def shows_body_def)

lemma fb_bounds:
  assumes "fb_ok fb" "8 \<le> unat (fb_width fb)"
  shows "unat (fb_height fb) < 1152921504606846976" "unat (fb_width fb) < 9223372036854775808"
    "8 \<le> stride fb" "stride fb < 4611686018427387904"
proof -
  show s: "8 \<le> stride fb" using assms by (simp add: fb_ok_def)
  have "8 * unat (fb_height fb) \<le> stride fb * unat (fb_height fb)" using s by (rule mult_le_mono1)
  moreover have "stride fb * unat (fb_height fb) < 9223372036854775808" using assms(1) by (simp add: fb_ok_def)
  ultimately show "unat (fb_height fb) < 1152921504606846976" by linarith
  show st: "stride fb < 4611686018427387904" using u64_bound[of "fb_pitch fb"] by (simp add: stride_def)
  then show "unat (fb_width fb) < 9223372036854775808" using assms(1) by (simp add: fb_ok_def)
qed

lemma cleared_ok:
  assumes "fb_ok (t_fb t)"
  shows "fb_ok (t_fb (terminal_clear t))" "stride (t_fb (terminal_clear t)) = stride (t_fb t)"
    "fb_height (t_fb (terminal_clear t)) = fb_height (t_fb t)" "fb_width (t_fb (terminal_clear t)) = fb_width (t_fb t)"
    "x < stride (t_fb t) \<Longrightarrow> y < unat (fb_height (t_fb t)) \<Longrightarrow> pixel (t_fb (terminal_clear t)) x y = bg_color t"
proof -
  show "fb_ok (t_fb (terminal_clear t))" "stride (t_fb (terminal_clear t)) = stride (t_fb t)"
    "fb_height (t_fb (terminal_clear t)) = fb_height (t_fb t)" "fb_width (t_fb (terminal_clear t)) = fb_width (t_fb t)"
    using assms by (simp_all add: terminal_clear_def fb_ok_def stride_def)
  assume "x < stride (t_fb t)" "y < unat (fb_height (t_fb t))"
  then have "y * stride (t_fb t) + x < length (fb_addr (t_fb t))" using pixel_index[OF assms] by blast
  then show "pixel (t_fb (terminal_clear t)) x y = bg_color t"
    by (simp add: pixel_def terminal_clear_def stride_def)
qed

lemma newline_refines:
  assumes ok: "fb_ok (t_fb t)" and w: "8 \<le> unat (fb_width (t_fb t))"
    and y: "unat (cursor_y t) + 10 \<le> unat (fb_height (t_fb t))" and a: "args_ok (ansi t)" and sh: "shows_body t s"
  shows "term_ok (newline_at t) \<and> shows_screen (newline_at t) (screen_newline (term_rows t) s) \<and>
    ansi (newline_at t) = ansi t \<and> fb_width (t_fb (newline_at t)) = fb_width (t_fb t) \<and>
    fb_height (t_fb (newline_at t)) = fb_height (t_fb t)"
proof -
  note b = fb_bounds[OF ok w]
  let ?H = "unat (fb_height (t_fb t))"
  have uy: "unat (cursor_y t + 10) = unat (cursor_y t) + 10" "unat (cursor_y t + 10 + 10) = unat (cursor_y t) + 20"
    using y b(1) by (simp_all add: word_nat)
  have row: "unat (cursor_y t) = 10 * s_row s" using sh by (simp add: shows_body_def)
  have test: "s_row s + 1 < term_rows t \<longleftrightarrow> \<not> cursor_y t + 10 + 10 > fb_height (t_fb t)"
    unfolding term_rows_def cell_fits word_less_nat_alt uy(2) row by auto
  show ?thesis
  proof (cases "s_row s + 1 < term_rows t")
    case True
    then have n: "newline_at t = t\<lparr>cursor_x := 0, cursor_y := cursor_y t + 10\<rparr>"
      using test by (simp add: newline_at_def Let_def)
    have "unat (cursor_y t) + 20 \<le> ?H" using True test uy(2) by (simp add: word_less_nat_alt)
    then have "term_ok (newline_at t)" using ok w a uy(1) by (simp add: term_ok_def n)
    then show ?thesis using True sh uy(1) row n by (simp add: shows_screen_body shows_body_def screen_newline_def)
  next
    case False
    let ?t = "t\<lparr>cursor_x := 0, cursor_y := cursor_y t + 10\<rparr>"
    have n: "newline_at t = (terminal_clear ?t)\<lparr>cursor_y := 0\<rparr>"
      using False test by (simp add: newline_at_def Let_def terminal_scroll_def)
    have ok': "fb_ok (t_fb ?t)" using ok by simp
    note c = cleared_ok[OF ok']
    have "term_ok (newline_at t)" using c(1,3,4) w y a by (simp add: term_ok_def n) (simp add: terminal_clear_def)
    moreover have "shows_screen (newline_at t) (screen_newline (term_rows t) s)"
      using False c(2,3,5) sh by (simp add: shows_screen_body shows_body_def screen_newline_def screen_clear_def n
          screen_pixel_def)
        (simp add: terminal_clear_def)
    ultimately show ?thesis using c(3,4) by (simp add: n) (simp add: terminal_clear_def)
  qed
qed

lemma cell_range:
  fixes a i :: nat
  shows "8 * i \<le> a \<and> a < 8 * i + 8 \<longleftrightarrow> a div 8 = i" "10 * i \<le> a \<and> a < 10 * i + 10 \<longleftrightarrow> a div 10 = i"
    "a div 8 = i \<Longrightarrow> a - 8 * i = a mod 8" "a div 10 = i \<Longrightarrow> a - 10 * i = a mod 10"
  using div_nat_eqI[of 8 i a] div_nat_eqI[of 10 i a] minus_mult_div_eq_mod[of a 8] minus_mult_div_eq_mod[of a 10]
    div_times_less_eq_dividend[of a 8] dividend_less_div_times[of 8 a]
    div_times_less_eq_dividend[of a 10] dividend_less_div_times[of 10 a]
  by (auto simp: mult.commute)

text \<open>Drawing a character puts it into the cell at the cursor and nowhere else.\<close>

lemma glyph_refines:
  assumes ok: "term_ok t" and sh: "shows_screen t s"
  obtains fb where "draw_glyph (cursor_x t) (cursor_y t) c (fg_color t) (bg_color t) (t_fb t) = Inr fb"
    "fb_ok fb" "fb_width fb = fb_width (t_fb t)" "fb_height fb = fb_height (t_fb t)"
    "\<forall>x y. x < stride fb \<and> y < unat (fb_height fb) \<longrightarrow> pixel fb x y =
       screen_pixel (if c < 128 then (cells s)(s_col s := (cells s (s_col s))(s_row s := Some (c, s_fg s, s_bg s))) else cells s)
         (blank s) x y"
proof (cases "c < 128")
  case True
  have fb: "fb_ok (t_fb t)" and x: "unat (cursor_x t) + 8 \<le> stride (t_fb t)"
    and y: "unat (cursor_y t) + 10 \<le> unat (fb_height (t_fb t))"
    using ok by (auto simp: term_ok_def fb_ok_def)
  have cur: "unat (cursor_x t) = 8 * s_col s" "unat (cursor_y t) = 10 * s_row s" "fg_color t = s_fg s" "bg_color t = s_bg s"
    using sh by (simp_all add: shows_screen_def)
  obtain fb' where fb': "draw_glyph (cursor_x t) (cursor_y t) c (fg_color t) (bg_color t) (t_fb t) = Inr fb'"
    "redrawn (t_fb t) (\<lambda>a b. if unat (cursor_x t) \<le> a \<and> a < unat (cursor_x t) + 8 \<and> unat (cursor_y t) \<le> b \<and>
       b < unat (cursor_y t) + 10 then cell_pixel c (fg_color t) (bg_color t) (a - unat (cursor_x t)) (b - unat (cursor_y t))
       else pixel (t_fb t) a b) fb'"
    by (rule draw_glyph_ok[OF fb x y True])
  note D = redrawnD[OF fb'(2)]
  have px: "pixel fb' a b = screen_pixel ((cells s)(s_col s := (cells s (s_col s))(s_row s := Some (c, s_fg s, s_bg s))))
      (blank s) a b" if ab: "a < stride (t_fb t)" "b < unat (fb_height (t_fb t))" for a b
  proof -
    have old: "pixel (t_fb t) a b = screen_pixel (cells s) (blank s) a b" using sh ab by (simp add: shows_screen_def)
    have inside: "(8 * s_col s \<le> a \<and> a < 8 * s_col s + 8 \<and> 10 * s_row s \<le> b \<and> b < 10 * s_row s + 10) =
        (a div 8 = s_col s \<and> b div 10 = s_row s)"
      using cell_range(1)[of "s_col s" a] cell_range(2)[of "s_row s" b] by blast
    have "pixel fb' a b = (if a div 8 = s_col s \<and> b div 10 = s_row s
        then cell_pixel c (s_fg s) (s_bg s) (a - 8 * s_col s) (b - 10 * s_row s) else pixel (t_fb t) a b)"
      using fb'(2) ab unfolding redrawn_def cur inside[symmetric] by blast
    then show ?thesis unfolding old
      by (cases "a div 8 = s_col s \<and> b div 10 = s_row s") (auto simp: cell_range(3,4) screen_pixel_def)
  qed
  show thesis
    by (rule that[OF fb'(1)]) (use D fb True px in simp_all)
next
  case False
  then have "draw_glyph (cursor_x t) (cursor_y t) c (fg_color t) (bg_color t) (t_fb t) = Inr (t_fb t)"
    by (simp add: draw_glyph_def linorder_not_less)
  then show thesis
    by (rule that) (use False ok sh in \<open>auto simp: term_ok_def shows_screen_def\<close>)
qed

lemma put_char_refines:
  assumes ok: "term_ok t" and sh: "shows_screen t s"
  obtains t' where "put_char c t = Inr t'" "term_ok t'" "shows_screen t' (screen_put (term_cols t) (term_rows t) c s)"
    "ansi t' = ansi t" "term_cols t' = term_cols t" "term_rows t' = term_rows t"
proof -
  have b: "fb_ok (t_fb t)" "8 \<le> unat (fb_width (t_fb t))" "unat (cursor_y t) + 10 \<le> unat (fb_height (t_fb t))"
      "args_ok (ansi t)" "unat (cursor_x t) + 8 \<le> unat (fb_width (t_fb t))"
    using ok by (auto simp: term_ok_def)
  have body: "shows_body t s" and x: "unat (cursor_x t) = 8 * s_col s" using sh by (simp_all add: shows_screen_body)
  show thesis
  proof (cases "c = 0x0A")
    case True
    then have "put_char c t = Inr (newline_at t)" "screen_put (term_cols t) (term_rows t) c s = screen_newline (term_rows t) s"
      by (simp_all add: put_char_eq screen_put_def)
    then show thesis using that newline_refines[OF b(1-4) body] by (simp add: term_cols_def term_rows_def)
  next
    case False
    obtain fb where fb: "draw_glyph (cursor_x t) (cursor_y t) c (fg_color t) (bg_color t) (t_fb t) = Inr fb"
      "fb_ok fb" "fb_width fb = fb_width (t_fb t)" "fb_height fb = fb_height (t_fb t)"
      "\<forall>x y. x < stride fb \<and> y < unat (fb_height fb) \<longrightarrow> pixel fb x y =
         screen_pixel (if c < 128 then (cells s)(s_col s := (cells s (s_col s))(s_row s := Some (c, s_fg s, s_bg s))) else cells s)
           (blank s) x y"
      by (rule glyph_refines[OF ok sh, of c])
    define s1 where "s1 = (if c < 128 then s\<lparr>cells := (cells s)(s_col s := (cells s (s_col s))(s_row s := Some (c, s_fg s, s_bg s)))\<rparr> else s)"
    let ?t1 = "t\<lparr>t_fb := fb, cursor_x := cursor_x t + 8\<rparr>"
    have s1: "s_col s1 = s_col s" "s_row s1 = s_row s" "s_fg s1 = s_fg s" "s_bg s1 = s_bg s" "blank s1 = blank s"
      "cells s1 = (if c < 128 then (cells s)(s_col s := (cells s (s_col s))(s_row s := Some (c, s_fg s, s_bg s))) else cells s)"
      by (simp_all add: s1_def)
    have body1: "shows_body ?t1 s1" using body fb(5) by (simp add: shows_body_def s1)
    have w: "unat (fb_width (t_fb t)) < 9223372036854775808" using fb_bounds(2)[OF b(1,2)] .
    have ux: "unat (cursor_x t + 8) = 8 * s_col s + 8" "unat (cursor_x t + 8 + 8) = 8 * s_col s + 16"
      using w b(5) x by (simp_all add: word_nat)
    have test: "s_col s + 1 < term_cols t \<longleftrightarrow> \<not> cursor_x t + 8 + 8 > fb_width (t_fb t)"
      unfolding term_cols_def cell_fits word_less_nat_alt ux(2) by auto
    have put: "put_char c t = Inr (if cursor_x t + 8 + 8 > fb_width (t_fb t) then newline_at ?t1 else ?t1)"
      using False fb(1,3) by (simp add: put_char_eq Let_def)
    show thesis
    proof (cases "s_col s + 1 < term_cols t")
      case True
      then have p: "put_char c t = Inr ?t1" using put test by simp
      have "unat (cursor_x t) + 16 \<le> unat (fb_width (t_fb t))" using True unfolding term_cols_def cell_fits x by simp
      then have "term_ok ?t1" using b fb(2-4) ux(1) x by (simp add: term_ok_def)
      moreover have "shows_screen ?t1 (screen_put (term_cols t) (term_rows t) c s)"
        using body1 True False ux(1) by (simp add: shows_screen_body shows_body_def screen_put_def Let_def s1_def)
      ultimately show thesis using that[OF p] fb(3,4) by (simp add: term_cols_def term_rows_def)
    next
      case wrap: False
      then have p: "put_char c t = Inr (newline_at ?t1)" using put test by simp
      have "term_ok (newline_at ?t1) \<and> shows_screen (newline_at ?t1) (screen_newline (term_rows ?t1) s1) \<and>
          ansi (newline_at ?t1) = ansi ?t1 \<and> fb_width (t_fb (newline_at ?t1)) = fb_width (t_fb ?t1) \<and>
          fb_height (t_fb (newline_at ?t1)) = fb_height (t_fb ?t1)"
        by (rule newline_refines) (use b fb(2-4) body1 in simp_all)
      moreover have "screen_put (term_cols t) (term_rows t) c s = screen_newline (term_rows ?t1) s1"
        using wrap False fb(4) by (simp add: screen_put_def Let_def s1_def term_rows_def)
      ultimately show thesis using that[OF p] fb(3,4) by (simp add: term_cols_def term_rows_def)
    qed
  qed
qed

section \<open>Colours\<close>

lemma theme_lengths:
  "length (colors DEFAULT_THEME) = 8" "length (bright_colors DEFAULT_THEME) = 8"
  by (simp_all add: DEFAULT_THEME_def TOKYO_NIGHT_THEME_def)

lemma sgr_slice:
  assumes "unat (lo :: usize) \<le> unat p" "unat p \<le> unat lo + 7" "length xs = 8"
  shows "slice_get xs (p - lo) = Inr (xs ! (unat p - unat lo))"
proof -
  have "unat (p - lo) = unat p - unat lo" using assms(1) by (rule unat_sub_u64)
  then show ?thesis using assms by (simp add: slice_get_def)
qed

lemma sgr_param_colors:
  "sgr_param p t = (case sgr_colors DEFAULT_THEME (unat p) (fg_color t, bg_color t) of
     (f, b) \<Rightarrow> Inr (t\<lparr>fg_color := f, bg_color := b\<rparr>))"
proof -
  have eq: "(p = w) = (unat p = unat w)" for w :: usize by (metis unat_eqI)
  note sl = sgr_slice[where p = p, OF _ _ theme_lengths(1)] sgr_slice[where p = p, OF _ _ theme_lengths(2)]
  note rng = sl[of 30] sl[of 40] sl[of 90] sl[of 100]
  consider "unat p = 0" | "30 \<le> unat p" "unat p \<le> 37" | "unat p = 39" | "40 \<le> unat p" "unat p \<le> 47" | "unat p = 49"
    | "90 \<le> unat p" "unat p \<le> 97" | "100 \<le> unat p" "unat p \<le> 107"
    | "unat p \<noteq> 0" "\<not> (30 \<le> unat p \<and> unat p \<le> 37)" "unat p \<noteq> 39" "\<not> (40 \<le> unat p \<and> unat p \<le> 47)"
      "unat p \<noteq> 49" "\<not> (90 \<le> unat p \<and> unat p \<le> 97)" "\<not> (100 \<le> unat p \<and> unat p \<le> 107)"
    by blast
  then show ?thesis
    by cases (auto simp: sgr_param_def sgr_colors_def eq word_le_nat_alt rng)
qed

lemma sgr_params_colors:
  assumes "\<forall>p \<in> set ps. p < 2 ^ 64"
  shows "for_res sgr_param (map word_of_nat ps) t = (case fold (sgr_colors DEFAULT_THEME) ps (fg_color t, bg_color t) of
     (f, b) \<Rightarrow> Inr (t\<lparr>fg_color := f, bg_color := b\<rparr>))"
  using assms
proof (induction ps arbitrary: t)
  case (Cons p ps)
  obtain f b where fb: "sgr_colors DEFAULT_THEME p (fg_color t, bg_color t) = (f, b)" by fastforce
  have "unat (word_of_nat p :: usize) = p" using Cons.prems by (simp add: word_nat)
  then have "sgr_param (word_of_nat p) t = Inr (t\<lparr>fg_color := f, bg_color := b\<rparr>)" using fb by (simp add: sgr_param_colors)
  then show ?case using Cons fb by simp
qed simp

section \<open>Escape sequences\<close>

lemma recv_digit:
  assumes d: "d < 10" and a: "ansi t = Arg a" "args_ok (ansi t)"
  shows "recv_byte (0x30 + word_of_nat d) t = Inr (t\<lparr>ansi := Arg (a\<lparr>aa_args :=
    (aa_args a)[unat (aa_count a) - 1 := aa_args a ! (unat (aa_count a) - 1) * 10 + word_of_nat d]\<rparr>)\<rparr>)"
proof -
  have ud: "unat (word_of_nat d :: u8) = d" using d by (simp add: unat_of_nat take_bit_eq_mod)
  have "unat (0x30 + word_of_nat d :: u8) = 48 + d" using d ud by (simp add: unat_word_ariths)
  then have c: "0x30 \<le> (0x30 + word_of_nat d :: u8)" "(0x30 + word_of_nat d :: u8) \<le> 0x39"
    using d by (simp_all add: word_le_nat_alt)
  have ids: "1 \<le> unat (aa_count a)" "unat (aa_count a) \<le> 8" "length (aa_args a) = 8"
    using a by (simp_all add: args_ok_def)
  have i: "unat (aa_count a - 1) = unat (aa_count a) - 1" using ids(1) by (simp add: unat_sub_u64)
  have uc: "ucast (word_of_nat d :: u8) = (word_of_nat d :: usize)"
  proof (rule unat_eqI)
    have "unat (ucast (word_of_nat d :: u8) :: usize) = d" using d ud
      by (simp add: unsigned_ucast_eq take_bit_nat_eq_self_iff)
    then show "unat (ucast (word_of_nat d :: u8) :: usize) = unat (word_of_nat d :: usize)" using d by (simp add: word_nat)
  qed
  show ?thesis using c a(1) ids i uc by (simp add: recv_byte_def Let_def)
qed

lemma recv_bytes_append: "recv_bytes (xs @ ys) t = bind_res (recv_bytes xs t) (recv_bytes ys)"
proof -
  have "recv_bytes zs = for_res recv_byte zs" for zs by (intro ext) (simp add: recv_bytes_def)
  then show ?thesis by (simp add: for_res_append)
qed

lemma recv_bytes_Cons: "recv_bytes (c # cs) t = bind_res (recv_byte c t) (recv_bytes cs)"
  using recv_bytes_append[of "[c]" cs t] by (simp add: recv_bytes_def) (cases "recv_byte c t"; simp)

lemma recv_decimal:
  assumes "ansi t = Arg a" "args_ok (ansi t)" "aa_args a ! (unat (aa_count a) - 1) = 0" "n < 2 ^ 64"
  shows "recv_bytes (dec_bytes n) t =
    Inr (t\<lparr>ansi := Arg (a\<lparr>aa_args := (aa_args a)[unat (aa_count a) - 1 := word_of_nat n]\<rparr>)\<rparr>)"
  using assms(4)
proof (induction n rule: dec_bytes.induct)
  case (1 n)
  have l: "unat (aa_count a) - 1 < length (aa_args a)" using assms(1,2) by (auto simp: args_ok_def)
  show ?case
  proof (cases "n < 10")
    case True
    then show ?thesis
      using recv_digit[OF True assms(1,2)] assms(3) by (subst dec_bytes.simps) (simp add: recv_bytes_def)
  next
    case False
    let ?a = "a\<lparr>aa_args := (aa_args a)[unat (aa_count a) - 1 := word_of_nat (n div 10)]\<rparr>"
    let ?t = "t\<lparr>ansi := Arg ?a\<rparr>"
    have hd': "recv_bytes (dec_bytes (n div 10)) t = Inr ?t" using 1 False by simp
    have ok: "args_ok (ansi ?t)" using assms(1,2) by (simp add: args_ok_def)
    have "word_of_nat (n div 10) * 10 + word_of_nat (n mod 10) = (word_of_nat (10 * (n div 10) + n mod 10) :: usize)"
      by (simp only: of_nat_add of_nat_mult of_nat_numeral mult.commute)
    then have v: "word_of_nat (n div 10) * 10 + word_of_nat (n mod 10) = (word_of_nat n :: usize)" by simp
    have "recv_byte (0x30 + word_of_nat (n mod 10)) ?t =
        Inr (t\<lparr>ansi := Arg (a\<lparr>aa_args := (aa_args a)[unat (aa_count a) - 1 := word_of_nat n]\<rparr>)\<rparr>)"
      using recv_digit[of "n mod 10" ?t ?a, OF _ _ ok] l v by simp
    then show ?thesis
      using False hd' by (subst dec_bytes.simps) (simp add: recv_bytes_append recv_bytes_Cons, simp add: recv_bytes_def)
  qed
qed

text \<open>The parameters of a sequence fill the argument array from the current one on.\<close>

lemma recv_params:
  assumes "ansi t = Arg a" "unat (aa_count a) = Suc k" "length (aa_args a) = 8" "k + length ps \<le> 8" "ps \<noteq> []"
    and "\<forall>p \<in> set ps. p < 2 ^ 64" "\<forall>i. k \<le> i \<and> i < 8 \<longrightarrow> aa_args a ! i = 0"
  shows "\<exists>a'. recv_bytes (params_bytes ps) t = Inr (t\<lparr>ansi := Arg a'\<rparr>) \<and> unat (aa_count a') = k + length ps \<and>
    length (aa_args a') = 8 \<and> take (k + length ps) (aa_args a') = take k (aa_args a) @ map word_of_nat ps"
  using assms
proof (induction ps arbitrary: t a k rule: params_bytes.induct)
  case (2 p)
  have ok: "args_ok (ansi t)" using 2 by (simp add: args_ok_def)
  have "recv_bytes (dec_bytes p) t = Inr (t\<lparr>ansi := Arg (a\<lparr>aa_args := (aa_args a)[k := word_of_nat p]\<rparr>)\<rparr>)"
    using recv_decimal[OF 2(1) ok] 2 by simp
  then show ?case
    using 2 by (intro exI[of _ "a\<lparr>aa_args := (aa_args a)[k := word_of_nat p]\<rparr>"]) (simp add: take_Suc_conv_app_nth)
next
  case (3 p q ps)
  have ok: "args_ok (ansi t)" using 3 by (simp add: args_ok_def)
  let ?a = "a\<lparr>aa_args := (aa_args a)[k := word_of_nat p]\<rparr>"
  let ?b = "?a\<lparr>aa_count := aa_count a + 1\<rparr>"
  have d: "recv_bytes (dec_bytes p) t = Inr (t\<lparr>ansi := Arg ?a\<rparr>)"
    using recv_decimal[OF 3(2) ok] 3 by simp
  have c: "unat (aa_count a + 1) = Suc (Suc k)" using 3 by (simp add: word_nat)
  have semi: "recv_byte 0x3B (t\<lparr>ansi := Arg ?a\<rparr>) = Inr (t\<lparr>ansi := Arg ?b\<rparr>)"
    using 3 by (simp add: recv_byte_def)
  have "\<exists>a'. recv_bytes (params_bytes (q # ps)) (t\<lparr>ansi := Arg ?b\<rparr>) = Inr ((t\<lparr>ansi := Arg ?b\<rparr>)\<lparr>ansi := Arg a'\<rparr>) \<and>
      unat (aa_count a') = Suc k + length (q # ps) \<and> length (aa_args a') = 8 \<and>
      take (Suc k + length (q # ps)) (aa_args a') = take (Suc k) (aa_args ?b) @ map word_of_nat (q # ps)"
    by (rule 3(1)) (use 3 c in simp_all)
  then obtain a' where a': "recv_bytes (params_bytes (q # ps)) (t\<lparr>ansi := Arg ?b\<rparr>) = Inr (t\<lparr>ansi := Arg a'\<rparr>)"
    "unat (aa_count a') = Suc k + length (q # ps)" "length (aa_args a') = 8"
    "take (Suc k + length (q # ps)) (aa_args a') = take (Suc k) (aa_args ?b) @ map word_of_nat (q # ps)" by auto
  have "recv_bytes (params_bytes (p # q # ps)) t = Inr (t\<lparr>ansi := Arg a'\<rparr>)"
    using d semi a'(1) by (simp add: recv_bytes_append recv_bytes_Cons)
  then show ?case using a'(2-4) 3 by (intro exI[of _ a']) (simp add: take_Suc_conv_app_nth)
qed simp

lemma recv_sgr:
  assumes g: "ansi t = Ground" and ok: "token_ok (Sgr ps)"
  shows "recv_bytes (token_bytes (Sgr ps)) t = (case fold (sgr_colors DEFAULT_THEME) ps (fg_color t, bg_color t) of
    (f, b) \<Rightarrow> Inr (t\<lparr>fg_color := f, bg_color := b\<rparr>))"
proof -
  let ?t = "t\<lparr>ansi := Arg ansi_args_default\<rparr>"
  have esc: "recv_bytes [0x1B, 0x5B] t = Inr ?t" using g by (simp add: recv_bytes_def recv_byte_def)
  have "\<exists>a'. recv_bytes (params_bytes ps) ?t = Inr (?t\<lparr>ansi := Arg a'\<rparr>) \<and> unat (aa_count a') = 0 + length ps \<and>
    length (aa_args a') = 8 \<and> take (0 + length ps) (aa_args a') = take 0 (aa_args ansi_args_default) @ map word_of_nat ps"
    by (rule recv_params) (use ok in \<open>simp_all add: ansi_args_default_def\<close>)
  then obtain a where a: "recv_bytes (params_bytes ps) ?t = Inr (t\<lparr>ansi := Arg a\<rparr>)" "unat (aa_count a) = length ps"
    "length (aa_args a) = 8" "take (length ps) (aa_args a) = map word_of_nat ps" by auto
  obtain f b where fb: "fold (sgr_colors DEFAULT_THEME) ps (fg_color t, bg_color t) = (f, b)" by fastforce
  have "for_res sgr_param (map word_of_nat ps) (t\<lparr>ansi := Arg a\<rparr>) = Inr (t\<lparr>ansi := Arg a, fg_color := f, bg_color := b\<rparr>)"
    using sgr_params_colors[of ps "t\<lparr>ansi := Arg a\<rparr>"] ok fb by simp
  then have "recv_byte 0x6D (t\<lparr>ansi := Arg a\<rparr>) = Inr (t\<lparr>fg_color := f, bg_color := b\<rparr>)"
    using a ok g by (simp add: recv_byte_def)
  then have "recv_bytes [0x6D] (t\<lparr>ansi := Arg a\<rparr>) = Inr (t\<lparr>fg_color := f, bg_color := b\<rparr>)" by (simp add: recv_bytes_def)
  then have "recv_bytes ([0x1B, 0x5B] @ params_bytes ps @ [0x6D]) t = Inr (t\<lparr>fg_color := f, bg_color := b\<rparr>)"
    by (simp only: recv_bytes_append esc a(1) bind_res.simps)
  then show ?thesis using fb by simp
qed

lemma recv_token:
  assumes ok: "term_ok t" and sh: "shows_screen t s" and g: "ansi t = Ground" and tok: "token_ok tok"
  shows "\<exists>t'. recv_bytes (token_bytes tok) t = Inr t' \<and> term_ok t' \<and>
    shows_screen t' (screen_token (term_cols t) (term_rows t) tok s) \<and> ansi t' = Ground \<and>
    term_cols t' = term_cols t \<and> term_rows t' = term_rows t"
proof (cases tok)
  case (Text c)
  have "recv_bytes [c] t = put_char c t"
    using g tok Text by (simp add: recv_bytes_def recv_byte_def) (cases "put_char c t"; simp)
  then show ?thesis using put_char_refines[OF ok sh, of c] g Text by (metis screen_token.simps(1) token_bytes.simps(1))
next
  case (Sgr ps)
  obtain f b where fb: "fold (sgr_colors DEFAULT_THEME) ps (fg_color t, bg_color t) = (f, b)" by fastforce
  have "s_fg s = fg_color t" "s_bg s = bg_color t" using sh by (simp_all add: shows_screen_def)
  then show ?thesis
    using recv_sgr[OF g] tok fb Sgr ok sh g
    by (auto simp: term_ok_def shows_screen_def term_cols_def term_rows_def)
qed

lemma recv_tokens:
  assumes "term_ok t" "shows_screen t s" "ansi t = Ground" "\<forall>tok \<in> set toks. token_ok tok"
  shows "\<exists>t'. recv_bytes (concat (map token_bytes toks)) t = Inr t' \<and> term_ok t' \<and>
    shows_screen t' (fold (screen_token (term_cols t) (term_rows t)) toks s) \<and> ansi t' = Ground"
  using assms
proof (induction toks arbitrary: t s)
  case Nil
  then show ?case by (simp add: recv_bytes_def)
next
  case (Cons tok toks)
  from recv_token[OF Cons.prems(1-3)] Cons.prems(4) obtain t1 where t1: "recv_bytes (token_bytes tok) t = Inr t1"
    "term_ok t1" "shows_screen t1 (screen_token (term_cols t) (term_rows t) tok s)" "ansi t1 = Ground"
    "term_cols t1 = term_cols t" "term_rows t1 = term_rows t" by auto
  from Cons.IH[OF t1(2-4)] Cons.prems(4) t1(1,5,6) show ?case by (auto simp: recv_bytes_append)
qed

section \<open>Any bytes\<close>

lemma start_shows:
  assumes "limine_ok lf"
  shows "term_ok (terminal_clear (terminal_new lf))" "shows_screen (terminal_clear (terminal_new lf)) screen_start"
    "ansi (terminal_clear (terminal_new lf)) = Ground"
    "term_cols (terminal_clear (terminal_new lf)) = unat (lf_width lf) div 8"
    "term_rows (terminal_clear (terminal_new lf)) = unat (lf_height lf) div 10"
proof -
  let ?t = "terminal_new lf"
  have "unat (lf_pitch lf div 4 * lf_height lf) = unat (lf_pitch lf) div 4 * unat (lf_height lf)"
    using assms by (subst unat_mult_u64) (simp_all add: unat_div limine_ok_def)
  then have fb: "fb_ok (t_fb ?t)"
    using assms by (simp add: fb_ok_def terminal_new_def framebuffer_from_def stride_def limine_ok_def)
  have dims: "fb_width (t_fb ?t) = lf_width lf" "fb_height (t_fb ?t) = lf_height lf" "ansi ?t = Ground"
      "fg_color ?t = default_fg DEFAULT_THEME" "bg_color ?t = default_bg DEFAULT_THEME"
    by (simp_all add: terminal_new_def framebuffer_from_def)
  have cl: "cursor_x (terminal_clear ?t) = 0" "cursor_y (terminal_clear ?t) = 0" "ansi (terminal_clear ?t) = Ground"
      "fg_color (terminal_clear ?t) = default_fg DEFAULT_THEME" "bg_color (terminal_clear ?t) = default_bg DEFAULT_THEME"
    by (simp_all add: terminal_clear_def dims)
  note c = cleared_ok[OF fb]
  show "term_ok (terminal_clear ?t)" using c(1,3,4) assms cl dims by (simp add: term_ok_def limine_ok_def args_ok_def)
  show "shows_screen (terminal_clear ?t) screen_start"
    using c(2,3,5) cl dims by (simp add: shows_screen_def screen_start_def screen_pixel_def)
  show "ansi (terminal_clear ?t) = Ground" by (rule cl(3))
  show "term_cols (terminal_clear ?t) = unat (lf_width lf) div 8" "term_rows (terminal_clear ?t) = unat (lf_height lf) div 10"
    using c(3,4) dims by (simp_all add: term_cols_def term_rows_def)
qed

lemma shows_ansi:
  "term_ok t \<Longrightarrow> shows_screen t s \<Longrightarrow> args_ok st \<Longrightarrow> term_ok (t\<lparr>ansi := st\<rparr>) \<and> shows_screen (t\<lparr>ansi := st\<rparr>) s"
  by (simp add: term_ok_def shows_screen_def)

lemma recv_byte_any:
  assumes ok: "term_ok t" and sh: "shows_screen t s"
  shows "\<exists>t' s'. recv_byte c t = Inr t' \<and> term_ok t' \<and> shows_screen t' s'"
proof (cases "ansi t")
  case Ground
  show ?thesis
  proof (cases "c = 0x1B")
    case True
    then show ?thesis using shows_ansi[OF ok sh, of Escape] Ground by (auto simp: recv_byte_def args_ok_def)
  next
    case False
    then show ?thesis using put_char_refines[OF ok sh, of c] Ground by (simp add: recv_byte_def) metis
  qed
next
  case Escape
  have "args_ok (Arg ansi_args_default)" "args_ok Ground" by (simp_all add: args_ok_def ansi_args_default_def)
  then show ?thesis using shows_ansi[OF ok sh] Escape by (cases "c = 0x5B") (auto simp: recv_byte_def)
next
  case (Arg a)
  have a: "1 \<le> unat (aa_count a)" "unat (aa_count a) \<le> 8" "length (aa_args a) = 8"
    using ok Arg by (simp_all add: term_ok_def args_ok_def)
  have i: "unat (aa_count a - 1) = unat (aa_count a) - 1" using a(1) by (simp add: unat_sub_u64)
  have upd: "args_ok (Arg (a\<lparr>aa_args := (aa_args a)[j := v]\<rparr>))" for j v using a by (simp add: args_ok_def)
  have inc: "args_ok (Arg (a\<lparr>aa_count := aa_count a + 1\<rparr>))" if "unat (aa_count a) < 8"
    using a that by (simp add: args_ok_def word_nat)
  consider "c \<ge> 0x30 \<and> c \<le> 0x39" | "\<not> (c \<ge> 0x30 \<and> c \<le> 0x39)" "c = 0x3B" | "c = 0x6D"
    | "\<not> (c \<ge> 0x30 \<and> c \<le> 0x39)" "c \<noteq> 0x3B" "c \<noteq> 0x6D" by blast
  then show ?thesis
  proof cases
    case 1
    then have "\<exists>v. recv_byte c t = Inr (t\<lparr>ansi := Arg (a\<lparr>aa_args := (aa_args a)[unat (aa_count a) - 1 := v]\<rparr>)\<rparr>)"
      using Arg a i by (simp add: recv_byte_def Let_def) (rule exI, rule refl)
    then show ?thesis using shows_ansi[OF ok sh upd] by blast
  next
    case 2
    then have "recv_byte c t = Inr (if unat (aa_count a) < 8 then t\<lparr>ansi := Arg (a\<lparr>aa_count := aa_count a + 1\<rparr>)\<rparr> else t)"
      using Arg a by (simp add: recv_byte_def)
    then show ?thesis using shows_ansi[OF ok sh inc] ok sh by (cases "unat (aa_count a) < 8") auto
  next
    case 3
    let ?ws = "take (unat (aa_count a)) (aa_args a)"
    obtain f b where fb: "fold (sgr_colors DEFAULT_THEME) (map unat ?ws) (fg_color t, bg_color t) = (f, b)" by fastforce
    have "for_res sgr_param (map word_of_nat (map unat ?ws)) t = Inr (t\<lparr>fg_color := f, bg_color := b\<rparr>)"
      using fb u64_bound by (subst sgr_params_colors) auto
    then have "for_res sgr_param ?ws t = Inr (t\<lparr>fg_color := f, bg_color := b\<rparr>)" by (simp add: comp_def)
    then have "recv_byte c t = Inr (t\<lparr>fg_color := f, bg_color := b, ansi := Ground\<rparr>)"
      using 3 Arg a by (simp add: recv_byte_def)
    moreover have "term_ok (t\<lparr>fg_color := f, bg_color := b, ansi := Ground\<rparr>)"
      "shows_screen (t\<lparr>fg_color := f, bg_color := b, ansi := Ground\<rparr>) (s\<lparr>s_fg := f, s_bg := b\<rparr>)"
      using ok sh by (simp_all add: term_ok_def shows_screen_def args_ok_def)
    ultimately show ?thesis by blast
  next
    case 4
    then have "recv_byte c t = Inr t" using Arg by (auto simp: recv_byte_def)
    then show ?thesis using ok sh by blast
  qed
qed

lemma recv_bytes_any:
  assumes "term_ok t" "shows_screen t s"
  shows "\<exists>t' s'. recv_bytes bs t = Inr t' \<and> term_ok t' \<and> shows_screen t' s'"
  using assms
proof (induction bs arbitrary: t s)
  case Nil
  then show ?case by (auto simp: recv_bytes_def)
next
  case (Cons c bs)
  obtain t1 s1 where "recv_byte c t = Inr t1" "term_ok t1" "shows_screen t1 s1" using recv_byte_any[OF Cons.prems] by blast
  then show ?case using Cons.IH by (simp add: recv_bytes_Cons)
qed

section \<open>Properties\<close>

text \<open>
  C10. The terminal refines a character grid: on a framebuffer of any usable size, text and
  colour sequences (of up to eight decimal parameters) sent to a fresh terminal make it show, in
  every pixel, the screen that writing the characters into the grid in those colours gives,
  line wrap, newline and the clearing at the bottom included.
\<close>

theorem terminal_refines_screen:
  assumes "limine_ok lf" "\<forall>tok \<in> set toks. token_ok tok"
  shows "\<exists>t'. recv_bytes (concat (map token_bytes toks)) (terminal_clear (terminal_new lf)) = Inr t' \<and>
    shows_screen t' (fold (screen_token (unat (lf_width lf) div 8) (unat (lf_height lf) div 10)) toks screen_start) \<and>
    ansi t' = Ground"
  using recv_tokens[OF start_shows(1-3)[OF assms(1)] assms(2)] start_shows(4,5)[OF assms(1)] by auto

theorem terminal_refines_screen_witness:
  "\<exists>t'. recv_bytes [0x1B, 0x5B, 0x33, 0x31, 0x6D, 0x41]
       (terminal_clear (terminal_new \<lparr>lf_memory = (\<lambda>_. 0), lf_width = 16, lf_height = 20, lf_pitch = 64\<rparr>)) = Inr t' \<and>
     shows_screen t' (screen_put 2 2 0x41 (screen_start\<lparr>s_fg := 0xF7768E\<rparr>))"
proof -
  let ?lf = "\<lparr>lf_memory = (\<lambda>_. 0), lf_width = 16, lf_height = 20, lf_pitch = 64\<rparr>"
  have lf: "limine_ok ?lf" by (simp add: limine_ok_def)
  have toks: "\<forall>tok \<in> set [Sgr [31], Text 0x41]. token_ok tok" by simp
  have bytes: "concat (map token_bytes [Sgr [31], Text 0x41]) = [0x1B, 0x5B, 0x33, 0x31, 0x6D, 0x41]"
    by (simp add: dec_bytes.simps)
  have "fold (screen_token 2 2) [Sgr [31], Text 0x41] screen_start = screen_put 2 2 0x41 (screen_start\<lparr>s_fg := 0xF7768E\<rparr>)"
    by (simp add: sgr_colors_def DEFAULT_THEME_def TOKYO_NIGHT_THEME_def screen_start_def)
  with terminal_refines_screen[OF lf toks] show ?thesis unfolding bytes by auto
qed

text \<open>
  C24. No byte stream can make the terminal panic: whatever bytes are sent, in whatever pieces of
  escape sequences, all pixels and parameters it writes are in bounds, its cursor stays on the
  screen and its parameter count between 1 and 8.
\<close>

theorem terminal_never_panics:
  assumes "limine_ok lf"
  shows "\<exists>t'. write_str bs (terminal_clear (terminal_new lf)) = Inr t' \<and> term_ok t'"
  unfolding write_str_def using recv_bytes_any[OF start_shows(1,2)[OF assms]] by blast

theorem terminal_never_panics_witness:
  "\<exists>t'. write_str [0x1B, 0x5B, 0x3B, 0x3B, 0x39, 0x4A, 0xFF, 0x0A]
       (terminal_clear (terminal_new \<lparr>lf_memory = (\<lambda>_. 0), lf_width = 16, lf_height = 20, lf_pitch = 64\<rparr>)) = Inr t'"
proof -
  let ?lf = "\<lparr>lf_memory = (\<lambda>_. 0), lf_width = 16, lf_height = 20, lf_pitch = 64\<rparr>"
  have lf: "limine_ok ?lf" by (simp add: limine_ok_def)
  from terminal_never_panics[OF lf] show ?thesis by blast
qed

text \<open>
  C25. Colour sequences round trip: sending the decimal form of at most eight parameters between
  \<open>ESC [\<close> and \<open>m\<close> has exactly the effect of the parameters in order on the two colours, moves
  no pixel and returns to the ground state.
\<close>

theorem sgr_round_trip:
  assumes "ansi t = Ground" "ps \<noteq> []" "length ps \<le> 8" "\<forall>p \<in> set ps. p < 2 ^ 64"
    and "fold (sgr_colors DEFAULT_THEME) ps (fg_color t, bg_color t) = (f, b)"
  shows "recv_bytes ([0x1B, 0x5B] @ params_bytes ps @ [0x6D]) t = Inr (t\<lparr>fg_color := f, bg_color := b\<rparr>)"
  using recv_sgr[of t ps] assms by simp

theorem sgr_round_trip_witness:
  "recv_bytes ([0x1B, 0x5B] @ [0x39, 0x31, 0x3B, 0x34, 0x34] @ [0x6D])
     (terminal_new \<lparr>lf_memory = (\<lambda>_. 0), lf_width = 16, lf_height = 20, lf_pitch = 64\<rparr>) =
   Inr ((terminal_new \<lparr>lf_memory = (\<lambda>_. 0), lf_width = 16, lf_height = 20, lf_pitch = 64\<rparr>)
     \<lparr>fg_color := 0xFF7A93, bg_color := 0x7AA2F7\<rparr>)"
proof -
  let ?t = "terminal_new \<lparr>lf_memory = (\<lambda>_. 0), lf_width = 16, lf_height = 20, lf_pitch = 64\<rparr>"
  have p: "params_bytes [91, 44] = [0x39, 0x31, 0x3B, 0x34, 0x34]" by (simp add: dec_bytes.simps)
  have "fold (sgr_colors DEFAULT_THEME) [91, 44] (fg_color ?t, bg_color ?t) = (0xFF7A93, 0x7AA2F7)"
    by (simp add: sgr_colors_def DEFAULT_THEME_def TOKYO_NIGHT_THEME_def)
  then show ?thesis using sgr_round_trip[of ?t "[91, 44]"] unfolding p by (simp add: terminal_new_def)
qed

text \<open>
  C34. A glyph is drawn exactly: inside the bounds, \<open>draw_glyph\<close> of one of the 128 characters
  paints the 8 by 10 cell at its position, foreground where the font has a bit and background
  elsewhere, and changes no other pixel; other byte values draw nothing.
\<close>

theorem draw_glyph_pixels:
  assumes "fb_ok fb" "unat x + 8 \<le> unat (fb_width fb)" "unat y + 10 \<le> unat (fb_height fb)"
  shows "\<exists>fb'. draw_glyph x y g f b fb = Inr fb' \<and> fb_ok fb' \<and>
    (\<forall>i j. i < stride fb \<and> j < unat (fb_height fb) \<longrightarrow> pixel fb' i j =
       (if g < 128 \<and> unat x \<le> i \<and> i < unat x + 8 \<and> unat y \<le> j \<and> j < unat y + 10
        then if 1 \<le> j - unat y \<and> j - unat y \<le> 8 \<and> glyph_bit g (j - unat y - 1) (i - unat x) then f else b
        else pixel fb i j))"
proof (cases "g < 128")
  case True
  have x: "unat x + 8 \<le> stride fb" using assms(1,2) by (simp add: fb_ok_def)
  obtain fb' where fb': "draw_glyph x y g f b fb = Inr fb'"
    "redrawn fb (\<lambda>i j. if unat x \<le> i \<and> i < unat x + 8 \<and> unat y \<le> j \<and> j < unat y + 10
       then cell_pixel g f b (i - unat x) (j - unat y) else pixel fb i j) fb'"
    by (rule draw_glyph_ok[OF assms(1) x assms(3) True])
  then show ?thesis
    using True assms(1) redrawnD(4)[OF fb'(2)] by (intro exI[of _ fb']) (simp add: redrawn_def cell_pixel_def)
next
  case False
  then have "draw_glyph x y g f b fb = Inr fb" by (auto simp: draw_glyph_def linorder_not_less)
  with False assms(1) show ?thesis by (intro exI[of _ fb]) auto
qed

theorem draw_glyph_pixels_witness:
  "\<exists>fb'. draw_glyph 0 0 0x21 7 0 \<lparr>fb_addr = replicate 80 0, fb_width = 8, fb_height = 10, fb_pitch = 32\<rparr> = Inr fb' \<and>
     pixel fb' 3 1 = 7 \<and> pixel fb' 0 1 = 0"
proof -
  let ?fb = "\<lparr>fb_addr = replicate 80 0, fb_width = 8, fb_height = 10, fb_pitch = 32\<rparr>"
  have ok: "fb_ok ?fb" "unat (0 :: usize) + 8 \<le> unat (fb_width ?fb)" "unat (0 :: usize) + 10 \<le> unat (fb_height ?fb)"
    "stride ?fb = 8" by (simp_all add: fb_ok_def stride_def)
  have "FONT_BITMAP_8X8 ! 264 = 0x18" by (simp add: FONT_BITMAP_8X8_def)
  then have bits: "glyph_bit 0x21 0 3" "\<not> glyph_bit 0x21 0 0" by (simp_all add: glyph_bit_def)
  from draw_glyph_pixels[OF ok(1-3), where g = "0x21" and f = "7" and b = "0"] obtain fb' where fb': "draw_glyph 0 0 0x21 7 0 ?fb = Inr fb'"
    "\<forall>i j. i < 8 \<and> j < 10 \<longrightarrow> pixel fb' i j =
       (if 1 \<le> j \<and> j \<le> 8 \<and> glyph_bit 0x21 (j - 1) i then 7 else 0)" using ok(4) by auto
  from fb'(2)[rule_format, of 3 1] fb'(2)[rule_format, of 0 1] bits have "pixel fb' 3 1 = 7" "pixel fb' 0 1 = 0"
    by simp_all
  with fb'(1) show ?thesis by blast
qed

text \<open>
  C39. Unsupported control sequences swallow text: after \<open>ESC [\<close> no byte draws anything until an
  \<open>m\<close> arrives, whatever final byte the sequence had; screen, cursor and colours stay as they are.
\<close>

theorem control_sequence_swallows_text:
  assumes "ansi t = Arg a" "args_ok (ansi t)" "0x6D \<notin> set bs"
  shows "\<exists>a'. recv_bytes bs t = Inr (t\<lparr>ansi := Arg a'\<rparr>) \<and> args_ok (Arg a')"
  using assms
proof (induction bs arbitrary: t a)
  case Nil
  then show ?case by (intro exI[of _ a]) (simp add: recv_bytes_def)
next
  case (Cons c bs)
  have a: "1 \<le> unat (aa_count a)" "unat (aa_count a) \<le> 8" "length (aa_args a) = 8"
    using Cons.prems(1,2) by (simp_all add: args_ok_def)
  have i: "unat (aa_count a - 1) = unat (aa_count a) - 1" using a(1) by (simp add: unat_sub_u64)
  have "\<exists>a'. recv_byte c t = Inr (t\<lparr>ansi := Arg a'\<rparr>) \<and> args_ok (Arg a')"
  proof -
    consider "c \<ge> 0x30 \<and> c \<le> 0x39" | "c = 0x3B" "unat (aa_count a) < 8"
      | "\<not> (c \<ge> 0x30 \<and> c \<le> 0x39)" "\<not> (c = 0x3B \<and> unat (aa_count a) < 8)" by blast
    then show ?thesis
    proof cases
      case 1
      let ?v = "aa_args a ! (unat (aa_count a) - 1) * 10 + ucast (c - 0x30)"
      show ?thesis
        by (rule exI[of _ "a\<lparr>aa_args := (aa_args a)[unat (aa_count a) - 1 := ?v]\<rparr>"])
          (use 1 Cons.prems(1) a i in \<open>simp add: recv_byte_def Let_def args_ok_def\<close>)
    next
      case 2
      then show ?thesis
        by (intro exI[of _ "a\<lparr>aa_count := aa_count a + 1\<rparr>"])
          (use Cons.prems(1) a in \<open>simp add: recv_byte_def args_ok_def word_nat\<close>)
    next
      case 3
      then show ?thesis
        by (intro exI[of _ a]) (use Cons.prems a in \<open>auto simp: recv_byte_def args_ok_def\<close>)
    qed
  qed
  then obtain a' where a': "recv_byte c t = Inr (t\<lparr>ansi := Arg a'\<rparr>)" "args_ok (Arg a')" by blast
  from Cons.IH[of "t\<lparr>ansi := Arg a'\<rparr>" a'] a' Cons.prems(3) show ?case by (simp add: recv_bytes_Cons)
qed

theorem control_sequence_swallows_text_witness:
  "\<exists>a'. recv_bytes [0x32, 0x4A, 0x68, 0x69, 0x0A]
      ((terminal_new \<lparr>lf_memory = (\<lambda>_. 0), lf_width = 16, lf_height = 20, lf_pitch = 64\<rparr>)\<lparr>ansi := Arg ansi_args_default\<rparr>) =
    Inr ((terminal_new \<lparr>lf_memory = (\<lambda>_. 0), lf_width = 16, lf_height = 20, lf_pitch = 64\<rparr>)\<lparr>ansi := Arg a'\<rparr>)"
proof -
  let ?t = "(terminal_new \<lparr>lf_memory = (\<lambda>_. 0), lf_width = 16, lf_height = 20, lf_pitch = 64\<rparr>)\<lparr>ansi := Arg ansi_args_default\<rparr>"
  have "ansi ?t = Arg ansi_args_default" "args_ok (ansi ?t)" "0x6D \<notin> set [0x32, 0x4A, 0x68, 0x69, 0x0A :: u8]"
    by (simp_all add: args_ok_def ansi_args_default_def)
  from control_sequence_swallows_text[OF this] show ?thesis by auto
qed

end
