(* ===== verification/Spinlock.thy ===== *)
theory Spinlock
  imports Prelude
begin

text \<open>
  Spin locks (src/src/sync/spinlock.rs) on several CPUs, as a transition system. \<open>lock\<close> is three
  steps, as in the code: read and clear the interrupt flag, then a compare-and-exchange that is
  repeated until it succeeds. Dropping a guard is two: release, then restore the flag. Between
  these steps the other CPUs move freely, and a CPU whose interrupt flag is set may be
  interrupted. Guards are values of nested scopes, so they are dropped in the reverse order of
  their creation. Memory is sequentially consistent here; the orderings \<open>Acquire\<close> and
  \<open>Release\<close> of the code are not distinguished.
\<close>

section \<open>State\<close>

text \<open>Locks and CPUs are numbered. What a CPU has open: guards, with the saved flag, and interrupts.\<close>

datatype item = Guard nat bool | Irq

datatype pc = Run | Spin nat bool | Dropping bool

record 'd lock_state =
  locked :: "nat \<Rightarrow> bool"
  lock_data :: "nat \<Rightarrow> 'd"
  irq_on :: "nat \<Rightarrow> bool"
  open_items :: "nat \<Rightarrow> item list"
  at_pc :: "nat \<Rightarrow> pc"

text \<open>\<open>SpinLock::new\<close> for every lock; \<open>flags\<close> are the interrupt flags at the start.\<close>

definition spinlock_new :: "(nat \<Rightarrow> 'd) \<Rightarrow> (nat \<Rightarrow> bool) \<Rightarrow> 'd lock_state" where
  "spinlock_new d flags = \<lparr>locked = (\<lambda>_. False), lock_data = d, irq_on = flags,
     open_items = (\<lambda>_. []), at_pc = (\<lambda>_. Run)\<rparr>"

section \<open>Operations\<close>

definition lock_begin :: "nat \<Rightarrow> nat \<Rightarrow> 'd lock_state \<Rightarrow> 'd lock_state" where
  "lock_begin c l s =
     (let interrupts_enabled = irq_on s c in
      s\<lparr>irq_on := (irq_on s)(c := False), at_pc := (at_pc s)(c := Spin l interrupts_enabled)\<rparr>)"

text \<open>One round of the loop: \<open>compare_exchange(false, true)\<close>; on success the guard is made.\<close>

definition lock_try :: "nat \<Rightarrow> nat \<Rightarrow> bool \<Rightarrow> 'd lock_state \<Rightarrow> 'd lock_state" where
  "lock_try c l saved s =
     (if locked s l then s
      else s\<lparr>locked := (locked s)(l := True), open_items := (open_items s)(c := Guard l saved # open_items s c),
             at_pc := (at_pc s)(c := Run)\<rparr>)"

definition unlock :: "nat \<Rightarrow> 'd lock_state \<Rightarrow> 'd lock_state" where
  "unlock l s = s\<lparr>locked := (locked s)(l := False)\<rparr>"

definition drop_begin :: "nat \<Rightarrow> nat \<Rightarrow> bool \<Rightarrow> 'd lock_state \<Rightarrow> 'd lock_state" where
  "drop_begin c l saved s =
     (let s1 = unlock l s in
      s1\<lparr>open_items := (open_items s1)(c := tl (open_items s1 c)), at_pc := (at_pc s1)(c := Dropping saved)\<rparr>)"

definition drop_end :: "nat \<Rightarrow> bool \<Rightarrow> 'd lock_state \<Rightarrow> 'd lock_state" where
  "drop_end c saved s =
     s\<lparr>irq_on := (if saved then (irq_on s)(c := True) else irq_on s), at_pc := (at_pc s)(c := Run)\<rparr>"

definition deref_data :: "nat \<Rightarrow> 'd lock_state \<Rightarrow> 'd" where
  "deref_data l s = lock_data s l"

definition deref_mut :: "nat \<Rightarrow> ('d \<Rightarrow> 'd) \<Rightarrow> 'd lock_state \<Rightarrow> 'd lock_state" where
  "deref_mut l f s = s\<lparr>lock_data := (lock_data s)(l := f (lock_data s l))\<rparr>"

text \<open>The locks that open guards belong to, the innermost first.\<close>

fun held :: "item list \<Rightarrow> nat list" where
  "held [] = []"
| "held (Guard l b # st) = l # held st"
| "held (Irq # st) = held st"

definition holds :: "'d lock_state \<Rightarrow> nat \<Rightarrow> nat \<Rightarrow> bool" where
  "holds s c l \<longleftrightarrow> l \<in> set (held (open_items s c))"

text \<open>A step of one CPU. A guard gives access to the data; the processor interrupts when it may.\<close>

inductive lock_step :: "nat \<Rightarrow> 'd lock_state \<Rightarrow> 'd lock_state \<Rightarrow> bool" for c where
  start: "at_pc s c = Run \<Longrightarrow> lock_step c s (lock_begin c l s)"
| attempt: "at_pc s c = Spin l b \<Longrightarrow> lock_step c s (lock_try c l b s)"
| access: "at_pc s c = Run \<Longrightarrow> holds s c l \<Longrightarrow> lock_step c s (deref_mut l f s)"
| release: "at_pc s c = Run \<Longrightarrow> open_items s c = Guard l b # st \<Longrightarrow> lock_step c s (drop_begin c l b s)"
| restore: "at_pc s c = Dropping b \<Longrightarrow> lock_step c s (drop_end c b s)"
| irq_enter: "irq_on s c \<Longrightarrow> lock_step c s (s\<lparr>irq_on := (irq_on s)(c := False),
    open_items := (open_items s)(c := Irq # open_items s c)\<rparr>)"
| irq_leave: "at_pc s c = Run \<Longrightarrow> open_items s c = Irq # st \<Longrightarrow>
    lock_step c s (s\<lparr>irq_on := (irq_on s)(c := True), open_items := (open_items s)(c := st)\<rparr>)"

inductive lock_reach :: "(nat \<Rightarrow> bool) \<Rightarrow> 'd lock_state \<Rightarrow> bool" for flags where
  init: "lock_reach flags (spinlock_new d flags)"
| more: "lock_reach flags s \<Longrightarrow> lock_step c s s' \<Longrightarrow> lock_reach flags s'"

inductive_cases lock_stepE: "lock_step c s s'"

section \<open>The invariant\<close>

text \<open>The interrupt flag that the open items of a CPU prescribe, and whether saved flags are right.\<close>

fun flag_of :: "bool \<Rightarrow> item list \<Rightarrow> bool" where
  "flag_of b [] = b"
| "flag_of b (x # st) = False"

fun flags_ok :: "bool \<Rightarrow> item list \<Rightarrow> bool" where
  "flags_ok b [] = True"
| "flags_ok b (Guard l saved # st) = (saved = flag_of b st \<and> flags_ok b st)"
| "flags_ok b (Irq # st) = (flag_of b st \<and> flags_ok b st)"

definition pc_ok :: "bool \<Rightarrow> bool \<Rightarrow> item list \<Rightarrow> pc \<Rightarrow> bool" where
  "pc_ok b irq st p \<longleftrightarrow>
     (case p of Run \<Rightarrow> irq = flag_of b st | Spin l saved \<Rightarrow> \<not> irq \<and> saved = flag_of b st
      | Dropping saved \<Rightarrow> \<not> irq \<and> saved = flag_of b st)"

definition lock_inv :: "(nat \<Rightarrow> bool) \<Rightarrow> 'd lock_state \<Rightarrow> bool" where
  "lock_inv flags s \<longleftrightarrow> (\<forall>l. locked s l \<longleftrightarrow> (\<exists>c. holds s c l)) \<and>
     (\<forall>l c d. holds s c l \<and> holds s d l \<longrightarrow> c = d) \<and>
     (\<forall>c. distinct (held (open_items s c))) \<and>
     (\<forall>c. flags_ok (flags c) (open_items s c) \<and> pc_ok (flags c) (irq_on s c) (open_items s c) (at_pc s c)) \<and>
     finite {c. open_items s c \<noteq> []}"

text \<open>CPU 0 holds lock 5; then CPU \<open>c\<close> asks for it. For closed instances.\<close>

definition sample_lock :: "nat lock_state" where
  "sample_lock = lock_try 0 5 True (lock_begin 0 5 (spinlock_new (\<lambda>_. 0) (\<lambda>_. True)))"

lemmas lock_op_defs = lock_begin_def lock_try_def unlock_def drop_begin_def drop_end_def deref_mut_def Let_def

lemma finite_opened:
  "finite {c. f c \<noteq> []} \<Longrightarrow> finite {c. (f(d := x)) c \<noteq> []}"
  by (rule finite_subset[of _ "insert d {c. f c \<noteq> []}"]) auto

text \<open>A step that leaves locks and open items alone keeps the invariant if its own CPU's flags are right.\<close>

lemma lock_inv_local:
  assumes inv: "lock_inv flags s" and same: "locked s' = locked s" "open_items s' = open_items s"
    and others: "\<And>d. d \<noteq> c \<Longrightarrow> irq_on s' d = irq_on s d \<and> at_pc s' d = at_pc s d"
    and own: "pc_ok (flags c) (irq_on s' c) (open_items s c) (at_pc s' c)"
  shows "lock_inv flags s'"
proof -
  have "holds s' = holds s" using same(2) by (intro ext) (simp add: holds_def)
  moreover have "pc_ok (flags d) (irq_on s' d) (open_items s' d) (at_pc s' d)" for d
    using inv own others[of d] same(2) by (cases "d = c") (auto simp: lock_inv_def)
  ultimately show ?thesis using inv same by (simp add: lock_inv_def)
qed

lemma lock_inv_start: "lock_inv flags (spinlock_new d flags)"
  by (simp add: lock_inv_def spinlock_new_def holds_def pc_ok_def)

lemma lock_inv_pc: "lock_inv flags s \<Longrightarrow> pc_ok (flags c) (irq_on s c) (open_items s c) (at_pc s c)"
  by (simp add: lock_inv_def)

lemma lock_inv_acquire:
  assumes inv: "lock_inv flags s" and p: "at_pc s c = Spin l b" and free: "\<not> locked s l"
  shows "lock_inv flags (lock_try c l b s)"
proof -
  let ?s = "lock_try c l b s"
  have none: "\<not> holds s d l" for d using inv free by (auto simp: lock_inv_def)
  have h: "holds ?s d m \<longleftrightarrow> holds s d m \<or> d = c \<and> m = l" for d m
    using free by (auto simp: lock_try_def holds_def)
  have items: "open_items ?s = (open_items s)(c := Guard l b # open_items s c)" "at_pc ?s = (at_pc s)(c := Run)"
      "irq_on ?s = irq_on s" "locked ?s = (locked s)(l := True)"
    using free by (simp_all add: lock_try_def)
  have sp: "\<not> irq_on s c \<and> b = flag_of (flags c) (open_items s c)"
    using lock_inv_pc[OF inv, of c] p by (simp add: pc_ok_def)
  have "\<forall>m. locked ?s m \<longleftrightarrow> (\<exists>d. holds ?s d m)" using inv h items(4) by (auto simp: lock_inv_def)
  moreover have "\<forall>m d e. holds ?s d m \<and> holds ?s e m \<longrightarrow> d = e" using inv h none by (auto simp: lock_inv_def)
  moreover have "\<forall>d. distinct (held (open_items ?s d))"
    using inv none[of c] items(1) by (auto simp: lock_inv_def holds_def)
  moreover have "\<forall>d. flags_ok (flags d) (open_items ?s d) \<and> pc_ok (flags d) (irq_on ?s d) (open_items ?s d) (at_pc ?s d)"
    using inv sp items(1-3) by (auto simp: lock_inv_def pc_ok_def)
  moreover have "finite {d. open_items ?s d \<noteq> []}"
    using inv unfolding items(1) by (intro finite_opened) (simp add: lock_inv_def)
  ultimately show ?thesis by (simp add: lock_inv_def)
qed

lemma lock_inv_release:
  assumes inv: "lock_inv flags s" and p: "at_pc s c = Run" and st: "open_items s c = Guard l b # st"
  shows "lock_inv flags (drop_begin c l b s)"
proof -
  let ?s = "drop_begin c l b s"
  have hc: "holds s c l" using st by (simp add: holds_def)
  then have only: "holds s d l \<Longrightarrow> d = c" for d using inv by (auto simp: lock_inv_def)
  have dist: "l \<notin> set (held st)" "distinct (held st)"
    using inv st by (auto simp: lock_inv_def dest: spec[of _ c])
  have items: "open_items ?s = (open_items s)(c := st)" "at_pc ?s = (at_pc s)(c := Dropping b)"
      "irq_on ?s = irq_on s" "locked ?s = (locked s)(l := False)"
    using st by (simp_all add: lock_op_defs)
  have h: "holds ?s d m \<longleftrightarrow> holds s d m \<and> m \<noteq> l" for d m
    using st dist(1) only[of d] items(1) by (cases "d = c") (auto simp: holds_def)
  have "\<forall>m. locked ?s m \<longleftrightarrow> (\<exists>d. holds ?s d m)" using inv h items(4) by (auto simp: lock_inv_def)
  moreover have "\<forall>m d e. holds ?s d m \<and> holds ?s e m \<longrightarrow> d = e" using inv h by (auto simp: lock_inv_def)
  moreover have "\<forall>d. distinct (held (open_items ?s d))" using inv dist(2) items(1) by (auto simp: lock_inv_def)
  moreover have "\<forall>d. flags_ok (flags d) (open_items ?s d) \<and> pc_ok (flags d) (irq_on ?s d) (open_items ?s d) (at_pc ?s d)"
  proof
    fix d
    have "flags_ok (flags d) (open_items s d) \<and> pc_ok (flags d) (irq_on s d) (open_items s d) (at_pc s d)"
      using inv by (simp add: lock_inv_def)
    then show "flags_ok (flags d) (open_items ?s d) \<and> pc_ok (flags d) (irq_on ?s d) (open_items ?s d) (at_pc ?s d)"
      using st p items(1-3) by (cases "d = c") (auto simp: pc_ok_def)
  qed
  moreover have "finite {d. open_items ?s d \<noteq> []}"
    using inv unfolding items(1) by (intro finite_opened) (simp add: lock_inv_def)
  ultimately show ?thesis by (simp add: lock_inv_def)
qed

text \<open>Interrupts are only taken with no guard open, and leaving one restores the flag.\<close>

lemma lock_inv_irq:
  assumes inv: "lock_inv flags s" and items: "open_items s' = (open_items s)(c := st)" "held st = held (open_items s c)"
    and rest: "locked s' = locked s" "at_pc s' = at_pc s" "\<And>d. d \<noteq> c \<Longrightarrow> irq_on s' d = irq_on s d"
    and own: "flags_ok (flags c) st" "pc_ok (flags c) (irq_on s' c) st (at_pc s c)"
  shows "lock_inv flags s'"
proof -
  have "holds s' = holds s" using items by (intro ext) (simp add: holds_def)
  moreover have "held (open_items s' d) = held (open_items s d)" for d using items by simp
  moreover have "flags_ok (flags d) (open_items s' d) \<and> pc_ok (flags d) (irq_on s' d) (open_items s' d) (at_pc s' d)" for d
    using inv items(1) rest own by (cases "d = c") (auto simp: lock_inv_def)
  moreover have "finite {d. open_items s' d \<noteq> []}"
    using inv unfolding items(1) by (intro finite_opened) (simp add: lock_inv_def)
  ultimately show ?thesis using inv rest(1) by (simp add: lock_inv_def)
qed

lemma lock_step_inv:
  assumes inv: "lock_inv flags s" and st: "lock_step c s s'"
  shows "lock_inv flags s'"
  using st
proof (cases rule: lock_step.cases)
  case (start l)
  have "pc_ok (flags c) (irq_on s c) (open_items s c) (at_pc s c)" using lock_inv_pc[OF inv] .
  then show ?thesis
    by (intro lock_inv_local[OF inv, of s' c]) (use start in \<open>auto simp: lock_op_defs pc_ok_def\<close>)
next
  case (attempt l b)
  then show ?thesis
    using inv lock_inv_acquire[OF inv attempt(2)] by (cases "locked s l") (simp_all add: lock_try_def)
next
  case (access l f)
  then show ?thesis
    using lock_inv_pc[OF inv, of c] by (intro lock_inv_local[OF inv, of s' c]) (simp_all add: deref_mut_def)
next
  case (release l b st)
  then show ?thesis using lock_inv_release[OF inv] by simp
next
  case (restore b)
  then show ?thesis
    using lock_inv_pc[OF inv, of c]
    by (intro lock_inv_local[OF inv, of s' c]) (auto simp: drop_end_def pc_ok_def)
next
  case irq_enter
  then have "at_pc s c = Run" "flag_of (flags c) (open_items s c)"
    using lock_inv_pc[OF inv, of c] by (auto simp: pc_ok_def split: pc.splits)
  then show ?thesis
    using inv irq_enter by (intro lock_inv_irq[OF inv, of s' c "Irq # open_items s c"]) (auto simp: lock_inv_def pc_ok_def)
next
  case (irq_leave st)
  have "flags_ok (flags c) (open_items s c)" using inv by (simp add: lock_inv_def)
  then have "flags_ok (flags c) st" "flag_of (flags c) st" using irq_leave(3) by simp_all
  then show ?thesis
    using irq_leave by (intro lock_inv_irq[OF inv, of s' c st]) (auto simp: pc_ok_def)
qed

lemma lock_reach_inv: "lock_reach flags s \<Longrightarrow> lock_inv flags s"
  by (induction rule: lock_reach.induct) (auto intro: lock_inv_start lock_step_inv)

text \<open>A step changes the items, the program point and the guarded data only of what its CPU owns.\<close>

lemma lock_step_other:
  assumes "lock_step c s s'" "d \<noteq> c"
  shows "open_items s' d = open_items s d" "at_pc s' d = at_pc s d"
  using assms by (auto elim!: lock_stepE simp: lock_op_defs)

lemma lock_step_data:
  assumes "lock_step c s s'" "lock_data s' l \<noteq> lock_data s l"
  shows "holds s c l"
  using assms by (auto elim!: lock_stepE simp: lock_op_defs split: if_splits)

lemma sample_lock_reach:
  "lock_reach (\<lambda>_. True) sample_lock" "holds sample_lock 0 5" "lock_reach (\<lambda>_. True) (lock_begin c 5 sample_lock)"
proof -
  let ?s0 = "spinlock_new (\<lambda>_. 0 :: nat) (\<lambda>_. True)"
  have "lock_reach (\<lambda>_. True) (lock_begin 0 5 ?s0)"
    by (rule lock_reach.more[OF lock_reach.init lock_step.start]) (simp add: spinlock_new_def)
  then show r: "lock_reach (\<lambda>_. True) sample_lock" unfolding sample_lock_def
    by (rule lock_reach.more[OF _ lock_step.attempt]) (simp add: lock_op_defs spinlock_new_def)
  show "holds sample_lock 0 5" by (simp add: sample_lock_def holds_def lock_op_defs spinlock_new_def)
  show "lock_reach (\<lambda>_. True) (lock_begin c 5 sample_lock)"
    by (rule lock_reach.more[OF r lock_step.start]) (simp add: sample_lock_def lock_op_defs spinlock_new_def)
qed

section \<open>Properties\<close>

text \<open>
  C11. Mutual exclusion: in every reachable state, with any number of CPUs, locks and nested
  interrupts, no lock is held by two CPUs or twice by one; and while a CPU holds a lock, no step
  of another CPU changes the data behind it or takes the lock away.
\<close>

theorem spinlock_mutual_exclusion:
  assumes "lock_reach flags s" "holds s c l"
  shows "distinct (held (open_items s c)) \<and> locked s l \<and> (\<forall>d. d \<noteq> c \<longrightarrow> \<not> holds s d l) \<and>
    (\<forall>d s'. d \<noteq> c \<and> lock_step d s s' \<longrightarrow> lock_data s' l = lock_data s l \<and> holds s' c l)"
proof -
  have inv: "lock_inv flags s" using lock_reach_inv assms(1) .
  then have only: "\<not> holds s d l" if "d \<noteq> c" for d using that assms(2) by (auto simp: lock_inv_def)
  have "lock_data s' l = lock_data s l \<and> holds s' c l" if "d \<noteq> c" "lock_step d s s'" for d s'
  proof
    show "lock_data s' l = lock_data s l" using lock_step_data[OF that(2)] only[OF that(1)] by blast
    show "holds s' c l" using lock_step_other(1)[OF that(2)] that(1) assms(2) by (auto simp: holds_def)
  qed
  then show ?thesis using inv only assms(2) by (auto simp: lock_inv_def)
qed

theorem spinlock_mutual_exclusion_witness:
  "locked sample_lock 5 \<and> \<not> holds sample_lock 1 5 \<and>
     lock_step 1 sample_lock (lock_begin 1 5 sample_lock) \<and> holds (lock_begin 1 5 sample_lock) 0 5"
proof -
  have "lock_step 1 sample_lock (lock_begin 1 5 sample_lock)"
    by (rule lock_step.start) (simp add: sample_lock_def lock_op_defs spinlock_new_def)
  then show ?thesis using spinlock_mutual_exclusion[OF sample_lock_reach(1,2)] by (metis one_neq_zero)
qed

text \<open>
  C20. A CPU that waits for or holds a lock has interrupts disabled, so no interrupt handler can
  spin on a lock of the code it interrupted; and when its last guard is dropped, outside of
  interrupts, the interrupt flag is what it was before the first lock.
\<close>

theorem spinlock_interrupts:
  assumes "lock_reach flags s"
  shows "(\<forall>l. holds s c l \<longrightarrow> \<not> irq_on s c) \<and> (\<forall>l b. at_pc s c = Spin l b \<longrightarrow> \<not> irq_on s c) \<and>
    (\<forall>st. open_items s c = Irq # st \<longrightarrow> held st = []) \<and>
    (open_items s c = [] \<and> at_pc s c = Run \<longrightarrow> irq_on s c = flags c)"
proof -
  have inv: "lock_inv flags s" using lock_reach_inv assms .
  have pc: "pc_ok (flags c) (irq_on s c) (open_items s c) (at_pc s c)" using lock_inv_pc[OF inv] .
  have fl: "flags_ok (flags c) (open_items s c)" using inv by (simp add: lock_inv_def)
  have "\<not> irq_on s c" if "open_items s c \<noteq> []"
    using pc that by (cases "open_items s c") (auto simp: pc_ok_def split: pc.splits)
  moreover have "held st = []" if "open_items s c = Irq # st" for st
    using fl that by (cases st) auto
  moreover have "open_items s c \<noteq> []" if "holds s c l" for l using that by (auto simp: holds_def)
  ultimately show ?thesis using pc by (auto simp: pc_ok_def)
qed

theorem spinlock_interrupts_witness: "\<not> irq_on sample_lock 0 \<and> irq_on sample_lock 1"
proof -
  have "open_items sample_lock 1 = []" "at_pc sample_lock 1 = Run"
    by (simp_all add: sample_lock_def lock_op_defs spinlock_new_def)
  then show ?thesis
    using spinlock_interrupts[OF sample_lock_reach(1), of 0] spinlock_interrupts[OF sample_lock_reach(1), of 1]
      sample_lock_reach(2) by blast
qed

text \<open>
  C21. No deadlock under a lock order. If every waiting CPU waits for a lock with a higher number
  than those it holds (as load balancing does, which locks ready queues in the order of the CPU
  identifiers), then whenever a CPU is blocked on a taken lock, some CPU that holds a lock is
  not blocked and can go on.
\<close>

theorem lock_order_no_deadlock:
  assumes "lock_reach flags s"
    and order: "\<forall>c l b. at_pc s c = Spin l b \<longrightarrow> (\<forall>h \<in> set (held (open_items s c)). h < l)"
    and blocked: "at_pc s c0 = Spin l0 b0" "locked s l0"
  shows "\<exists>c. held (open_items s c) \<noteq> [] \<and> (\<forall>l b. at_pc s c = Spin l b \<longrightarrow> \<not> locked s l)"
proof -
  have inv: "lock_inv flags s" using lock_reach_inv assms(1) .
  define W where "W = {l. locked s l \<and> (\<exists>c b. at_pc s c = Spin l b)}"
  have "W \<subseteq> (\<Union>c \<in> {c. open_items s c \<noteq> []}. set (held (open_items s c)))"
  proof
    fix l assume "l \<in> W"
    then obtain c where "l \<in> set (held (open_items s c))" using inv by (auto simp: W_def lock_inv_def holds_def)
    moreover from this have "open_items s c \<noteq> []" by auto
    ultimately show "l \<in> (\<Union>c \<in> {c. open_items s c \<noteq> []}. set (held (open_items s c)))" by blast
  qed
  then have fin: "finite W" using inv by (elim finite_subset) (auto simp: lock_inv_def)
  have "l0 \<in> W" using blocked by (auto simp: W_def)
  then have mx: "Max W \<in> W" "\<And>l. l \<in> W \<Longrightarrow> l \<le> Max W" using fin by (blast intro: Max_in Max_ge)+
  then obtain c where c: "holds s c (Max W)" using inv by (auto simp: W_def lock_inv_def)
  have "\<not> locked s l" if "at_pc s c = Spin l b" for l b
  proof
    assume "locked s l"
    then have "l \<in> W" using that by (auto simp: W_def)
    moreover have "Max W < l" using order that c by (auto simp: holds_def)
    ultimately show False using mx(2)[of l] by simp
  qed
  then show ?thesis using c by (intro exI[of _ c]) (auto simp: holds_def)
qed

theorem lock_order_no_deadlock_witness:
  "\<exists>c. held (open_items (lock_begin 1 5 sample_lock) c) \<noteq> []"
proof -
  let ?s = "lock_begin 1 5 sample_lock"
  have "at_pc ?s 1 = Spin 5 True" "locked ?s 5"
    "\<forall>c l b. at_pc ?s c = Spin l b \<longrightarrow> (\<forall>h \<in> set (held (open_items ?s c)). h < l)"
    by (simp_all add: sample_lock_def lock_op_defs spinlock_new_def)
  then show ?thesis using lock_order_no_deadlock[OF sample_lock_reach(3)] by blast
qed

text \<open>
  C30. The lock is not reentrant: a CPU that asks for a lock it already holds waits forever,
  whatever it and the other CPUs do.
\<close>

theorem relock_waits_forever:
  assumes "lock_reach flags s" "holds s c l" "at_pc s c = Spin l b" "lock_step d s s'"
  shows "lock_reach flags s' \<and> holds s' c l \<and> at_pc s' c = Spin l b"
proof (cases "d = c")
  case True
  have inv: "lock_inv flags s" using lock_reach_inv assms(1) .
  then have lk: "locked s l" "\<not> irq_on s c"
    using assms(2,3) lock_inv_pc[OF inv, of c] by (auto simp: lock_inv_def pc_ok_def)
  have "s' = s" using assms(4) unfolding True by (rule lock_stepE) (use lk assms(3) in \<open>auto simp: lock_try_def\<close>)
  then show ?thesis using assms by simp
next
  case False
  then have "open_items s' c = open_items s c" "at_pc s' c = at_pc s c" using lock_step_other[OF assms(4)] by auto
  then show ?thesis using assms lock_reach.more by (auto simp: holds_def)
qed

theorem relock_waits_forever_witness:
  "\<exists>s'. lock_step 0 (lock_begin 0 5 sample_lock) s' \<and> holds s' 0 5 \<and> at_pc s' 0 = Spin 5 False"
proof -
  let ?s = "lock_begin 0 5 sample_lock"
  have p: "at_pc ?s 0 = Spin 5 False" "holds ?s 0 5"
    by (simp_all add: sample_lock_def lock_op_defs spinlock_new_def holds_def)
  have st: "lock_step 0 ?s (lock_try 0 5 False ?s)" by (rule lock_step.attempt[OF p(1)])
  from relock_waits_forever[OF sample_lock_reach(3) p(2,1) st] st show ?thesis by blast
qed

end
