(* ===== verification/Console.thy ===== *)
theory Console
  imports Terminal Spinlock
begin

text \<open>
  The console (src/src/dev/console/mod.rs) and the panic handler (src/src/panic.rs): the global
  terminal behind its spin lock, \<open>log\<close>, the printing macros and the message of a panic.

  Formatting is the standard library's: the arguments of \<open>print!\<close> are the pieces of text, as
  bytes, that \<open>write_fmt\<close> hands to \<open>write_str\<close> one after the other.
\<close>

type_synonym console = "terminal option"
type_synonym arguments = "u8 list list"

definition GLOBAL_TERMINAL_new :: console where
  "GLOBAL_TERMINAL_new = None"

definition console_init :: "limine_framebuffer list option \<Rightarrow> console \<Rightarrow> bool \<times> console" where
  "console_init resp con =
     (case Option.bind resp (\<lambda>fbs. case fbs of [] \<Rightarrow> None | fb # _ \<Rightarrow> Some fb) of
        None \<Rightarrow> (False, con)
      | Some fb \<Rightarrow> let term = terminal_clear (terminal_new fb) in (True, Some term))"

definition write_fmt :: "arguments \<Rightarrow> terminal \<Rightarrow> terminal res" where
  "write_fmt args t = for_res write_str args t"

definition console_log :: "arguments \<Rightarrow> console \<Rightarrow> console res" where
  "console_log args con =
     (case con of
        None \<Rightarrow> Inr None
      | Some t \<Rightarrow> bind_res (write_fmt args t) (\<lambda>t'. Inr (Some t')))"

definition print_macro :: "arguments \<Rightarrow> console \<Rightarrow> console res" where
  "print_macro args = console_log args"

text \<open>\<open>println!\<close> without arguments (\<open>None\<close>) and with arguments.\<close>

definition println_macro :: "arguments option \<Rightarrow> console \<Rightarrow> console res" where
  "println_macro a = (case a of None \<Rightarrow> print_macro [[0x0A]] | Some args \<Rightarrow> console_log (args @ [[0x0A]]))"

text \<open>The bytes of an ASCII literal.\<close>

definition bytes_of :: "string \<Rightarrow> u8 list" where
  "bytes_of s = map of_char s"

record location =
  loc_file :: "u8 list"
  loc_line :: u32

definition panic_args :: "location option \<Rightarrow> arguments \<Rightarrow> arguments" where
  "panic_args loc message =
     (case loc of
        Some l \<Rightarrow> [0x1B # bytes_of ''[91mPANIC at '', loc_file l, bytes_of '':'', dec_bytes (unat (loc_line l)),
          0x1B # bytes_of ''[39m: ''] @ message
      | None \<Rightarrow> [[0x1B] @ bytes_of ''[91mPANIC'' @ [0x1B] @ bytes_of ''[39m: ''] @ message)"

text \<open>What the panic handler does before it idles for ever.\<close>

definition panic_handler :: "location option \<Rightarrow> arguments \<Rightarrow> console \<Rightarrow> console res" where
  "panic_handler loc message con = println_macro (Some (panic_args loc message)) con"

section \<open>Pieces and messages\<close>

lemma write_fmt_concat: "write_fmt args t = recv_bytes (concat args) t"
proof (induction args arbitrary: t)
  case Nil
  then show ?case by (simp add: write_fmt_def recv_bytes_def)
next
  case (Cons p args)
  then show ?case
    by (cases "recv_bytes p t") (simp_all add: write_fmt_def recv_bytes_append write_str_def)
qed

definition write_piece :: "u8 list \<Rightarrow> console \<Rightarrow> console res" where
  "write_piece p con = console_log [p] con"

lemma console_log_pieces: "console_log args con = for_res write_piece args con"
proof (induction args arbitrary: con)
  case Nil
  then show ?case by (cases con) (simp_all add: console_log_def write_fmt_def)
next
  case (Cons p args)
  show ?case
  proof (cases con)
    case None
    then show ?thesis using Cons.IH[of None] by (simp add: write_piece_def console_log_def)
  next
    case (Some t)
    show ?thesis
    proof (cases "write_str p t")
      case (Inl e)
      then show ?thesis using Some by (simp add: write_piece_def console_log_def write_fmt_def)
    next
      case (Inr t')
      then have "write_piece p con = Inr (Some t')" "console_log (p # args) con = console_log args (Some t')"
        using Some by (simp_all add: write_piece_def console_log_def write_fmt_def)
      then show ?thesis using Cons.IH[of "Some t'"] by simp
    qed
  qed
qed

lemma console_log_append: "console_log (xs @ ys) con = bind_res (console_log xs con) (console_log ys)"
  unfolding console_log_pieces[abs_def] by (rule for_res_append)

definition console_ok :: "console \<Rightarrow> bool" where
  "console_ok con \<longleftrightarrow> (\<forall>t. con = Some t \<longrightarrow> term_ok t \<and> (\<exists>s. shows_screen t s))"

lemma console_log_ok:
  assumes "console_ok con"
  shows "\<exists>con'. console_log args con = Inr con' \<and> console_ok con'"
proof (cases con)
  case None
  then show ?thesis by (simp add: console_log_def console_ok_def)
next
  case (Some t)
  then obtain s where "term_ok t" "shows_screen t s" using assms by (auto simp: console_ok_def)
  from recv_bytes_any[OF this, of "concat args"] show ?thesis
    using Some by (auto simp: console_log_def write_fmt_concat console_ok_def)
qed

lemma console_logs_ok:
  "console_ok con \<Longrightarrow> for_res console_log ms con = Inr con' \<Longrightarrow> console_ok con'"
proof (induction ms arbitrary: con)
  case (Cons m ms)
  then show ?case using console_log_ok[OF Cons.prems(1), of m] by auto
qed simp

lemma console_init_ok:
  "\<forall>fb \<in> set fbs. limine_ok fb \<Longrightarrow> console_ok (snd (console_init (Some fbs) None))"
  using start_shows(1,2) by (cases fbs) (auto simp: console_init_def console_ok_def)

text \<open>Text without escape characters, as tokens.\<close>

lemma token_bytes_text: "concat (map (token_bytes \<circ> Text) bs) = bs"
  by (induction bs) simp_all

lemma token_ok_text: "0x1B \<notin> set bs \<Longrightarrow> \<forall>tok \<in> set (map Text bs). token_ok tok"
  by auto

lemma dec_bytes_no_escape: "0x1B \<notin> set (dec_bytes n)"
proof (induction n rule: dec_bytes.induct)
  case (1 n)
  have d: "(0x30 :: u8) + word_of_nat k \<noteq> 0x1B" if "k < 10" for k
  proof -
    have "k \<in> {0,1,2,3,4,5,6,7,8,9}" using that by auto
    then show ?thesis by auto
  qed
  show ?case
  proof (cases "n < 10")
    case True
    then show ?thesis using d[of n] by (simp add: dec_bytes.simps)
  next
    case False
    then show ?thesis using 1 d[of "n mod 10"] by (subst dec_bytes.simps) auto
  qed
qed

lemma screen_put_fg: "s_fg (screen_put cols rows c s) = s_fg s"
  by (simp add: screen_put_def screen_newline_def screen_clear_def Let_def)

lemma screen_text_fg: "s_fg (fold (screen_token cols rows) (map Text bs) s) = s_fg s"
  by (induction bs arbitrary: s) (simp_all add: screen_put_fg)

section \<open>Printing from several CPUs\<close>

text \<open>
  \<open>log\<close> on several CPUs, piece by piece: the console lock is lock 0; \<open>ls_todo\<close> is what a CPU
  still has to write of its message, and \<open>ls_done\<close> lists the messages in the order in which
  their CPUs got the lock. A CPU outside of \<open>log\<close> takes any step of the lock machine that does
  not concern lock 0, other locks and interrupts included.
\<close>

record log_sys =
  ls_lock :: "console lock_state"
  ls_todo :: "nat \<Rightarrow> arguments"
  ls_done :: "arguments list"

inductive log_step :: "nat \<Rightarrow> log_sys \<Rightarrow> log_sys \<Rightarrow> bool" for c where
  call: "at_pc (ls_lock s) c = Run \<Longrightarrow> \<not> holds (ls_lock s) c 0 \<Longrightarrow>
    log_step c s (s\<lparr>ls_lock := lock_begin c 0 (ls_lock s), ls_todo := (ls_todo s)(c := args)\<rparr>)"
| attempt: "at_pc (ls_lock s) c = Spin 0 b \<Longrightarrow>
    log_step c s (s\<lparr>ls_lock := lock_try c 0 b (ls_lock s),
      ls_done := (if locked (ls_lock s) 0 then ls_done s else ls_done s @ [ls_todo s c])\<rparr>)"
| put: "at_pc (ls_lock s) c = Run \<Longrightarrow> open_items (ls_lock s) c = Guard 0 b # st \<Longrightarrow> ls_todo s c = p # ps \<Longrightarrow>
    write_piece p (lock_data (ls_lock s) 0) = Inr con \<Longrightarrow>
    log_step c s (s\<lparr>ls_lock := deref_mut 0 (\<lambda>_. con) (ls_lock s), ls_todo := (ls_todo s)(c := ps)\<rparr>)"
| leave: "at_pc (ls_lock s) c = Run \<Longrightarrow> open_items (ls_lock s) c = Guard 0 b # st \<Longrightarrow> ls_todo s c = [] \<Longrightarrow>
    log_step c s (s\<lparr>ls_lock := drop_begin c 0 b (ls_lock s)\<rparr>)"
| other: "\<not> holds (ls_lock s) c 0 \<Longrightarrow> (\<forall>b. at_pc (ls_lock s) c \<noteq> Spin 0 b) \<Longrightarrow>
    lock_step c (ls_lock s) L \<Longrightarrow> (\<forall>b. at_pc L c \<noteq> Spin 0 b) \<Longrightarrow>
    log_step c s (s\<lparr>ls_lock := L\<rparr>)"

definition log_start :: "(nat \<Rightarrow> bool) \<Rightarrow> console \<Rightarrow> log_sys" where
  "log_start flags con = \<lparr>ls_lock = spinlock_new (\<lambda>_. con) flags, ls_todo = (\<lambda>_. []), ls_done = []\<rparr>"

inductive log_reach :: "(nat \<Rightarrow> bool) \<Rightarrow> console \<Rightarrow> log_sys \<Rightarrow> bool" for flags con where
  log_init: "log_reach flags con (log_start flags con)"
| log_more: "log_reach flags con s \<Longrightarrow> log_step c s s' \<Longrightarrow> log_reach flags con s'"

inductive_cases log_stepE: "log_step c s s'"

text \<open>The console holds the messages logged so far, the last one as far as its CPU has written it.\<close>

definition log_inv :: "(nat \<Rightarrow> bool) \<Rightarrow> console \<Rightarrow> log_sys \<Rightarrow> bool" where
  "log_inv flags con s \<longleftrightarrow> lock_reach flags (ls_lock s) \<and>
     (if locked (ls_lock s) 0
      then \<exists>c ms dn con1. holds (ls_lock s) c 0 \<and> ls_done s = ms @ [dn @ ls_todo s c] \<and>
        for_res console_log ms con = Inr con1 \<and> console_log dn con1 = Inr (lock_data (ls_lock s) 0)
      else for_res console_log (ls_done s) con = Inr (lock_data (ls_lock s) 0))"

lemma log_step_lock: "log_step c s s' \<Longrightarrow> lock_step c (ls_lock s) (ls_lock s')"
  by (erule log_stepE) (auto intro: lock_step.intros simp: holds_def)

text \<open>A step that leaves lock 0, its holder and its data alone keeps what is known of the console.\<close>

lemma log_inv_same:
  assumes "log_inv flags con s" "lock_reach flags (ls_lock s')" "ls_done s' = ls_done s"
    and "locked (ls_lock s') 0 = locked (ls_lock s) 0" "lock_data (ls_lock s') 0 = lock_data (ls_lock s) 0"
    and "\<And>d. holds (ls_lock s) d 0 \<Longrightarrow> holds (ls_lock s') d 0 \<and> ls_todo s' d = ls_todo s d"
  shows "log_inv flags con s'"
  using assms by (auto simp: log_inv_def split: if_splits) metis

lemma other_locked:
  assumes reach: "lock_reach flags L" and st: "lock_step c L L'"
    and not: "\<not> holds L c 0" "\<forall>b. at_pc L c \<noteq> Spin 0 b"
  shows "locked L' 0 = locked L 0" "lock_data L' 0 = lock_data L 0" "holds L d 0 \<Longrightarrow> holds L' d 0"
proof -
  show "locked L' 0 = locked L 0"
    using st not by (auto elim!: lock_stepE simp: lock_op_defs holds_def split: if_splits)
  show "lock_data L' 0 = lock_data L 0" using lock_step_data[OF st] not(1) by blast
  show "holds L d 0 \<Longrightarrow> holds L' d 0"
    using lock_step_other(1)[OF st, of d] not(1) by (cases "d = c") (auto simp: holds_def)
qed

lemma log_step_inv:
  assumes inv: "log_inv flags con s" and st: "log_step c s s'"
  shows "log_inv flags con s'"
proof -
  have r: "lock_reach flags (ls_lock s)" using inv by (simp add: log_inv_def)
  have r': "lock_reach flags (ls_lock s')" using lock_reach.more[OF r log_step_lock[OF st]] .
  have li: "lock_inv flags (ls_lock s)" using lock_reach_inv[OF r] .
  have only: "d = c" if "holds (ls_lock s) c 0" "holds (ls_lock s) d 0" for d
    using li that by (auto simp: lock_inv_def)
  from st show ?thesis
  proof (cases rule: log_step.cases)
    case (call args)
    show ?thesis by (rule log_inv_same[OF inv r']) (use call in \<open>auto simp: lock_begin_def holds_def Let_def\<close>)
  next
    case (attempt b)
    show ?thesis
    proof (cases "locked (ls_lock s) 0")
      case True
      then show ?thesis using inv attempt by (simp add: lock_try_def)
    next
      case False
      then have d: "locked (ls_lock s') 0" "lock_data (ls_lock s') 0 = lock_data (ls_lock s) 0"
          "holds (ls_lock s') c 0" "ls_done s' = ls_done s @ [[] @ ls_todo s' c]"
        using attempt by (simp_all add: lock_try_def holds_def)
      have "for_res console_log (ls_done s) con = Inr (lock_data (ls_lock s) 0)"
        using inv False by (simp add: log_inv_def)
      moreover have "console_log [] k = Inr k" for k by (simp add: console_log_pieces)
      ultimately show ?thesis unfolding log_inv_def using d r' by auto
    qed
  next
    case (put b st p ps k)
    have h: "holds (ls_lock s) c 0" using put by (simp add: holds_def)
    then have lk: "locked (ls_lock s) 0" using li by (auto simp: lock_inv_def)
    then obtain ms dn k1 where m: "ls_done s = ms @ [dn @ p # ps]" "for_res console_log ms con = Inr k1"
        "console_log dn k1 = Inr (lock_data (ls_lock s) 0)"
      using inv only[OF h] put(4) by (auto simp: log_inv_def)
    have "console_log (dn @ [p]) k1 = Inr k" using m(3) put(5) by (simp add: console_log_append write_piece_def)
    moreover have "ls_done s' = ms @ [(dn @ [p]) @ ls_todo s' c]" using m(1) put by simp
    ultimately show ?thesis unfolding log_inv_def
      using r' m(2) put(1) lk h by (auto simp: deref_mut_def holds_def)
  next
    case (leave b st)
    have h: "holds (ls_lock s) c 0" using leave by (simp add: holds_def)
    then have lk: "locked (ls_lock s) 0" using li by (auto simp: lock_inv_def)
    then obtain ms dn k1 where "ls_done s = ms @ [dn]" "for_res console_log ms con = Inr k1"
        "console_log dn k1 = Inr (lock_data (ls_lock s) 0)"
      using inv only[OF h] leave(4) by (auto simp: log_inv_def)
    then have "for_res console_log (ls_done s) con = Inr (lock_data (ls_lock s) 0)" by (simp add: for_res_append)
    then show ?thesis unfolding log_inv_def using r' leave(1) by (auto simp: lock_op_defs)
  next
    case (other L)
    note o = other_locked[OF r other(4,2,3)]
    show ?thesis by (rule log_inv_same[OF inv r']) (use other o in auto)
  qed
qed

lemma log_reach_inv: "log_reach flags con s \<Longrightarrow> log_inv flags con s"
proof (induction rule: log_reach.induct)
  case log_init
  show ?case by (simp add: log_inv_def log_start_def lock_reach.init) (simp add: spinlock_new_def)
next
  case (log_more s c s')
  show ?case by (rule log_step_inv[OF log_more(3,2)])
qed

section \<open>Properties\<close>

text \<open>
  C12. Messages from different CPUs are never mixed: however the CPUs interleave, interrupts and
  other locks included, whenever the console lock is free the console is exactly what printing
  the whole messages one after the other, in the order in which the lock was taken, makes of it;
  while a CPU holds the lock, only a beginning of its own message is added. No piece that is
  written makes the terminal panic, so the lock is never left taken by a panic in \<open>log\<close>.
\<close>

theorem console_log_atomic:
  assumes "log_reach flags (snd (console_init (Some fbs) None)) s" "\<forall>fb \<in> set fbs. limine_ok fb"
  shows "(\<not> locked (ls_lock s) 0 \<longrightarrow>
      for_res console_log (ls_done s) (snd (console_init (Some fbs) None)) = Inr (lock_data (ls_lock s) 0)) \<and>
    (\<forall>c. holds (ls_lock s) c 0 \<longrightarrow> (\<exists>ms dn. ls_done s = ms @ [dn @ ls_todo s c] \<and>
      for_res console_log (ms @ [dn]) (snd (console_init (Some fbs) None)) = Inr (lock_data (ls_lock s) 0))) \<and>
    (\<forall>p. \<exists>con. write_piece p (lock_data (ls_lock s) 0) = Inr con)"
proof -
  let ?con = "snd (console_init (Some fbs) None)"
  have inv: "log_inv flags ?con s" using log_reach_inv[OF assms(1)] .
  then have li: "lock_inv flags (ls_lock s)" using lock_reach_inv by (auto simp: log_inv_def)
  have free: "for_res console_log (ls_done s) ?con = Inr (lock_data (ls_lock s) 0)" if "\<not> locked (ls_lock s) 0"
    using inv that by (simp add: log_inv_def)
  have taken: "\<exists>ms dn. ls_done s = ms @ [dn @ ls_todo s c] \<and>
      for_res console_log (ms @ [dn]) ?con = Inr (lock_data (ls_lock s) 0)" if "holds (ls_lock s) c 0" for c
  proof -
    have "locked (ls_lock s) 0" "\<And>d. holds (ls_lock s) d 0 \<Longrightarrow> d = c" using li that by (auto simp: lock_inv_def)
    then show ?thesis using inv by (auto simp: log_inv_def for_res_append)
  qed
  have "\<exists>ms. for_res console_log ms ?con = Inr (lock_data (ls_lock s) 0)"
    using free taken li unfolding lock_inv_def by metis
  then have "console_ok (lock_data (ls_lock s) 0)" using console_logs_ok[OF console_init_ok[OF assms(2)]] by blast
  then show ?thesis using free taken console_log_ok unfolding write_piece_def by blast
qed

theorem console_log_atomic_witness:
  "\<exists>s. log_reach (\<lambda>_. True) (snd (console_init (Some [\<lparr>lf_memory = (\<lambda>_. 0), lf_width = 16, lf_height = 20, lf_pitch = 64\<rparr>]) None)) s \<and>
     ls_done s = [[[0x41], [0x0A]]] \<and> holds (ls_lock s) 3 0 \<and> (\<exists>con. write_piece [0x41] (lock_data (ls_lock s) 0) = Inr con)"
proof -
  let ?lf = "\<lparr>lf_memory = (\<lambda>_. 0), lf_width = 16, lf_height = 20, lf_pitch = 64\<rparr>"
  let ?con = "snd (console_init (Some [?lf]) None)"
  let ?s0 = "log_start (\<lambda>_. True) ?con"
  let ?s1 = "?s0\<lparr>ls_lock := lock_begin 3 0 (ls_lock ?s0), ls_todo := (ls_todo ?s0)(3 := [[0x41], [0x0A]])\<rparr>"
  let ?s2 = "?s1\<lparr>ls_lock := lock_try 3 0 True (ls_lock ?s1),
    ls_done := (if locked (ls_lock ?s1) 0 then ls_done ?s1 else ls_done ?s1 @ [ls_todo ?s1 3])\<rparr>"
  have lf: "\<forall>fb \<in> set [?lf]. limine_ok fb" by (simp add: limine_ok_def)
  have "log_step 3 ?s0 ?s1"
    by (rule log_step.call) (simp_all add: log_start_def spinlock_new_def holds_def)
  moreover have "log_step 3 ?s1 ?s2"
    by (rule log_step.attempt) (simp add: log_start_def spinlock_new_def lock_begin_def)
  ultimately have r: "log_reach (\<lambda>_. True) ?con ?s2" by (meson log_init log_more)
  have d: "ls_done ?s2 = [[[0x41], [0x0A]]]" "holds (ls_lock ?s2) 3 0"
    by (simp_all add: log_start_def spinlock_new_def lock_op_defs holds_def)
  from console_log_atomic[OF r lf] r d show ?thesis by blast
qed

text \<open>
  C26. The message of a panic: on a terminal that shows a screen and is not inside an escape
  sequence, the panic handler adds \<open>PANIC at file:line\<close> in bright red, then, in the default
  colour, the message of the panic and a newline.
\<close>

theorem panic_message_shown:
  assumes "term_ok t" "shows_screen t s" "ansi t = Ground"
    and "0x1B \<notin> set (loc_file l)" "0x1B \<notin> set (concat message)"
  shows "\<exists>t'. panic_handler (Some l) message (Some t) = Inr (Some t') \<and>
    shows_screen t' (fold (screen_token (term_cols t) (term_rows t))
      (Sgr [91] # map Text (bytes_of ''PANIC at '' @ loc_file l @ bytes_of '':'' @ dec_bytes (unat (loc_line l))) @
       Sgr [39] # map Text (bytes_of '': '' @ concat message @ [0x0A])) s) \<and> ansi t' = Ground"
proof -
  let ?a = "bytes_of ''PANIC at '' @ loc_file l @ bytes_of '':'' @ dec_bytes (unat (loc_line l))"
  let ?b = "bytes_of '': '' @ concat message @ [0x0A]"
  let ?toks = "Sgr [91] # map Text ?a @ Sgr [39] # map Text ?b"
  have bytes: "concat (map token_bytes ?toks) = concat (panic_args (Some l) message @ [[0x0A]])"
    by (simp add: panic_args_def token_bytes_text bytes_of_def dec_bytes.simps[of 91] dec_bytes.simps[of 9]
        dec_bytes.simps[of 39] dec_bytes.simps[of 3])
  have "0x1B \<notin> set ?a" "0x1B \<notin> set ?b" using assms(4,5) dec_bytes_no_escape by (auto simp: bytes_of_def)
  then have ok: "\<forall>tok \<in> set ?toks. token_ok tok" by auto
  from recv_tokens[OF assms(1-3) ok] show ?thesis
    unfolding bytes by (auto simp: panic_handler_def println_macro_def console_log_def write_fmt_concat)
qed

theorem panic_message_shown_witness:
  "\<exists>t'. panic_handler (Some \<lparr>loc_file = bytes_of ''a.rs'', loc_line = 7\<rparr>) [bytes_of ''x'']
       (snd (console_init (Some [\<lparr>lf_memory = (\<lambda>_. 0), lf_width = 16, lf_height = 20, lf_pitch = 64\<rparr>]) None)) = Inr (Some t') \<and>
     fg_color t' = 0xC0C0C0 \<and> ansi t' = Ground"
proof -
  let ?lf = "\<lparr>lf_memory = (\<lambda>_. 0), lf_width = 16, lf_height = 20, lf_pitch = 64\<rparr>"
  let ?t = "terminal_clear (terminal_new ?lf)"
  let ?l = "\<lparr>loc_file = bytes_of ''a.rs'', loc_line = 7\<rparr>"
  have lf: "limine_ok ?lf" by (simp add: limine_ok_def)
  have con: "snd (console_init (Some [?lf]) None) = Some ?t" by (simp add: console_init_def)
  have esc: "0x1B \<notin> set (loc_file ?l)" "0x1B \<notin> set (concat [bytes_of ''x''])" by (simp_all add: bytes_of_def)
  from panic_message_shown[OF start_shows(1-3)[OF lf] esc] obtain t' where
    t': "panic_handler (Some ?l) [bytes_of ''x''] (Some ?t) = Inr (Some t')" "ansi t' = Ground"
      "fg_color t' = s_fg (fold (screen_token (term_cols ?t) (term_rows ?t))
        (map Text (bytes_of '': '' @ concat [bytes_of ''x''] @ [0x0A])) (screen_token (term_cols ?t) (term_rows ?t) (Sgr [39])
        (fold (screen_token (term_cols ?t) (term_rows ?t)) (map Text (bytes_of ''PANIC at '' @ loc_file ?l @ bytes_of '':'' @
          dec_bytes (unat (loc_line ?l)))) (screen_token (term_cols ?t) (term_rows ?t) (Sgr [91]) screen_start))))"
    by (auto simp: shows_screen_def)
  then have "fg_color t' = 0xC0C0C0" unfolding screen_text_fg
    by (simp add: sgr_colors_def DEFAULT_THEME_def TOKYO_NIGHT_THEME_def case_prod_unfold)
  with t'(1,2) show ?thesis unfolding con by blast
qed

end
