(* ===== verification/Boot.thy ===== *)
theory Boot
  imports Vmm Descriptors Console
begin

text \<open>
  Start-up: \<open>kmain\<close> on the boot CPU (src/src/main.rs) and \<open>common_entry\<close> on every CPU
  (src/src/arch/x86_64/init.rs). The responses of the bootloader (src/src/boot/requests.rs) are
  the fields of \<open>limine\<close>; sizes, addresses of functions and what the hardware returns are those
  of \<open>cpu_env\<close>.
\<close>

section \<open>What start-up is given\<close>

record limine_cpu =
  lc_id :: u32
  lc_lapic_id :: u32



record ('g, 'e) cpu_env =
  ce_x86 :: x86_crate
  ce_gdt :: "'g gdt_crate"
  ce_idt :: "'e idt_crate"
  ce_tls_size :: usize
  ce_gdt_size :: usize
  ce_idt_size :: usize
  ce_idle_entry :: u64
  ce_handlers :: handlers
  ce_thread_address :: "thread_ptr \<Rightarrow> u64"
  ce_lapic_read :: "u64 \<Rightarrow> u32"
  ce_apic_base :: u64
  ce_gs_reload :: u64

section \<open>Bringing up a CPU\<close>

definition starting_msg :: "limine_cpu \<Rightarrow> string" where
  "starting_msg c = ''CPU '' @ show_dec (unat (lc_id c)) @ '' (lapic_id: '' @ show_dec (unat (lc_lapic_id c)) @ '') starting up''"

text \<open>\<open>regs\<close> are the registers with which the bootloader enters the function.\<close>

definition common_entry ::
  "('g, 'e) cpu_env \<Rightarrow> limine_cpu \<Rightarrow> cpu_regs \<Rightarrow> ('g, 'e) boot_state \<Rightarrow> (machine \<times> ('g, 'e) boot_state) res" where
  "common_entry E cpu regs st =
     (let st0 = st\<lparr>bs_kernel := println (starting_msg cpu) (bs_kernel st)\<rparr> in
      bind_res (setup_tls (ce_x86 E) (ce_tls_size E) (ce_idle_entry E) (lc_id cpu) (bs_kernel st0)) (\<lambda>(gs, k1).
      let st1 = st0\<lparr>bs_kernel := k1, bs_hw := (bs_hw st0)\<lparr>hw_gs_base := gs\<rparr>\<rparr> in
      bind_res (setup_gdt (ce_x86 E) (ce_gdt E) (ce_gdt_size E) (ce_gs_reload E) st1) (\<lambda>st2.
      bind_res (setup_idt (ce_x86 E) (ce_idt E) (ce_idt_size E) (ce_handlers E) st2) (\<lambda>st3.
      bind_res (setup_lapic_timer (ce_x86 E) (ce_lapic_read E) (ce_apic_base E) (bs_kernel st3)) (\<lambda>k4.
      bind_res (force_switch_to_idle (ce_thread_address E) (hw_gs_base (bs_hw st3))
        \<lparr>m_regs = regs, m_kernel = k4, rax_ptr = NullThread\<rparr>) (\<lambda>m.
      Inr (m, st3\<lparr>bs_kernel := m_kernel m\<rparr>)))))))"

section \<open>The boot CPU\<close>





section \<open>Lemmas\<close>


text \<open>What \<open>force_switch_to_idle\<close> runs: the frame that \<open>setup_tls\<close> put on the idle stack.\<close>

lemma force_switch_run:
  assumes "k_tls (m_kernel m) gs = Some cpu"
    and "read_words (k_ram (m_kernel m)) (th_regs (idle_thread cpu)) 20 = regs_words r"
  shows "force_switch_to_idle taddr gs m = Inr (m\<lparr>m_regs := r,
    m_kernel := (m_kernel m)\<lparr>k_tls := (k_tls (m_kernel m))(gs \<mapsto> cpu\<lparr>thread_addr := IdleThread gs\<rparr>)\<rparr>\<rparr>)"
proof -
  let ?k = "(m_kernel m)\<lparr>k_tls := (k_tls (m_kernel m))(gs \<mapsto> cpu\<lparr>thread_addr := IdleThread gs\<rparr>)\<rparr>"
  let ?m = "m\<lparr>m_kernel := ?k, m_regs := (m_regs m)\<lparr>rsp := th_regs (idle_thread cpu)\<rparr>\<rparr>"
  have "run taddr gs (Mov_rsp (th_regs (idle_thread cpu)) # pop_asm) (m\<lparr>m_kernel := ?k\<rparr>) = run taddr gs pop_asm ?m"
    by (simp add: run_def)
  then show ?thesis
    using assms by (simp add: force_switch_to_idle_def current_cpu_def enter_idle_def pop_asm_run regs_of_words_inverse)
qed

lemma tables_reach:
  assumes r: "reachable X sz e k" and cpu: "k_tls k gs = Some cpu"
    and al: "\<exists>r. alloc_frames X (k_mem k) 1 = Inr (r, m1)" "\<exists>r. alloc_frames X m1 1 = Inr (r, m2)"
  shows "reachable X sz e (k\<lparr>k_mem := m2, k_tls := (k_tls k)(gs \<mapsto> cpu\<lparr>gdt_addr := a, idt_addr := b\<rparr>)\<rparr>)"
proof -
  have "reachable X sz e (k\<lparr>k_mem := m1\<rparr>)" using al(1) reachable.step[OF r sched_step.alloc] by blast
  moreover obtain r2 where "alloc_frames X (k_mem (k\<lparr>k_mem := m1\<rparr>)) 1 = Inr (r2, m2)" using al(2) by auto
  ultimately have "reachable X sz e (k\<lparr>k_mem := m1\<rparr>\<lparr>k_mem := m2\<rparr>)" by (rule reachable.step[OF _ sched_step.alloc])
  then have "reachable X sz e (k\<lparr>k_mem := m2\<rparr>)" by simp
  from reachable.step[OF this sched_step.descriptors[where gs = gs and cpu = cpu and g = a and i = b]] cpu
  show ?thesis by simp
qed

lemma lapic_timer_ok:
  assumes "x86_ok X" "lapic_mapped (k_mem k) msr"
  obtains ws where "setup_lapic_timer X rd msr k = Inr (k\<lparr>k_mmio := k_mmio k @ ws\<rparr>)" "length ws = 4"
    "reachable X sz e k \<Longrightarrow> reachable X sz e (k\<lparr>k_mmio := k_mmio k @ ws\<rparr>)"
proof -
  let ?l = "\<lparr>lapic_address = lapic_phys_addr msr + HHDM_OFFSET (k_mem k)\<rparr>"
  let ?svr = "lapic_read rd ?l 0xf0 OR push_bit 8 1"
  let ?k' = "lapic_write ?l 0x380 0x0fff (lapic_write ?l 0x320 32 (lapic_write ?l 0x3e0 3 (lapic_write ?l 0xf0 ?svr k)))"
  obtain ws where k': "?k' = k\<lparr>k_mmio := k_mmio k @ ws\<rparr>" "length ws = 4" by (simp add: lapic_write_def)
  have "setup_lapic_timer X rd msr k = Inr ?k'"
    by (simp add: setup_lapic_timer_def current_lapic_ok[OF assms] Let_def)
  moreover have "reachable X sz e ?k'" if "reachable X sz e k" by (meson that reachable.step sched_step.device)
  ultimately show thesis using that k' by metis
qed

text \<open>The requirements on what start-up is given.\<close>

definition env_ok :: "('g, 'e) cpu_env \<Rightarrow> bool" where
  "env_ok E \<longleftrightarrow> x86_ok (ce_x86 E) \<and> gdt_ok (ce_gdt E) \<and> idt_ok (ce_idt E) \<and>
     ce_tls_size E \<le> 4096 \<and> ce_gdt_size E < 4096 \<and> ce_idt_size E = 4096"

abbreviation env_reachable :: "('g, 'e) cpu_env \<Rightarrow> kernel \<Rightarrow> bool" where
  "env_reachable E \<equiv> reachable (ce_x86 E) (ce_tls_size E) (ce_idle_entry E)"

lemma common_entry_ok:
  assumes E: "env_ok E" and r: "env_reachable E (bs_kernel st)" and id: "unat (lc_id c) < 256"
    and free: "4 \<le> card (mem_free (k_mem (bs_kernel st)))" and l: "lapic_mapped (k_mem (bs_kernel st)) (ce_apic_base E)"
  obtains m st' cpu sp where "common_entry E c regs st = Inr (m, st')" "env_reachable E (bs_kernel st')"
    "m_regs m = start_regs (ce_x86 E) (ce_idle_entry E) 0 sp" "sp AND 0xf = 0"
    "k_tls (bs_kernel st') (hw_gs_base (bs_hw st')) = Some cpu" "tls_cpu_id cpu = lc_id c"
    "thread_addr cpu = IdleThread (hw_gs_base (bs_hw st'))"
    "get_cpu_tls (bs_kernel st') (lc_id c) = Some (hw_gs_base (bs_hw st'))"
    "bs_gdts st' (hw_gdtr (bs_hw st')) \<noteq> None" "bs_idts st' (hw_idtr (bs_hw st')) \<noteq> None"
    "gdt_addr cpu = hw_gdtr (bs_hw st')" "idt_addr cpu = hw_idtr (bs_hw st')"
proof -
  let ?X = "ce_x86 E" and ?k = "bs_kernel st"
  have X: "x86_ok ?X" and G: "gdt_ok (ce_gdt E)" and sz: "ce_tls_size E \<le> 4096" "ce_gdt_size E < 4096" "ce_idt_size E = 4096"
    using E by (auto simp: env_ok_def)
  define k0 where "k0 = println (starting_msg c) ?k"
  have k0: "k_mem k0 = k_mem ?k" by (simp add: k0_def println_def)
  have r0: "env_reachable E k0" unfolding k0_def by (rule reachable.step[OF r sched_step.print])
  have ok0: "sched_ok k0" using reachable_sched_ok[OF r0 X] .
  then have m0: "mem_ok (k_mem k0)" and len: "length (k_cpus k0) = 256"
    by (simp_all add: sched_ok_def pages_ok_def cpus_ok_def)
  have c0: "unat (lc_id c) < length (k_cpus k0)" using id len by simp
  from X m0 sz(1) c0 show thesis
  proof (cases rule: setup_tls_cases[where e = "ce_idle_entry E"])
    case oom
    then show thesis using free k0 by simp
  next
    case tls: (ok a t m1 gs)
    let ?sp = "get_top_address (kernel_stack t)"
    let ?regs = "start_regs ?X (ce_idle_entry E) 0 ?sp"
    let ?cpu1 = "\<lparr>tls_cpu_id = lc_id c, idt_addr = 0, gdt_addr = 0, thread_addr = NullThread, idle_thread = t, ready_queue = queue_new\<rparr>"
    define k1 where "k1 = k0\<lparr>k_mem := m1, k_ram := write_words (k_ram k0) (th_regs t) (regs_words ?regs),
      k_tls := (k_tls k0)(gs \<mapsto> ?cpu1), k_cpus := (k_cpus k0)[unat (lc_id c) := \<lparr>cd_online = True, cd_tls = gs\<rparr>]\<rparr>"
    have s1: "setup_tls ?X (ce_tls_size E) (ce_idle_entry E) (lc_id c) k0 = Inr (gs, k1)" using tls(8) by (simp add: k1_def)
    have r1: "env_reachable E k1" by (rule reachable.step[OF r0 sched_step.boot[OF s1]])
    define st1 where "st1 = st\<lparr>bs_kernel := k1, bs_hw := (bs_hw st)\<lparr>hw_gs_base := gs\<rparr>\<rparr>"
    have b1: "bs_kernel st1 = k1" "hw_gs_base (bs_hw st1) = gs" "k_tls k1 gs = Some ?cpu1" "k_mem k1 = m1"
      by (simp_all add: st1_def k1_def)
    have f1: "2 \<le> card (mem_free m1)" using tls(10) free k0 by simp
    have m1: "mem_ok (k_mem (bs_kernel st1))" using tls(5) b1 by simp
    obtain st2 st3 ga ia ma m2 g where runs: "setup_gdt ?X (ce_gdt E) (ce_gdt_size E) (ce_gs_reload E) st1 = Inr st2"
        "setup_idt ?X (ce_idt E) 4096 (ce_handlers E) st2 = Inr st3"
      and st3: "st3 = st1\<lparr>bs_kernel := k1\<lparr>k_mem := m2, k_tls := (k_tls k1)(gs \<mapsto> ?cpu1\<lparr>gdt_addr := ga, idt_addr := ia\<rparr>)\<rparr>,
         bs_hw := (load_segments ?X (ce_gs_reload E) ga (bs_hw st1))\<lparr>hw_idtr := ia\<rparr>, bs_gdts := (bs_gdts st1)(ga \<mapsto> g),
         bs_idts := (bs_idts st1)(ia \<mapsto> fill_idt (ce_idt E) (ce_handlers E) (KERNEL_CS ?X) (\<lambda>_. entry_missing (ce_idt E)))\<rparr>"
      and al: "\<exists>r. alloc_frames ?X m1 1 = Inr (r, ma)" "\<exists>r. alloc_frames ?X ma 1 = Inr (r, m2)" "HHDM_OFFSET m2 = HHDM_OFFSET m1"
      by (rule setup_tables[OF X G m1 sz(2), of ?cpu1 "ce_gs_reload E" "ce_idt E" "ce_handlers E"]) (use b1 f1 in auto)
    let ?cpu = "?cpu1\<lparr>gdt_addr := ga, idt_addr := ia\<rparr>"
    let ?k3 = "k1\<lparr>k_mem := m2, k_tls := (k_tls k1)(gs \<mapsto> ?cpu)\<rparr>"
    have r3: "env_reachable E ?k3" by (rule tables_reach[OF r1 b1(3)]) (use al b1(4) in simp_all)
    have b3: "bs_kernel st3 = ?k3" "hw_gs_base (bs_hw st3) = gs" "hw_gdtr (bs_hw st3) = ga" "hw_idtr (bs_hw st3) = ia"
      "bs_gdts st3 ga \<noteq> None" "bs_idts st3 ia \<noteq> None" by (simp_all add: st3 b1 load_segments_eq)
    have l3: "lapic_mapped (k_mem ?k3) (ce_apic_base E)" using l tls(6) al(3) k0 by (simp add: lapic_mapped_def)
    obtain ws where ws: "setup_lapic_timer ?X (ce_lapic_read E) (ce_apic_base E) ?k3 = Inr (?k3\<lparr>k_mmio := k_mmio ?k3 @ ws\<rparr>)"
        "env_reachable E (?k3\<lparr>k_mmio := k_mmio ?k3 @ ws\<rparr>)"
      by (rule lapic_timer_ok[OF X l3]) (use r3 in blast)
    define k4 where "k4 = ?k3\<lparr>k_mmio := k_mmio ?k3 @ ws\<rparr>"
    let ?m = "\<lparr>m_regs = regs, m_kernel = k4, rax_ptr = NullThread\<rparr>"
    define k5 where "k5 = k4\<lparr>k_tls := (k_tls k4)(gs \<mapsto> ?cpu\<lparr>thread_addr := IdleThread gs\<rparr>)\<rparr>"
    have c4: "k_tls k4 gs = Some ?cpu" by (simp add: k4_def)
    have "read_words (k_ram k4) (th_regs t) 20 = regs_words ?regs"
      using read_write_words[of "regs_words ?regs" "k_ram k0" "th_regs t"] by (simp add: k4_def k1_def)
    then have fs: "force_switch_to_idle (ce_thread_address E) gs ?m = Inr (?m\<lparr>m_regs := ?regs, m_kernel := k5\<rparr>)"
      using force_switch_run[of ?m gs ?cpu ?regs] c4 by (simp add: k5_def)
    have r5: "env_reachable E k5"
      by (rule reachable.step[OF ws(2)[folded k4_def] sched_step.idle[OF c4]]) (simp_all add: enter_idle_def current_cpu_def c4 k5_def)
    have run: "common_entry E c regs st = Inr (?m\<lparr>m_regs := ?regs, m_kernel := k5\<rparr>, st3\<lparr>bs_kernel := k5\<rparr>)"
      using s1 runs ws(1) fs[unfolded k4_def] b3 sz(3) by (simp add: common_entry_def k0_def[symmetric] st1_def[symmetric] Let_def)
    have cpus: "get_cpu_tls k5 (lc_id c) = Some gs" using c0 by (simp add: get_cpu_tls_def k5_def k4_def k1_def)
    show thesis
      by (rule that[OF run, of ?sp "?cpu\<lparr>thread_addr := IdleThread gs\<rparr>"]) (use r5 tls(7) b3 cpus in \<open>simp_all add: k5_def\<close>)
  qed
qed

section \<open>The boot CPU starts\<close>









section \<open>Properties\<close>

text \<open>
  C6. A CPU comes up: entered in any reachable state of the running kernel, with an identifier
  below 256, four free frames and the interrupt controller in the direct map, \<open>common_entry\<close>
  does not panic. The CPU ends in its idle thread: at the idle entry point in the kernel code
  segment, on an aligned stack, with interrupts on; it is registered as online under its
  identifier; and the state is again reachable, so all invariants of the scheduler hold in it.
\<close>

theorem common_entry_idles:
  assumes "env_ok E" "env_reachable E (bs_kernel st)" "unat (lc_id c) < 256"
    and "4 \<le> card (mem_free (k_mem (bs_kernel st)))" "lapic_mapped (k_mem (bs_kernel st)) (ce_apic_base E)"
  shows "\<exists>m st' cpu. common_entry E c regs st = Inr (m, st') \<and> env_reachable E (bs_kernel st') \<and>
    rip (m_regs m) = ce_idle_entry E \<and> cs (m_regs m) = 8 \<and> bit (rflags (m_regs m)) 9 \<and> rsp (m_regs m) AND 0xf = 0 \<and>
    get_cpu_tls (bs_kernel st') (lc_id c) = Some (hw_gs_base (bs_hw st')) \<and>
    k_tls (bs_kernel st') (hw_gs_base (bs_hw st')) = Some cpu \<and> tls_cpu_id cpu = lc_id c \<and>
    thread_addr cpu = IdleThread (hw_gs_base (bs_hw st')) \<and>
    gdt_addr cpu = hw_gdtr (bs_hw st') \<and> idt_addr cpu = hw_idtr (bs_hw st')"
proof -
  have X: "x86_ok (ce_x86 E)" using assms(1) by (simp add: env_ok_def)
  have b: "bit (0x202 :: u64) 9" by simp
  obtain m st' cpu sp where "common_entry E c regs st = Inr (m, st')" "env_reachable E (bs_kernel st')"
    and regs: "m_regs m = start_regs (ce_x86 E) (ce_idle_entry E) 0 sp" "sp AND 0xf = 0"
    and "k_tls (bs_kernel st') (hw_gs_base (bs_hw st')) = Some cpu" "tls_cpu_id cpu = lc_id c"
      "thread_addr cpu = IdleThread (hw_gs_base (bs_hw st'))"
      "get_cpu_tls (bs_kernel st') (lc_id c) = Some (hw_gs_base (bs_hw st'))"
      "gdt_addr cpu = hw_gdtr (bs_hw st')" "idt_addr cpu = hw_idtr (bs_hw st')"
    by (rule common_entry_ok[OF assms, of regs])
  then show ?thesis using selectors(1)[OF X] b
    by (intro exI[of _ m] exI[of _ st'] exI[of _ cpu]) (simp add: start_regs_def)
qed

text \<open>An environment and a CPU, for closed instances.\<close>

definition sample_env :: "(u64 list, (u64 \<times> u16 \<times> u16 \<times> bool) option) cpu_env" where
  "sample_env = \<lparr>ce_x86 = x86_doc, ce_gdt = gdt_doc, ce_idt = idt_doc, ce_tls_size = 4096, ce_gdt_size = 64, ce_idt_size = 4096,
     ce_idle_entry = 0x400000, ce_handlers = \<lparr>h_breakpoint = 1, h_page_fault = 2, h_timer = 3\<rparr>, ce_thread_address = (\<lambda>_. 0),
     ce_lapic_read = (\<lambda>_. 0x1ff), ce_apic_base = 0xfee00900, ce_gs_reload = 0\<rparr>"

definition sample_state :: "kernel \<Rightarrow> (u64 list, (u64 \<times> u16 \<times> u16 \<times> bool) option) boot_state" where
  "sample_state k = \<lparr>bs_kernel = k, bs_hw = \<lparr>hw_cs = 0x28, hw_ds = 0x30, hw_ss = 0x30, hw_es = 0x30, hw_fs = 0x30,
     hw_gs = 0x30, hw_gs_base = 0, hw_gdtr = 0, hw_idtr = 0\<rparr>, bs_gdts = Map.empty, bs_idts = Map.empty\<rparr>"

lemma sample_env_ok: "env_ok sample_env"
  using table_docs by (simp add: env_ok_def sample_env_def)

theorem common_entry_idles_witness:
  "\<exists>m st'. common_entry sample_env \<lparr>lc_id = 3, lc_lapic_id = 6\<rparr> (regs_of_words (replicate 20 0))
       (sample_state (small_tables [])) = Inr (m, st') \<and> rip (m_regs m) = 0x400000"
proof -
  let ?st = "sample_state (small_tables [])"
  have k: "bs_kernel ?st = small_tables []" by (simp add: sample_state_def)
  have r: "env_reachable sample_env (bs_kernel ?st)"
    unfolding k unfolding small_tables_def by (rule reachable.start[OF small_mem_ok])
  have f: "4 \<le> card (mem_free (k_mem (bs_kernel ?st)))"
    unfolding k unfolding small_tables_simps small_free by (subst card_image) (auto simp: inj_on_def)
  have l: "lapic_mapped (k_mem (bs_kernel ?st)) (ce_apic_base sample_env)"
    unfolding k by (simp add: small_tables_simps lapic_mapped_def sample_env_def lapic_phys_addr_def hhdm_ok_def)
  have id: "unat (lc_id \<lparr>lc_id = 3, lc_lapic_id = 6\<rparr>) < 256" by simp
  have e: "ce_idle_entry sample_env = 0x400000" by (simp add: sample_env_def)
  from common_entry_idles[OF sample_env_ok r id f l] show ?thesis unfolding e by blast
qed




text \<open>
  C36. A CPU whose identifier does not fit the table of 256 CPUs is caught: \<open>setup_tls\<close> panics on
  the index, after it has taken its memory, and nothing is written outside of the table.
\<close>

theorem cpu_id_out_of_range:
  assumes "x86_ok X" "reachable X sz e k" "sz \<le> 4096" "2 \<le> card (mem_free (k_mem k))" "256 \<le> unat c"
  shows "setup_tls X sz e c k = Inl OutOfBounds"
proof -
  have ok: "sched_ok k" using reachable_sched_ok[OF assms(2,1)] .
  then have m: "mem_ok (k_mem k)" and len: "length (k_cpus k) = 256"
    by (simp_all add: sched_ok_def pages_ok_def cpus_ok_def)
  from assms(1) m show ?thesis
  proof (cases rule: alloc_page_cases)
    case (oom e')
    then show ?thesis using assms(4) by simp
  next
    case (ok a m1)
    let ?gs = "a + HHDM_OFFSET (k_mem k)"
    have tls: "alloc_tls X sz k = Inr (?gs, k\<lparr>k_mem := m1, k_tls := (k_tls k)(?gs \<mapsto> tls_zeroed)\<rparr>)"
      using ok assms(3) by (simp add: alloc_tls_def)
    have gs: "virt_new X ?gs = Some ?gs" using ok(9) assms(1) by (simp add: x86_ok_simps)
    have one: "card (mem_free (k_mem k)) \<le> card (mem_free m1) + 1"
      using diff_card_le_card_Diff[of "{unat a}" "mem_free (k_mem k)"] ok(6) by simp
    have c: "\<not> unat (ucast c :: usize) < length (k_cpus k)" using assms(5) len by (simp add: unat_ucast_u32)
    from assms(1) ok(2) show ?thesis
    proof (cases rule: new_idle_cases[where e = e and ram = "k_ram k"])
      case oom
      then show ?thesis using one assms(4) by simp
    next
      case (ok t m')
      then show ?thesis using tls gs c by (simp add: setup_tls_def Let_def slice_set_def)
    qed
  qed
qed

theorem cpu_id_out_of_range_witness: "setup_tls x86_doc 4096 0 256 (small_tables []) = Inl OutOfBounds"
proof -
  have r: "reachable x86_doc 4096 0 (small_tables [])" unfolding small_tables_def by (rule reachable.start[OF small_mem_ok])
  have f: "2 \<le> card (mem_free (k_mem (small_tables [])))" unfolding small_tables_simps by (rule small_card)
  show ?thesis by (rule cpu_id_out_of_range[OF x86_ok_doc r _ f]) simp_all
qed

end
