(* ===== verification/Spec2Isabelle.thy ===== *)
theory Spec2Isabelle
  imports Closure Boot
begin

text \<open>
  A verification development for the kernel under src/src: a small x86-64 kernel in Rust,
  started by the Limine bootloader, with a frame allocator, kernel threads on several CPUs, a
  timer-driven scheduler with load balancing, and a framebuffer console.

  \<^bold>\<open>How the program is modelled.\<close> Pure functions are HOL functions; code with state takes and
  returns its state; everything that can panic returns \<open>'a res\<close>, a sum of a panic and a result
  (\<open>Prelude\<close>). Integers are words of their width and wrap around, as in the release build of the
  makefile; slice accesses, \<open>assert!\<close>, \<open>unwrap\<close>, \<open>expect\<close> and the address constructors of the
  \<^verbatim>\<open>x86_64\<close> crate are panics. \<open>Undefined\<close> marks what unsafe code must not do (reading
  uninitialised memory, following a pointer to nothing); the proofs exclude it. Code that is not
  under src/ is a parameter: the crate's addresses, selectors and page table entries
  (\<open>x86_crate\<close>, with the documented behaviour \<open>x86_ok\<close>), its descriptor tables (\<open>gdt_crate\<close>,
  \<open>idt_crate\<close>), the responses of the bootloader (\<open>limine\<close>, with \<open>limine_promises\<close>), device
  registers and the time stamp counter. What the processor does on an interrupt, on \<open>iretq\<close> and
  when it walks the page tables is written out in \<open>Context\<close> and \<open>Vmm\<close>.

  \<^bold>\<open>Memory.\<close> \<open>Frame\<close> is memory/frame.rs with the contract of the trait \<open>FrameAllocator\<close> as the
  locale \<open>frame_allocator\<close>: no frame is handed out twice, none is lost. \<open>Bitmap\<close>, \<open>Allocator\<close>
  and \<open>Init_Alloc\<close> are memory/bitmap.rs: bitmap and region, the allocator over all regions, and
  its placement in the memory it manages; the allocator is an interpretation of the contract.
  \<open>Memory\<close> is memory/mod.rs, the global allocator (a second interpretation) and the direct map.
  \<open>Vmm\<close> is memory/vmm.rs: \<open>map_page\<close>, judged by the processor's walk.

  \<^bold>\<open>Threads and scheduling.\<close> \<open>Queue\<close> is the ring buffer of sched/thread.rs, refined to a bounded
  list by the locale of a queue; \<open>Thread\<close> has register frames, stacks and the thread table;
  \<open>Cpu\<close> the per-CPU data of arch/x86_64/cpu.rs, the state \<open>kernel\<close> and spawning. The address of a
  \<open>Thread\<close> is a \<open>thread_ptr\<close>: a slot of the table, or the idle thread of a TLS page. \<open>Util\<close> is
  util.rs. \<open>Sched\<close> is sched/mod.rs: \<open>switch\<close>, load balancing, and their specifications on
  lists. \<open>Lapic\<close> is arch/x86_64/lapic.rs and the timer handler. \<open>Context\<close> runs the assembly of
  \<open>timer_interrupt\<close> and \<open>force_switch_to_idle\<close> instruction by instruction. \<open>Sched_Inv\<close> makes of
  all this a transition system, \<open>sched_step\<close>, in which the CPUs interleave, and proves its
  invariant \<open>sched_ok\<close>. \<open>Closure\<close> follows the data of a spawned closure.

  \<^bold>\<open>Locks and console.\<close> \<open>Spinlock\<close> is sync/spinlock.rs as a transition system: any number of CPUs,
  locks and nested interrupts, \<open>lock\<close> and the drop of a guard split where other CPUs can come
  between. \<open>Font\<close>, \<open>Framebuffer\<close> and \<open>Terminal\<close> are dev/console: the font, pixels and glyphs, and
  the terminal with its escape sequences, refined to a grid of cells. \<open>Console\<close> is
  dev/console/mod.rs and panic.rs: \<open>log\<close>, on one CPU and on many over the locks of \<open>Spinlock\<close>,
  and the message of a panic.

  \<^bold>\<open>Start-up.\<close> \<open>Descriptors\<close> is arch/x86_64/gdt.rs and idt.rs; \<open>Boot\<close> is arch/x86_64/init.rs
  (\<open>common_entry\<close>) and main.rs (\<open>kmain\<close>), which compose the other parts.

  \<^bold>\<open>What is proved.\<close> Each property stands behind a text block with its number, in the theory of
  its component. The allocator serves any sequence of requests without giving a frame away twice
  or losing one, finds the first fit, and starts correctly on a memory map of the bootloader. In
  every reachable state of the kernel each thread is in exactly one place, the timer handler
  returns on every CPU, and a thread resumes with exactly the registers it was interrupted with.
  Round robin is fair, balancing evens two queues and loses nothing. Locks exclude each other,
  keep interrupts off, and do not deadlock when taken in order; messages from several CPUs are
  never mixed. The terminal shows what its input says and survives any input. \<open>map_page\<close> maps
  the page and keeps the other translations. \<open>kmain\<close> and \<open>common_entry\<close> bring the CPUs into
  their idle threads, in states from which all of this holds. Some properties state what goes
  wrong: captured data of spawned closures is misread, new page tables show stale entries, a CPU
  that locks a lock it holds hangs, unsupported escape sequences swallow text.

  \<^bold>\<open>Bounds.\<close> No definition needs fuel: loops are over ranges, lists or the levels of the page
  tables. Numbers in hypotheses are those of the code or of the architecture: 256 threads, CPUs
  and queue slots, physical addresses below \<open>2 ^ 52\<close>, the direct map in the canonical upper half,
  thread identifiers below \<open>2 ^ 64 - 1\<close>, four free frames to bring up a CPU (TLS page, idle stack
  and two tables), and two for \<open>map_page\<close>.

  \<^bold>\<open>Not modelled.\<close> The bodies of threads and the endless loops \<open>idle\<close> and \<open>hlt\<close>; memory
  orderings weaker than sequential consistency; the translation look-aside buffer; messages that
  the set-up of the allocator prints, and how \<open>core::fmt\<close> formats (a message is the list of the
  pieces it writes); the requests of boot/requests.rs, which are statics that the bootloader
  fills in; module declarations. In the scheduler each critical section is one step, which the
  mutual exclusion of \<open>Spinlock\<close> justifies; the lock order of load balancing is the hypothesis
  of its theorem on deadlock.
\<close>

end
